(* ===== verification/Prelude.thy ===== *)
theory Prelude
  imports Main "HOL-Library.Word"
begin

text \<open>
  Shared ground of the development: the machine integer types of the sources, the
  arithmetic of \<open>usize\<close>, the slice accessors of Rust's \<open>core::slice\<close> that the
  sources use, results and their sequencing, little-endian encodings, and the generic
  lemmas on lists and words the component theories rely on.
\<close>

unbundle bit_operations_syntax

section \<open>Machine integers\<close>

type_synonym u8 = "8 word"
type_synonym u16 = "16 word"
type_synonym u32 = "32 word"
type_synonym u64 = "64 word"
type_synonym bytes = "u8 list"

text \<open>
  \<open>usize\<close> values are lengths, indices and sums of them. They are modelled as
  naturals, with the wrap-around of the \<open>wrapping_\<close>, \<open>checked_\<close> and
  \<open>saturating_\<close> operations written out at the width of the narrowest host the
  crates are built for (32 bits: Cortex-M33, ESP32); a 64-bit host only widens it.
\<close>

type_synonym usize = nat

definition usize_modulus :: nat where
  "usize_modulus = 2 ^ 32"

definition usize_wrapping_add :: "usize \<Rightarrow> usize \<Rightarrow> usize" where
  "usize_wrapping_add a b = (a + b) mod usize_modulus"

definition usize_wrapping_sub :: "usize \<Rightarrow> usize \<Rightarrow> usize" where
  "usize_wrapping_sub a b = (a + usize_modulus - b) mod usize_modulus"

definition usize_wrapping_mul :: "usize \<Rightarrow> usize \<Rightarrow> usize" where
  "usize_wrapping_mul a b = (a * b) mod usize_modulus"

definition usize_checked_add :: "usize \<Rightarrow> usize \<Rightarrow> usize option" where
  "usize_checked_add a b = (if a + b < usize_modulus then Some (a + b) else None)"

definition usize_checked_sub :: "usize \<Rightarrow> usize \<Rightarrow> usize option" where
  "usize_checked_sub a b = (if b \<le> a then Some (a - b) else None)"

definition usize_checked_mul :: "usize \<Rightarrow> usize \<Rightarrow> usize option" where
  "usize_checked_mul a b = (if a * b < usize_modulus then Some (a * b) else None)"

definition usize_saturating_add :: "usize \<Rightarrow> usize \<Rightarrow> usize" where
  "usize_saturating_add a b = min (a + b) (usize_modulus - 1)"

definition u8_try_from :: "nat \<Rightarrow> u8 option" where
  "u8_try_from n = (if n < 2 ^ 8 then Some (word_of_nat n) else None)"

definition u16_try_from :: "nat \<Rightarrow> u16 option" where
  "u16_try_from n = (if n < 2 ^ 16 then Some (word_of_nat n) else None)"

definition u32_try_from :: "nat \<Rightarrow> u32 option" where
  "u32_try_from n = (if n < 2 ^ 32 then Some (word_of_nat n) else None)"

section \<open>Slices\<close>

text \<open>
  \<open>s.get(i)\<close>, \<open>s.get(..n)\<close>, \<open>s.get(n..)\<close>, \<open>s.get(a..b)\<close>,
  \<open>s.split_first()\<close>, \<open>s.split_last()\<close> and \<open>s.split_at_checked(n)\<close>. A mutable
  slice is a list that the operation returns updated; its length never changes.
\<close>

definition get_at :: "'a list \<Rightarrow> usize \<Rightarrow> 'a option" where
  "get_at s i = (if i < length s then Some (s ! i) else None)"

definition get_to :: "'a list \<Rightarrow> usize \<Rightarrow> 'a list option" where
  "get_to s n = (if n \<le> length s then Some (take n s) else None)"

definition get_from :: "'a list \<Rightarrow> usize \<Rightarrow> 'a list option" where
  "get_from s n = (if n \<le> length s then Some (drop n s) else None)"

definition get_range :: "'a list \<Rightarrow> usize \<Rightarrow> usize \<Rightarrow> 'a list option" where
  "get_range s a b = (if a \<le> b \<and> b \<le> length s then Some (take (b - a) (drop a s)) else None)"

definition split_first :: "'a list \<Rightarrow> ('a \<times> 'a list) option" where
  "split_first s = (case s of [] \<Rightarrow> None | x # xs \<Rightarrow> Some (x, xs))"

definition split_last :: "'a list \<Rightarrow> ('a \<times> 'a list) option" where
  "split_last s = (case s of [] \<Rightarrow> None | _ # _ \<Rightarrow> Some (last s, butlast s))"

definition split_at_checked :: "'a list \<Rightarrow> usize \<Rightarrow> ('a list \<times> 'a list) option" where
  "split_at_checked s n = (if n \<le> length s then Some (take n s, drop n s) else None)"

text \<open>Overwriting the window \<open>s[a ..]\<close> by \<open>ys\<close>, and the front of \<open>s\<close>.\<close>

definition put_at :: "usize \<Rightarrow> 'a list \<Rightarrow> 'a list \<Rightarrow> 'a list" where
  "put_at a ys s = take a s @ ys @ drop (a + length ys) s"

section \<open>Results\<close>

text \<open>A \<open>Result<T, E>\<close> is \<open>'e + 't\<close>, the error on the left.\<close>

abbreviation Ok :: "'a \<Rightarrow> 'e + 'a" where
  "Ok \<equiv> Inr"

abbreviation Err :: "'e \<Rightarrow> 'e + 'a" where
  "Err \<equiv> Inl"

definition is_ok :: "'e + 'a \<Rightarrow> bool" where
  "is_ok r = (case r of Inl _ \<Rightarrow> False | Inr _ \<Rightarrow> True)"

definition map_err :: "('e \<Rightarrow> 'f) \<Rightarrow> 'e + 'a \<Rightarrow> 'f + 'a" where
  "map_err f r = (case r of Inl e \<Rightarrow> Inl (f e) | Inr a \<Rightarrow> Inr a)"

definition ok_or :: "'a option \<Rightarrow> 'e \<Rightarrow> 'e + 'a" where
  "ok_or x e = (case x of None \<Rightarrow> Inl e | Some a \<Rightarrow> Inr a)"

text \<open>The \<open>?\<close> operator: on a plain result, and on a result next to the state it leaves.\<close>

definition try_bind :: "'e + 'a \<Rightarrow> ('a \<Rightarrow> 'e + 'b) \<Rightarrow> 'e + 'b" where
  "try_bind r k = (case r of Inl e \<Rightarrow> Inl e | Inr a \<Rightarrow> k a)"

definition st_bind :: "('e + 'a) \<times> 's \<Rightarrow> ('a \<Rightarrow> 's \<Rightarrow> ('e + 'b) \<times> 's) \<Rightarrow> ('e + 'b) \<times> 's" where
  "st_bind r k = (case r of (Inl e, s) \<Rightarrow> (Inl e, s) | (Inr a, s) \<Rightarrow> k a s)"

section \<open>Little-endian encodings\<close>

definition u16_to_le_bytes :: "u16 \<Rightarrow> bytes" where
  "u16_to_le_bytes w = [ucast w, ucast (drop_bit 8 w)]"

definition u16_from_le_bytes :: "u8 \<Rightarrow> u8 \<Rightarrow> u16" where
  "u16_from_le_bytes b0 b1 = ucast b0 OR push_bit 8 (ucast b1)"

definition u32_to_le_bytes :: "u32 \<Rightarrow> bytes" where
  "u32_to_le_bytes w =
     [ucast w, ucast (drop_bit 8 w), ucast (drop_bit 16 w), ucast (drop_bit 24 w)]"

definition u32_from_le_bytes :: "u8 \<Rightarrow> u8 \<Rightarrow> u8 \<Rightarrow> u8 \<Rightarrow> u32" where
  "u32_from_le_bytes b0 b1 b2 b3 =
     ucast b0 OR push_bit 8 (ucast b1) OR push_bit 16 (ucast b2) OR push_bit 24 (ucast b3)"

section \<open>Collections\<close>

named_theorems slice_simps \<open>the slice accessors unfolded to lists\<close>
named_theorems bind_iff \<open>when a sequence of fallible steps succeeds\<close>
named_theorems usize_simps \<open>usize arithmetic inside its range\<close>

section \<open>Lemmas on usize arithmetic\<close>

lemma usize_wrapping_add_small [usize_simps]:
  "a + b < 4294967296 \<Longrightarrow> usize_wrapping_add a b = a + b"
  by (simp add: usize_wrapping_add_def usize_modulus_def)

lemma usize_wrapping_sub_small [usize_simps]:
  "b \<le> a \<Longrightarrow> a < 4294967296 \<Longrightarrow> usize_wrapping_sub a b = a - b"
  by (simp add: usize_wrapping_sub_def usize_modulus_def mod_if)

lemma usize_wrapping_mul_small [usize_simps]:
  "a * b < 4294967296 \<Longrightarrow> usize_wrapping_mul a b = a * b"
  by (simp add: usize_wrapping_mul_def usize_modulus_def)

lemma usize_checked_add_small [usize_simps]:
  "a + b < 4294967296 \<Longrightarrow> usize_checked_add a b = Some (a + b)"
  by (simp add: usize_checked_add_def usize_modulus_def)

lemma usize_checked_mul_small [usize_simps]:
  "a * b < 4294967296 \<Longrightarrow> usize_checked_mul a b = Some (a * b)"
  by (simp add: usize_checked_mul_def usize_modulus_def)

lemma usize_checked_sub_small [usize_simps]:
  "b \<le> a \<Longrightarrow> usize_checked_sub a b = Some (a - b)"
  by (simp add: usize_checked_sub_def)

lemma usize_saturating_add_small [usize_simps]:
  "a + b < 4294967296 \<Longrightarrow> usize_saturating_add a b = a + b"
  by (simp add: usize_saturating_add_def usize_modulus_def)

text \<open>Code equations that keep the bound binary, for evaluation by the simplifier.\<close>

lemma usize_wrapping_add_code [code]:
  "usize_wrapping_add a b = nat ((int a + int b) mod 4294967296)"
  by (simp add: usize_wrapping_add_def usize_modulus_def nat_mod_distrib nat_add_distrib)

lemma usize_wrapping_mul_code [code]:
  "usize_wrapping_mul a b = nat ((int a * int b) mod 4294967296)"
  by (simp add: usize_wrapping_mul_def usize_modulus_def nat_mod_distrib nat_mult_distrib)

lemma usize_wrapping_sub_code [code]:
  "usize_wrapping_sub a b =
     (if b \<le> a then nat ((int a - int b) mod 4294967296)
      else if int b \<le> int a + 4294967296 then nat ((int a + 4294967296 - int b) mod 4294967296) else 0)"
proof -
  have "nat ((int a + 4294967296 - int b) mod 4294967296) = (a + 4294967296 - b) mod 4294967296"
    if "b \<le> a + 4294967296"
    using that by (simp add: nat_mod_distrib nat_diff_distrib nat_add_distrib)
  moreover have "(int a - int b) mod 4294967296 = (int a + 4294967296 - int b) mod 4294967296"
    by (metis add_diff_eq diff_add_eq mod_add_self2)
  ultimately show ?thesis
    by (auto simp: usize_wrapping_sub_def usize_modulus_def)
qed

lemma usize_checked_add_code [code]:
  "usize_checked_add a b = (if int a + int b < 4294967296 then Some (a + b) else None)"
  by (auto simp: usize_checked_add_def usize_modulus_def)

lemma usize_checked_mul_code [code]:
  "usize_checked_mul a b = (if int a * int b < 4294967296 then Some (a * b) else None)"
proof -
  have "int a * int b < 4294967296 \<longleftrightarrow> a * b < 4294967296"
    by (metis of_nat_less_iff of_nat_mult of_nat_numeral)
  then show ?thesis
    by (simp add: usize_checked_mul_def usize_modulus_def)
qed

lemma usize_saturating_add_code [code]:
  "usize_saturating_add a b = (if int a + int b < 4294967296 then a + b else nat 4294967295)"
  by (auto simp: usize_saturating_add_def usize_modulus_def)

lemma u16_try_from_code [code]:
  "u16_try_from n = (if int n < 65536 then Some (word_of_nat n) else None)"
  by (auto simp: u16_try_from_def)

lemma u32_try_from_code [code]:
  "u32_try_from n = (if int n < 4294967296 then Some (word_of_nat n) else None)"
  by (auto simp: u32_try_from_def)

lemma unat_u8_lt: "unat (b :: u8) < 256"
  using unsigned_less [of b, where 'a = nat] by simp

lemma unat_u16_lt: "unat (w :: u16) < 65536"
  using unsigned_less [of w, where 'a = nat] by simp

lemma unat_u32_lt: "unat (w :: u32) < 4294967296"
  using unsigned_less [of w, where 'a = nat] by simp

lemma usize_wrapping_add_u8 [usize_simps]:
  "n < 4294967040 \<Longrightarrow> usize_wrapping_add (unat (b :: u8)) n = unat b + n"
  using unat_u8_lt [of b] by (intro usize_wrapping_add_small) linarith

lemma u8_try_from_Some [simp]: "n < 256 \<Longrightarrow> u8_try_from n = Some (word_of_nat n)"
  by (simp add: u8_try_from_def)

lemma u8_try_from_None [simp]: "256 \<le> n \<Longrightarrow> u8_try_from n = None"
  by (simp add: u8_try_from_def)

lemma unat_word_of_nat_u8 [simp]: "n < 256 \<Longrightarrow> unat (word_of_nat n :: u8) = n"
  by (simp add: unat_of_nat)

lemma unat_word_of_nat_u16 [simp]: "n < 65536 \<Longrightarrow> unat (word_of_nat n :: u16) = n"
  by (simp add: unat_of_nat)

lemma unat_word_of_nat_u32 [simp]: "n < 4294967296 \<Longrightarrow> unat (word_of_nat n :: u32) = n"
  by (simp add: unat_of_nat)

lemma unat_ucast_u16_u32 [simp]: "unat (ucast (w :: u16) :: u32) = unat w"
proof -
  have "unat w < 4294967296"
    using unat_u16_lt [of w] by linarith
  then show ?thesis
    by (simp add: unsigned_ucast_eq take_bit_nat_eq_self)
qed

lemma unat_ucast_u32_u16 [simp]: "unat (w :: u32) < 65536 \<Longrightarrow> unat (ucast w :: u16) = unat w"
  by (simp add: unsigned_ucast_eq take_bit_nat_eq_self)

lemma u16_try_from_Some [simp]: "n < 65536 \<Longrightarrow> u16_try_from n = Some (word_of_nat n)"
  by (simp add: u16_try_from_def)

lemma u32_try_from_Some [simp]: "n < 4294967296 \<Longrightarrow> u32_try_from n = Some (word_of_nat n)"
  by (simp add: u32_try_from_def)

lemma xor_right_cancel: "a XOR c = b XOR c \<Longrightarrow> a = b" for a b c :: "'a::len word"
  by (auto simp: bit_eq_iff bit_xor_iff)

lemma xor_left_cancel: "c XOR a = c XOR b \<Longrightarrow> a = b" for a b c :: "'a::len word"
  by (auto simp: bit_eq_iff bit_xor_iff)

section \<open>Lemmas on slices and results\<close>

lemma replicate_numeral: "replicate (numeral k) x = x # replicate (pred_numeral k) x"
  by (simp add: numeral_eq_Suc)

declare get_at_def [slice_simps] get_to_def [slice_simps] get_from_def [slice_simps]
  get_range_def [slice_simps] split_first_def [slice_simps] split_last_def [slice_simps]
  split_at_checked_def [slice_simps]

lemma get_to_Some_iff: "get_to s n = Some p \<longleftrightarrow> n \<le> length s \<and> p = take n s"
  by (auto simp: get_to_def)

lemma split_last_snoc [simp]: "split_last (xs @ [x]) = Some (x, xs)"
  by (cases xs) (simp_all add: split_last_def)

lemma length_put_at [simp]:
  "a + length ys \<le> length s \<Longrightarrow> length (put_at a ys s) = length s"
  by (simp add: put_at_def)

lemma nth_put_at:
  assumes "a + length ys \<le> length s" and "i < length s"
  shows "put_at a ys s ! i = (if i < a then s ! i else if i < a + length ys then ys ! (i - a) else s ! i)"
  using assms by (auto simp: put_at_def nth_append)

lemma take_put_at [simp]:
  "a + length ys \<le> length s \<Longrightarrow> take a (put_at a ys s) = take a s"
  by (simp add: put_at_def)

lemma try_bind_simps [simp]:
  "try_bind (Inl e) k = Inl e" "try_bind (Inr a) k = k a"
  by (simp_all add: try_bind_def)

lemma st_bind_simps [simp]:
  "st_bind (Inl e, s) k = (Inl e, s)" "st_bind (Inr a, s) k = k a s"
  by (simp_all add: st_bind_def)

text \<open>Inversion: a chain of \<open>?\<close> succeeds when each link does.\<close>

lemma try_bind_Ok [bind_iff]: "try_bind r k = Inr b \<longleftrightarrow> (\<exists>a. r = Inr a \<and> k a = Inr b)"
  by (cases r) simp_all

lemma st_bind_Ok [bind_iff]: "st_bind r k = (Inr b, s') \<longleftrightarrow> (\<exists>a s. r = (Inr a, s) \<and> k a s = (Inr b, s'))"
  by (cases r; cases "fst r") (auto simp: st_bind_def)

lemma map_err_Ok [bind_iff]: "map_err f r = Inr a \<longleftrightarrow> r = Inr a"
  by (cases r) (simp_all add: map_err_def)

lemma ok_or_Ok [bind_iff]: "ok_or x e = Inr a \<longleftrightarrow> x = Some a"
  by (cases x) (simp_all add: ok_or_def)

lemma map_err_simps [simp]:
  "map_err f (Inl e) = Inl (f e)" "map_err f (Inr a) = Inr a"
  by (simp_all add: map_err_def)

lemma ok_or_simps [simp]: "ok_or None e = Inl e" "ok_or (Some a) e = Inr a"
  by (simp_all add: ok_or_def)

lemma is_ok_simps [simp]: "\<not> is_ok (Inl e)" "is_ok (Inr a)"
  by (simp_all add: is_ok_def)

lemma is_ok_iff: "is_ok r \<longleftrightarrow> (\<exists>a. r = Inr a)"
  by (cases r) auto

section \<open>Lemmas on little-endian encodings\<close>

lemma length_u16_to_le_bytes [simp]: "length (u16_to_le_bytes w) = 2"
  by (simp add: u16_to_le_bytes_def)

lemma length_u32_to_le_bytes [simp]: "length (u32_to_le_bytes w) = 4"
  by (simp add: u32_to_le_bytes_def)

lemma u16_le_roundtrip [simp]:
  "u16_from_le_bytes (ucast w) (ucast (drop_bit 8 w)) = w"
proof (rule bit_word_eqI)
  fix n :: nat
  assume "n < LENGTH(16)"
  then show "bit (u16_from_le_bytes (ucast w) (ucast (drop_bit 8 w))) n = bit w n"
    by (auto simp: u16_from_le_bytes_def bit_simps)
qed

lemma u32_le_roundtrip [simp]:
  "u32_from_le_bytes (ucast w) (ucast (drop_bit 8 w)) (ucast (drop_bit 16 w))
     (ucast (drop_bit 24 w)) = w"
proof (rule bit_word_eqI)
  fix n :: nat
  assume "n < LENGTH(32)"
  then consider "n < 8" | "8 \<le> n" "n < 16" | "16 \<le> n" "n < 24" | "24 \<le> n" "n < 32"
    by force
  then show "bit (u32_from_le_bytes (ucast w) (ucast (drop_bit 8 w)) (ucast (drop_bit 16 w))
     (ucast (drop_bit 24 w))) n = bit w n"
    by cases (auto simp: u32_from_le_bytes_def bit_simps)
qed

end
