(* ===== verification/Errors.thy ===== *)
theory Errors
  imports Prelude
begin

text \<open>
  The error type of \<^verbatim>\<open>updater-core/src/error.rs\<close>. \<open>Error<E>\<close> has one variant that
  carries a transport error and eight that do not. For \<open>E = Infallible\<close> the first one
  has no values, so \<open>Error<Infallible>\<close>, the error of the codec and of the image
  layer, is exactly the type of the other eight.
\<close>

datatype core_error =
    BadFrame
  | Device u8
  | PayloadTooLarge usize
  | BufferTooSmall usize
  | ImageTooLarge usize usize
  | BadGeometry u16 u16
  | PageOutOfRange u16
  | ProtocolVersion u8

datatype 'e error =
    Transport 'e
  | Core core_error

text \<open>\<open>Error::widen\<close>: the transport-free error inside the wider type, variant by variant.\<close>

fun widen :: "core_error \<Rightarrow> 'e error" where
  "widen BadFrame = Core BadFrame"
| "widen (Device st) = Core (Device st)"
| "widen (PayloadTooLarge len) = Core (PayloadTooLarge len)"
| "widen (BufferTooSmall needed) = Core (BufferTooSmall needed)"
| "widen (ImageTooLarge len capacity) = Core (ImageTooLarge len capacity)"
| "widen (BadGeometry page_size app_pages) = Core (BadGeometry page_size app_pages)"
| "widen (PageOutOfRange index) = Core (PageOutOfRange index)"
| "widen (ProtocolVersion device) = Core (ProtocolVersion device)"

lemma widen_eq [simp]: "widen e = Core e"
  by (cases e) simp_all

end
