(* ===== verification/Frame.thy ===== *)
theory Frame
  imports Errors
begin

text \<open>
  The wire frame codec of \<^verbatim>\<open>updater-core/src/frame.rs\<close>: protocol constants, CRC-8,
  \<open>encode\<close>, \<open>decode\<close> and \<open>decode_padded\<close>, with their accept sets, the
  round trip, the buffer contract of \<open>encode\<close>, and the detection of every corruption
  that is confined to one byte.
\<close>

section \<open>Protocol constants\<close>

definition PROTO_VERSION :: u8 where "PROTO_VERSION = 1"

definition CMD_INFO :: u8 where "CMD_INFO = 0x01"

definition CMD_ERASE_APP :: u8 where "CMD_ERASE_APP = 0x02"

definition CMD_WRITE_PAGE :: u8 where "CMD_WRITE_PAGE = 0x03"

definition CMD_VERIFY :: u8 where "CMD_VERIFY = 0x04"

definition CMD_BOOT :: u8 where "CMD_BOOT = 0x05"

definition CMD_ECHO :: u8 where "CMD_ECHO = 0x06"

definition RSP_FLAG :: u8 where "RSP_FLAG = 0x80"

definition ST_OK :: u8 where "ST_OK = 0x00"

definition ST_BAD_FRAME :: u8 where "ST_BAD_FRAME = 0x01"

definition ST_BAD_CMD :: u8 where "ST_BAD_CMD = 0x02"

definition ST_NOT_ERASED :: u8 where "ST_NOT_ERASED = 0x03"

definition ST_OUT_OF_RANGE :: u8 where "ST_OUT_OF_RANGE = 0x04"

definition ST_BAD_CRC :: u8 where "ST_BAD_CRC = 0x05"

definition ST_BAD_MAGIC :: u8 where "ST_BAD_MAGIC = 0x06"

definition ST_NO_APP :: u8 where "ST_NO_APP = 0x07"

definition ECHO_MAX :: usize where "ECHO_MAX = 16"

definition FRAME_OVERHEAD :: usize where "FRAME_OVERHEAD = 3"

definition PAYLOAD_MAX :: usize where "PAYLOAD_MAX = 255 - FRAME_OVERHEAD"

definition ERASE_MAGIC :: bytes where "ERASE_MAGIC = [0x45, 0x52, 0x41, 0x53]"

definition st_name :: "u8 \<Rightarrow> string" where
  "st_name st =
     (if st = ST_OK then ''OK''
      else if st = ST_BAD_FRAME then ''BAD_FRAME: device saw a malformed frame''
      else if st = ST_BAD_CMD then ''BAD_CMD: unknown command''
      else if st = ST_NOT_ERASED then ''NOT_ERASED: write before erase''
      else if st = ST_OUT_OF_RANGE then ''OUT_OF_RANGE: page or length outside the app region''
      else if st = ST_BAD_CRC then ''BAD_CRC: image CRC mismatch''
      else if st = ST_BAD_MAGIC then ''BAD_MAGIC: missing or wrong erase magic''
      else if st = ST_NO_APP then ''NO_APP: no valid application present''
      else ''unknown status'')"

section \<open>Frames and CRC-8\<close>

record frame =
  cmd :: u8
  payload :: bytes

text \<open>One turn of the bit loop of \<open>crc8_step\<close>, the loop, and the step.\<close>

definition crc8_bit :: "u8 \<Rightarrow> u8" where
  "crc8_bit crc = (if crc AND 0x80 \<noteq> 0 then push_bit 1 crc XOR 0x07 else push_bit 1 crc)"

fun crc8_loop :: "nat \<Rightarrow> u8 \<Rightarrow> u8" where
  "crc8_loop 0 crc = crc"
| "crc8_loop (Suc k) crc = crc8_loop k (crc8_bit crc)"

definition crc8_step :: "u8 \<Rightarrow> u8 \<Rightarrow> u8" where
  "crc8_step crc byte = crc8_loop 8 (crc XOR byte)"

definition crc8 :: "bytes \<Rightarrow> u8" where
  "crc8 data = foldl crc8_step 0 data"

section \<open>Encoding and decoding\<close>

text \<open>
  \<open>encode\<close> returns its result next to the buffer it leaves. The three inner error
  arms are the source's: they keep the function total and are never taken.
\<close>

definition encode :: "u8 \<Rightarrow> bytes \<Rightarrow> bytes \<Rightarrow> (core_error + usize) \<times> bytes" where
  "encode c pl out =
     (let len = length pl in
      case u8_try_from len of
        None \<Rightarrow> (Err (PayloadTooLarge len), out)
      | Some len_byte \<Rightarrow>
          if len > PAYLOAD_MAX then (Err (PayloadTooLarge len), out)
          else
            let total = usize_wrapping_add len FRAME_OVERHEAD in
            case get_to out total of
              None \<Rightarrow> (Err (BufferTooSmall total), out)
            | Some fr \<Rightarrow>
                (case fr of
                   b_cmd # b_len # rest \<Rightarrow>
                     (case split_at_checked rest len of
                        None \<Rightarrow> (Err (BufferTooSmall total), put_at 0 [c, len_byte] out)
                      | Some (body, tail) \<Rightarrow>
                          let crc = foldl crc8_step (crc8_step (crc8_step 0 c) len_byte) pl in
                          (case tail of
                             [] \<Rightarrow> (Err (BufferTooSmall total), put_at 0 (c # len_byte # pl) out)
                           | _ # _ \<Rightarrow> (Ok total, put_at 0 (c # len_byte # pl @ [crc]) out)))
                 | _ \<Rightarrow> (Err (BufferTooSmall total), out)))"

definition decode :: "bytes \<Rightarrow> core_error + frame" where
  "decode raw =
     (case raw of
        c # len_byte # rest \<Rightarrow>
          if unat len_byte > PAYLOAD_MAX \<or> length rest \<noteq> usize_wrapping_add (unat len_byte) 1
          then Err BadFrame
          else
            (case split_last rest of
               None \<Rightarrow> Err BadFrame
             | Some (crc_wire, pl) \<Rightarrow>
                 let crc = foldl crc8_step (crc8_step (crc8_step 0 c) len_byte) pl in
                 if crc \<noteq> crc_wire then Err BadFrame
                 else Ok \<lparr>cmd = c, payload = pl\<rparr>)
      | _ \<Rightarrow> Err BadFrame)"

definition decode_padded :: "bytes \<Rightarrow> core_error + frame" where
  "decode_padded raw =
     (case get_at raw 1 of
        None \<Rightarrow> Err BadFrame
      | Some len_byte \<Rightarrow>
          let total = usize_wrapping_add (unat len_byte) FRAME_OVERHEAD in
          case get_to raw total of
            None \<Rightarrow> Err BadFrame
          | Some frame_bytes \<Rightarrow>
              let filler_ok =
                (case get_from raw total of
                   None \<Rightarrow> False
                 | Some tail \<Rightarrow> list_all (\<lambda>b. b = 0xFF) tail) in
              if \<not> filler_ok then Err BadFrame else decode frame_bytes)"

text \<open>The byte sequence of a frame: what a specification of the wire would write down.\<close>

definition wire :: "u8 \<Rightarrow> bytes \<Rightarrow> bytes" where
  "wire c pl = (let h = c # word_of_nat (length pl) # pl in h @ [crc8 h])"

section \<open>Injectivity of a CRC step, and what it detects\<close>

text \<open>
  A CRC register is stepped once per byte. Where the step is injective in the register
  and in the byte, two inputs of one length that differ in exactly one byte leave
  different registers, from every start value.
\<close>

locale crc_register =
  fixes step :: "'s \<Rightarrow> u8 \<Rightarrow> 's"
  assumes step_inj_state: "step s b = step t b \<Longrightarrow> s = t"
    and step_inj_byte: "step s b = step s c \<Longrightarrow> b = c"
begin

lemma fold_inj_state: "foldl step s xs = foldl step t xs \<Longrightarrow> s = t"
  by (induction xs arbitrary: s t) (auto dest: step_inj_state)

lemma fold_one_byte:
  assumes "i < length xs" and "b \<noteq> xs ! i"
  shows "foldl step s (xs[i := b]) \<noteq> foldl step s xs"
proof
  assume eq: "foldl step s (xs[i := b]) = foldl step s xs"
  define r where "r = foldl step s (take i xs)"
  have "xs = take i xs @ xs ! i # drop (Suc i) xs"
    using assms(1) by (rule id_take_nth_drop)
  then have "foldl step s xs = foldl step (step r (xs ! i)) (drop (Suc i) xs)"
    unfolding r_def by (metis foldl_Cons foldl_append)
  moreover have "foldl step s (xs[i := b]) = foldl step (step r b) (drop (Suc i) xs)"
    using assms(1) by (simp add: r_def upd_conv_take_nth_drop)
  ultimately have "step r b = step r (xs ! i)"
    using eq by (metis fold_inj_state)
  with assms(2) show False
    by (auto dest: step_inj_byte)
qed

end

lemma bit_crc8_bit:
  assumes "n < 8"
  shows "bit (crc8_bit c) n \<longleftrightarrow> (0 < n \<and> bit c (n - 1)) \<noteq> (bit c 7 \<and> n < 3)"
proof -
  have "c AND 0x80 = 0 \<longleftrightarrow> \<not> bit c 7"
    using and_exp_eq_0_iff_not_bit [of c 7] by simp
  moreover have "bit (mask 3 :: u8) n \<longleftrightarrow> n < 3"
    using assms by (auto simp only: bit_mask_iff) simp
  then have "bit (7 :: u8) n \<longleftrightarrow> n < 3"
    by (simp add: mask_eq_exp_minus_1)
  ultimately show ?thesis
    using assms by (auto simp: crc8_bit_def bit_simps bit_double_iff mult.commute [of c 2])
qed

lemma crc8_bit_inj: "crc8_bit c = crc8_bit d \<Longrightarrow> c = d"
proof -
  assume eq: "crc8_bit c = crc8_bit d"
  have at: "((0 < n \<and> bit c (n - 1)) \<noteq> (bit c 7 \<and> n < 3)) = ((0 < n \<and> bit d (n - 1)) \<noteq> (bit d 7 \<and> n < 3))"
    if "n < 8" for n
    using that eq bit_crc8_bit by metis
  have top: "bit c 7 = bit d 7"
    using at [of 0] by simp
  show "c = d"
  proof (rule bit_word_eqI)
    fix n :: nat
    assume "n < LENGTH(8)"
    then show "bit c n = bit d n"
      using at [of "Suc n"] top by (cases "n = 7") auto
  qed
qed

lemma crc8_loop_inj: "crc8_loop k c = crc8_loop k d \<Longrightarrow> c = d"
  by (induction k arbitrary: c d) (auto dest: crc8_bit_inj)

interpretation crc8_reg: crc_register crc8_step
proof unfold_locales
  fix s t b c :: u8
  show "crc8_step s b = crc8_step t b \<Longrightarrow> s = t"
    unfolding crc8_step_def by (blast dest: crc8_loop_inj xor_right_cancel)
  show "crc8_step s b = crc8_step s c \<Longrightarrow> b = c"
    unfolding crc8_step_def by (blast dest: crc8_loop_inj xor_left_cancel)
qed

section \<open>The codec as a specification\<close>

lemma PAYLOAD_MAX_eq [simp]: "PAYLOAD_MAX = 252"
  by (simp add: PAYLOAD_MAX_def FRAME_OVERHEAD_def)

lemma length_wire [simp]: "length (wire c pl) = length pl + 3"
  by (simp add: wire_def Let_def)

lemma wire_crc: "wire c pl = c # word_of_nat (length pl) # pl
    @ [foldl crc8_step (crc8_step (crc8_step 0 c) (word_of_nat (length pl))) pl]"
  by (simp add: wire_def crc8_def)

lemma encode_spec:
  "encode c pl out =
     (if 252 < length pl then (Err (PayloadTooLarge (length pl)), out)
      else if length out < length pl + 3 then (Err (BufferTooSmall (length pl + 3)), out)
      else (Ok (length pl + 3), wire c pl @ drop (length pl + 3) out))"
proof (cases "252 < length pl")
  case True
  then show ?thesis
    by (cases "length pl < 256") (simp_all add: encode_def)
next
  case len: False
  then have total: "usize_wrapping_add (length pl) FRAME_OVERHEAD = length pl + 3"
    by (simp add: FRAME_OVERHEAD_def usize_simps)
  show ?thesis
  proof (cases "length out < length pl + 3")
    case True
    with len total show ?thesis
      by (simp add: encode_def get_to_def)
  next
    case False
    then obtain b0 b1 r where "out = b0 # b1 # r" and "Suc (length pl) \<le> length r"
      by (cases out; cases "tl out") auto
    with len total False show ?thesis
      by (cases "drop (length pl) r")
        (simp_all add: encode_def get_to_def split_at_checked_def put_at_def wire_crc
          numeral_3_eq_3 drop_take min_def Suc_le_eq Let_def)
  qed
qed

lemma decode_Err [simp]: "decode raw = Err e \<Longrightarrow> e = BadFrame"
  by (auto simp: decode_def Let_def split: list.splits option.splits if_splits)

lemma decode_iff:
  "decode raw = Ok f \<longleftrightarrow> length (payload f) \<le> 252 \<and> raw = wire (cmd f) (payload f)"
proof
  assume dec: "decode raw = Ok f"
  then obtain c l rest where raw: "raw = c # l # rest"
    by (auto simp: decode_def split: list.splits)
  with dec have len: "unat l \<le> 252" "length rest = Suc (unat l)"
    by (auto simp: decode_def usize_simps split: if_splits)
  then have "rest = butlast rest @ [last rest]" and "l = word_of_nat (length (butlast rest))"
    by (auto intro!: append_butlast_last_id [symmetric])
  moreover from dec raw len have "f = \<lparr>cmd = c, payload = butlast rest\<rparr>"
    and "foldl crc8_step (crc8_step (crc8_step 0 c) l) (butlast rest) = last rest"
    by (auto simp: decode_def split_last_def Let_def split: list.splits if_splits)
  ultimately show "length (payload f) \<le> 252 \<and> raw = wire (cmd f) (payload f)"
    using raw len by (simp add: wire_crc)
next
  assume "length (payload f) \<le> 252 \<and> raw = wire (cmd f) (payload f)"
  then show "decode raw = Ok f"
    by (cases f) (simp add: decode_def wire_crc usize_simps Let_def)
qed

lemma decode_wire [simp]: "length pl \<le> 252 \<Longrightarrow> decode (wire c pl) = Ok \<lparr>cmd = c, payload = pl\<rparr>"
  by (simp add: decode_iff)

lemma decode_error: "\<not> is_ok (decode raw) \<Longrightarrow> decode raw = Err BadFrame"
  by (cases "decode raw") auto

lemma decode_padded_iff:
  "decode_padded raw = Ok f \<longleftrightarrow>
     (\<exists>k. length (payload f) \<le> 252 \<and> raw = wire (cmd f) (payload f) @ replicate k 0xFF)"
proof
  assume dec: "decode_padded raw = Ok f"
  then obtain n where n: "n \<le> length raw" "decode (take n raw) = Ok f" "list_all (\<lambda>b. b = 0xFF) (drop n raw)"
    by (auto simp: decode_padded_def slice_simps Let_def split: if_splits)
  then have "drop n raw = replicate (length raw - n) 0xFF"
    by (auto simp: list_all_iff intro!: replicate_eqI)
  with n(2) show "\<exists>k. length (payload f) \<le> 252 \<and> raw = wire (cmd f) (payload f) @ replicate k 0xFF"
    by (metis append_take_drop_id decode_iff)
next
  assume "\<exists>k. length (payload f) \<le> 252 \<and> raw = wire (cmd f) (payload f) @ replicate k 0xFF"
  then obtain k where *: "length (payload f) \<le> 252" "raw = wire (cmd f) (payload f) @ replicate k 0xFF"
    by blast
  then have "get_at raw 1 = Some (word_of_nat (length (payload f)))"
    by (simp add: get_at_def nth_append wire_crc)
  with * show "decode_padded raw = Ok f"
    by (simp add: decode_padded_def usize_simps FRAME_OVERHEAD_def get_to_def get_from_def list_all_iff)
qed

lemma decode_padded_wire [simp]:
  "length pl \<le> 252 \<Longrightarrow> decode_padded (wire c pl @ replicate k 0xFF) = Ok \<lparr>cmd = c, payload = pl\<rparr>"
  by (subst decode_padded_iff) auto

lemma decode_padded_wire0 [simp]:
  "length pl \<le> 252 \<Longrightarrow> decode_padded (wire c pl) = Ok \<lparr>cmd = c, payload = pl\<rparr>"
  using decode_padded_wire [of pl c 0] by simp

lemma decode_padded_filler: "\<not> is_ok (decode_padded (replicate n 0xFF))"
proof
  assume "is_ok (decode_padded (replicate n (0xFF :: u8)))"
  then obtain f where "decode_padded (replicate n 0xFF) = Ok f"
    by (auto simp: is_ok_iff)
  then obtain k where f: "length (payload f) \<le> 252" "replicate n 0xFF = wire (cmd f) (payload f) @ replicate k 0xFF"
    unfolding decode_padded_iff by blast
  then have "(word_of_nat (length (payload f)) :: u8) = 0xFF"
    by (cases n; cases "n - 1") (auto simp: wire_crc)
  then have "length (payload f) = 255"
    using f(1) by (simp add: word_unat_eq_iff)
  with f(1) show False by simp
qed

lemma decode_padded_Err: "decode_padded raw = Err e \<Longrightarrow> e = BadFrame"
  by (auto simp: decode_padded_def slice_simps Let_def split: if_splits)

lemma wire_inj:
  "wire c pl = wire d ql \<Longrightarrow> c = d \<and> pl = ql"
  by (auto simp: wire_crc)

lemma decode_one_byte:
  assumes dec: "decode raw = Ok f" and i: "i < length raw" and b: "b \<noteq> raw ! i"
  shows "\<not> is_ok (decode (raw[i := b]))"
proof
  assume "is_ok (decode (raw[i := b]))"
  then obtain g :: frame where g: "length (payload g) \<le> 252" "raw[i := b] = wire (cmd g) (payload g)"
    unfolding is_ok_iff decode_iff by blast
  define h where "h = cmd f # word_of_nat (length (payload f)) # payload f"
  define h' where "h' = cmd g # word_of_nat (length (payload g)) # payload g"
  have raw: "raw = h @ [crc8 h]" and raw': "raw[i := b] = h' @ [crc8 h']"
    using dec g by (simp_all add: decode_iff wire_def h_def h'_def)
  then have len: "length h = length h'"
    by (metis length_append_singleton length_list_update nat.inject)
  show False
  proof (cases "i < length h")
    case True
    with raw raw' len have "h' = h[i := b]" and crc: "crc8 h' = crc8 h"
      by (auto simp: list_update_append)
    with b raw True have "crc8 h' \<noteq> crc8 h"
      using crc8_reg.fold_one_byte [of i h b 0] by (simp add: crc8_def nth_append)
    with crc show False by simp
  next
    case False
    with i raw have "i = length h" by simp
    with raw raw' len have "h' = h" and "b = crc8 h'"
      by (auto simp: list_update_append)
    with b raw \<open>i = length h\<close> show False by simp
  qed
qed

section \<open>Properties\<close>

text \<open>
  C30: encoding and decoding are inverse. For every command and every payload of at most
  252 bytes, \<open>encode\<close> into a buffer with room for the frame succeeds with the frame
  length, leaves every byte behind the frame untouched, and the bytes it wrote decode to
  the same command and payload, with any amount of \<open>0xFF\<close> filler behind them too.
\<close>

theorem frame_roundtrip:
  assumes "length pl \<le> 252" and "length pl + 3 \<le> length out"
  shows "\<exists>out'. encode c pl out = (Ok (length pl + 3), out')
     \<and> drop (length pl + 3) out' = drop (length pl + 3) out
     \<and> decode (take (length pl + 3) out') = Ok \<lparr>cmd = c, payload = pl\<rparr>
     \<and> decode_padded (take (length pl + 3) out' @ replicate k 0xFF) = Ok \<lparr>cmd = c, payload = pl\<rparr>"
  using assms by (simp add: encode_spec)

theorem frame_roundtrip_witness:
  "\<exists>out'. encode 6 [0xAA, 0xBB] [0, 0, 0, 0, 0, 7] = (Ok 5, out')
     \<and> drop 5 out' = [7]
     \<and> decode (take 5 out') = Ok \<lparr>cmd = 6, payload = [0xAA, 0xBB]\<rparr>
     \<and> decode_padded (take 5 out' @ replicate 3 0xFF) = Ok \<lparr>cmd = 6, payload = [0xAA, 0xBB]\<rparr>"
  using frame_roundtrip [of "[0xAA, 0xBB]" "[0, 0, 0, 0, 0, 7]" 6 3] by simp

text \<open>
  The buffer contract of \<open>encode\<close>. It fails exactly when the payload exceeds
  252 bytes or the buffer is shorter than the frame, with the length it would need, and
  then leaves the whole buffer untouched; otherwise it writes exactly the frame in front
  of the buffer and nothing behind it.
\<close>

lemma encode_contract:
  "case encode c pl out of
     (Err e, out') \<Rightarrow> out' = out \<and>
       (if 252 < length pl then e = PayloadTooLarge (length pl)
        else length out < length pl + 3 \<and> e = BufferTooSmall (length pl + 3))
   | (Ok n, out') \<Rightarrow> length pl \<le> 252 \<and> n = length pl + 3 \<and> n \<le> length out \<and>
       out' = wire c pl @ drop n out \<and> length out' = length out"
  by (simp add: encode_spec)

text \<open>
  The accept set of \<open>decode_padded\<close> is the documented one: exactly the inputs
  \<open>f ++ 0xFF^k\<close> where \<open>decode\<close> accepts \<open>f\<close>, with the same frame as result; a
  rejected input always yields \<open>BadFrame\<close>.
\<close>

lemma decode_padded_accept_set:
  "(decode_padded raw = Ok f \<longleftrightarrow> (\<exists>g k. raw = g @ replicate k 0xFF \<and> decode g = Ok f)) \<and>
   (is_ok (decode_padded raw) \<or> decode_padded raw = Err BadFrame)"
  by (cases "decode_padded raw")
    (auto simp: decode_padded_iff decode_iff dest: decode_padded_Err)

text \<open>
  C31: the CRC-8 of the frame detects every corruption confined to one byte. Whatever
  byte of a valid frame is replaced by a different value, \<open>decode\<close> rejects the result.
\<close>

theorem decode_detects_one_byte:
  assumes "decode raw = Ok f" and "i < length raw" and "b \<noteq> raw ! i"
  shows "decode (raw[i := b]) = Err BadFrame"
  using decode_one_byte [OF assms] by (rule decode_error)

theorem decode_detects_one_byte_witness:
  "decode ((wire 6 [0xAA, 0xBB])[2 := 0xAB]) = Err BadFrame"
proof -
  have "decode (wire 6 [0xAA, 0xBB]) = Ok \<lparr>cmd = 6, payload = [0xAA, 0xBB]\<rparr>"
    by simp
  then show ?thesis
    by (rule decode_detects_one_byte) (simp_all add: wire_crc)
qed

end
