(* ===== verification/Image.thy ===== *)
theory Image
  imports Frame
begin

text \<open>
  Borrowed images, \<^verbatim>\<open>updater-core/src/image.rs\<close>: CRC-32, construction with its
  geometry checks, the footer, rendering of a page, the iterator over the pages an update
  must write. The specification is \<open>region_image\<close>, the contents the whole app region
  has after an update; every page the source renders is a window of it, and writing just
  the yielded pages onto erased flash produces it.
\<close>

section \<open>CRC-32\<close>

definition crc32_bit :: "u32 \<Rightarrow> u32" where
  "crc32_bit crc = (if crc AND 1 \<noteq> 0 then drop_bit 1 crc XOR 0xEDB88320 else drop_bit 1 crc)"

fun crc32_loop :: "nat \<Rightarrow> u32 \<Rightarrow> u32" where
  "crc32_loop 0 crc = crc"
| "crc32_loop (Suc k) crc = crc32_loop k (crc32_bit crc)"

definition crc32_step :: "u32 \<Rightarrow> u8 \<Rightarrow> u32" where
  "crc32_step crc byte = crc32_loop 8 (crc XOR ucast byte)"

definition crc32 :: "bytes \<Rightarrow> u32" where
  "crc32 data = foldl crc32_step 0xFFFFFFFF data XOR 0xFFFFFFFF"

section \<open>Images\<close>

definition FOOTER_LEN :: usize where "FOOTER_LEN = 16"

definition FOOTER_MAGIC :: bytes where "FOOTER_MAGIC = [0x4F, 0x54, 0x41, 0x55]"

definition PAGE_SIZE_MAX :: usize where "PAGE_SIZE_MAX = PAYLOAD_MAX - 2"

record image =
  img_data :: bytes
  img_page_size :: u16
  img_app_pages :: u16
  img_len :: u32
  img_crc :: u32

definition from_bin :: "bytes \<Rightarrow> u16 \<Rightarrow> u16 \<Rightarrow> core_error + image" where
  "from_bin bs page_size app_pages =
     (let bad_geometry = BadGeometry page_size app_pages; ps = unat page_size in
      if app_pages = 0 \<or> \<not> (FOOTER_LEN \<le> ps \<and> ps \<le> PAGE_SIZE_MAX) then Err bad_geometry
      else
        try_bind (ok_or (usize_checked_mul ps (unat app_pages)) bad_geometry) (\<lambda>region.
        try_bind (ok_or (usize_checked_sub region FOOTER_LEN) bad_geometry) (\<lambda>capacity.
          if length bs > capacity then Err (ImageTooLarge (length bs) capacity)
          else
            try_bind (ok_or (u32_try_from (length bs)) (ImageTooLarge (length bs) capacity)) (\<lambda>len.
              Ok \<lparr>img_data = bs, img_page_size = page_size, img_app_pages = app_pages,
                   img_len = len, img_crc = crc32 bs\<rparr>))))"

definition footer_page_index :: "image \<Rightarrow> u16" where
  "footer_page_index img = img_app_pages img - 1"

definition footer :: "image \<Rightarrow> bytes" where
  "footer img = FOOTER_MAGIC @ u32_to_le_bytes (img_len img) @ u32_to_le_bytes (img_crc img)
     @ [0xFF, 0xFF, 0xFF, 0xFF]"

text \<open>
  \<open>for (dst, src) in d.iter_mut().zip(s)\<close> with the body \<open>*dst = src\<close>: it stops at
  the shorter of the two.
\<close>

fun zip_assign :: "'a list \<Rightarrow> 'a list \<Rightarrow> 'a list" where
  "zip_assign (d # ds) (s # ss) = s # zip_assign ds ss"
| "zip_assign ds [] = ds"
| "zip_assign [] ss = []"

text \<open>
  The rendering loops of \<open>page_into\<close> on the window \<open>page\<close>. The source chains the
  payload tail with an endless repetition of \<open>0xFF\<close>; the zip with the page takes no
  more of it than the page holds.
\<close>

definition render_page :: "image \<Rightarrow> u16 \<Rightarrow> bytes \<Rightarrow> bytes" where
  "render_page img index page =
     (let ps = unat (img_page_size img);
          start = usize_wrapping_mul (unat index) ps;
          payload_tail = (case get_from (img_data img) start of None \<Rightarrow> [] | Some t \<Rightarrow> t);
          padded = payload_tail @ replicate (length page) 0xFF;
          page1 = zip_assign page padded
      in if index = footer_page_index img then
           let offset = usize_wrapping_sub ps FOOTER_LEN in
           take offset page1 @ zip_assign (drop offset page1) (footer img)
         else page1)"

definition page_into :: "image \<Rightarrow> u16 \<Rightarrow> bytes \<Rightarrow> (core_error + unit) \<times> bytes" where
  "page_into img index out =
     (if index \<ge> img_app_pages img then (Err (PageOutOfRange index), out)
      else
        let ps = unat (img_page_size img) in
        case get_to out ps of
          None \<Rightarrow> (Err (BufferTooSmall ps), out)
        | Some page \<Rightarrow> (Ok (), put_at 0 (render_page img index page) out))"

definition must_write :: "image \<Rightarrow> u16 \<Rightarrow> bool" where
  "must_write img index =
     (if index = footer_page_index img then True
      else
        let ps = unat (img_page_size img);
            start = usize_wrapping_mul (unat index) ps;
            end' = min (usize_wrapping_add start ps) (length (img_data img))
        in case get_range (img_data img) start end' of
             None \<Rightarrow> False
           | Some window \<Rightarrow> list_ex (\<lambda>b. b \<noteq> 0xFF) window)"

section \<open>The page iterator\<close>

record pages =
  pg_img :: image
  pg_cursor :: u32

definition pages :: "image \<Rightarrow> pages" where
  "pages img = \<lparr>pg_img = img, pg_cursor = 0\<rparr>"

lemma cursor_step:
  assumes "cursor < (ucast (n :: u16) :: u32)"
  shows "unat (cursor + 1) = Suc (unat cursor)" and "unat cursor < unat n"
proof -
  have "unat cursor < unat (ucast n :: u32)"
    using assms by (simp add: word_less_nat_alt)
  then show *: "unat cursor < unat n"
    by simp
  then have "unat cursor + 1 < 2 ^ LENGTH(32)"
    using unat_u16_lt [of n] by (simp; linarith)
  then show "unat (cursor + 1) = Suc (unat cursor)"
    by (metis Suc_eq_plus1 One_nat_def unat_1 unat_add_lem)
qed

text \<open>\<open>Iterator::next\<close>: the loop over the cursor, then the iterator it leaves.\<close>

function pages_scan :: "image \<Rightarrow> u32 \<Rightarrow> u16 option \<times> u32" where
  "pages_scan img cursor =
     (if cursor < ucast (img_app_pages img) then
        (case u16_try_from (unat cursor) of
           None \<Rightarrow> (None, cursor)
         | Some index \<Rightarrow>
             if must_write img index then (Some index, cursor + 1)
             else pages_scan img (cursor + 1))
      else (None, cursor))"
  by pat_completeness auto
termination
  by (relation "measure (\<lambda>(img, cursor). unat (img_app_pages img) - unat cursor)")
    (auto simp: cursor_step intro: diff_less_mono2)

definition pages_next :: "pages \<Rightarrow> u16 option \<times> pages" where
  "pages_next it =
     (let (r, cursor) = pages_scan (pg_img it) (pg_cursor it) in (r, it\<lparr>pg_cursor := cursor\<rparr>))"

definition pages_size_hint :: "pages \<Rightarrow> usize \<times> usize option" where
  "pages_size_hint it =
     (let ap = (ucast (img_app_pages (pg_img it)) :: u32);
          remaining = (if pg_cursor it \<le> ap then ap - pg_cursor it else 0)
      in (if remaining > 0 then 1 else 0, Some (unat remaining)))"

declare pages_scan.simps [simp del]

lemma pages_scan_None:
  "pages_scan img c = (None, c') \<Longrightarrow> unat c \<le> k \<Longrightarrow> k < unat (img_app_pages img) \<Longrightarrow>
     \<not> must_write img (word_of_nat k)"
proof (induction img c rule: pages_scan.induct)
  case (1 img c)
  show ?case
  proof (cases "c < ucast (img_app_pages img)")
    case True
    then have c: "unat c < unat (img_app_pages img)" "unat (c + 1) = Suc (unat c)"
      by (auto dest: cursor_step)
    then have "unat c < 65536"
      using unat_u16_lt [of "img_app_pages img"] by linarith
    with True "1.prems" c show ?thesis
      using "1.IH" by (cases "k = unat c") (auto simp: pages_scan.simps [of img c] split: if_splits)
  next
    case False
    with "1.prems" show ?thesis
      by (simp add: word_less_nat_alt)
  qed
qed

lemma pages_scan_Some:
  "pages_scan img c = (Some i, c') \<Longrightarrow>
     unat c \<le> unat i \<and> unat i < unat (img_app_pages img) \<and> must_write img i \<and>
     unat c' = Suc (unat i) \<and> (\<forall>k. unat c \<le> k \<longrightarrow> k < unat i \<longrightarrow> \<not> must_write img (word_of_nat k))"
proof (induction img c rule: pages_scan.induct)
  case (1 img c)
  then have True: "c < ucast (img_app_pages img)"
    by (auto simp: pages_scan.simps [of img c] split: if_splits)
  then have c: "unat c < unat (img_app_pages img)" "unat (c + 1) = Suc (unat c)"
    by (auto dest: cursor_step)
  then have small: "unat c < 65536"
    using unat_u16_lt [of "img_app_pages img"] by linarith
  show ?case
  proof (cases "must_write img (word_of_nat (unat c))")
    case mw: True
    with "1.prems" True c small show ?thesis
      by (auto simp: pages_scan.simps [of img c])
  next
    case mw: False
    with "1.prems" True small have "pages_scan img (c + 1) = (Some i, c')"
      by (simp add: pages_scan.simps [of img c])
    with "1.IH" [OF True _ mw] small c have *: "Suc (unat c) \<le> unat i"
      "unat i < unat (img_app_pages img)" "must_write img i" "unat c' = Suc (unat i)"
      "\<And>k. Suc (unat c) \<le> k \<Longrightarrow> k < unat i \<Longrightarrow> \<not> must_write img (word_of_nat k)"
      by auto
    have "\<not> must_write img (word_of_nat k)" if "unat c \<le> k" "k < unat i" for k
      using that mw *(5) [of k] by (cases "k = unat c") auto
    with * show ?thesis by auto
  qed
qed

text \<open>The items a \<open>for index in it\<close> loop sees.\<close>

function pages_list :: "pages \<Rightarrow> u16 list" where
  "pages_list it =
     (case pages_next it of (None, _) \<Rightarrow> [] | (Some i, it') \<Rightarrow> i # pages_list it')"
  by pat_completeness auto
termination
  by (relation "measure (\<lambda>it. unat (img_app_pages (pg_img it)) - unat (pg_cursor it))")
    (auto simp: pages_next_def split: prod.splits dest!: pages_scan_Some [OF sym] pages_scan_Some)

declare pages_list.simps [simp del]

section \<open>The region an image stands for\<close>

definition img_ps :: "image \<Rightarrow> nat" where
  "img_ps img = unat (img_page_size img)"

definition img_ap :: "image \<Rightarrow> nat" where
  "img_ap img = unat (img_app_pages img)"

text \<open>What construction guarantees of an image.\<close>

definition valid_image :: "image \<Rightarrow> bool" where
  "valid_image img \<longleftrightarrow>
     16 \<le> img_ps img \<and> img_ps img \<le> 250 \<and> 1 \<le> img_ap img \<and>
     length (img_data img) + 16 \<le> img_ps img * img_ap img \<and>
     img_len img = word_of_nat (length (img_data img)) \<and>
     img_crc img = crc32 (img_data img)"

definition region_image :: "image \<Rightarrow> bytes" where
  "region_image img =
     img_data img @ replicate (img_ps img * img_ap img - 16 - length (img_data img)) 0xFF @ footer img"

definition page_image :: "image \<Rightarrow> nat \<Rightarrow> bytes" where
  "page_image img i = take (img_ps img) (drop (i * img_ps img) (region_image img))"

lemma PAGE_SIZE_MAX_eq [simp]: "PAGE_SIZE_MAX = 250"
  by (simp add: PAGE_SIZE_MAX_def)

lemma length_footer [simp]: "length (footer img) = 16"
  by (simp add: footer_def FOOTER_MAGIC_def)

lemma geometry_bound:
  assumes "p \<le> 250" shows "p * unat (n :: u16) < 4294967296"
proof -
  have "p * unat n \<le> 250 * 65535"
    using assms unat_u16_lt [of n] by (intro mult_mono) auto
  then show ?thesis by linarith
qed

lemma region_ge:
  assumes "n \<noteq> (0 :: u16)" and "16 \<le> p"
  shows "16 \<le> p * unat n" and "1 \<le> unat n"
proof -
  show "1 \<le> unat n"
    using assms(1) by (simp add: Suc_le_eq unat_gt_0)
  then show "16 \<le> p * unat n"
    using mult_le_mono [OF assms(2)] by fastforce
qed

lemma from_bin_spec:
  "from_bin bs page_size app_pages =
     (if app_pages = 0 \<or> unat page_size < 16 \<or> 250 < unat page_size
      then Err (BadGeometry page_size app_pages)
      else if unat page_size * unat app_pages - 16 < length bs
      then Err (ImageTooLarge (length bs) (unat page_size * unat app_pages - 16))
      else Ok \<lparr>img_data = bs, img_page_size = page_size, img_app_pages = app_pages,
        img_len = word_of_nat (length bs), img_crc = crc32 bs\<rparr>)"
proof (cases "app_pages = 0 \<or> unat page_size < 16 \<or> 250 < unat page_size")
  case True
  then show ?thesis
    by (auto simp: from_bin_def FOOTER_LEN_def)
next
  case False
  then have "unat page_size * unat app_pages < 4294967296"
    by (auto intro: geometry_bound)
  moreover from False have "16 \<le> unat page_size * unat app_pages"
    by (intro region_ge) auto
  ultimately show ?thesis
    using False by (simp add: from_bin_def FOOTER_LEN_def usize_simps Let_def not_less)
qed

lemma from_bin_valid:
  "from_bin bs page_size app_pages = Ok img \<Longrightarrow>
     valid_image img \<and> img_data img = bs \<and> img_page_size img = page_size \<and> img_app_pages img = app_pages"
proof -
  assume ok: "from_bin bs page_size app_pages = Ok img"
  then have "app_pages \<noteq> 0" "16 \<le> unat page_size"
    by (auto simp: from_bin_spec split: if_splits)
  note region_ge [OF this]
  with ok show ?thesis
    by (auto simp: from_bin_spec valid_image_def img_ps_def img_ap_def split: if_splits)
qed

lemma length_region_image [simp]:
  "valid_image img \<Longrightarrow> length (region_image img) = img_ps img * img_ap img"
  by (simp add: region_image_def valid_image_def)

lemma nth_region_image:
  assumes "valid_image img" and "k < img_ps img * img_ap img"
  shows "region_image img ! k =
     (if k < length (img_data img) then img_data img ! k
      else if k < img_ps img * img_ap img - 16 then 0xFF
      else footer img ! (k - (img_ps img * img_ap img - 16)))"
  using assms by (auto simp: region_image_def valid_image_def nth_append)

lemma zip_assign_eq: "zip_assign d s = take (length d) s @ drop (length s) d"
  by (induction d s rule: zip_assign.induct) auto

lemma page_bound:
  assumes "i < (n :: nat)"
  shows "i * p + p \<le> p * n"
  using mult_le_mono2 [OF Suc_leI [OF assms], of p] by (simp add: algebra_simps)

lemma length_page_image [simp]:
  "valid_image img \<Longrightarrow> i < img_ap img \<Longrightarrow> length (page_image img i) = img_ps img"
  using page_bound [of i "img_ap img" "img_ps img"] by (simp add: page_image_def)

lemma nth_page_image:
  assumes "valid_image img" and "i < img_ap img" and "j < img_ps img"
  shows "page_image img i ! j = region_image img ! (i * img_ps img + j)"
  using assms page_bound [of i "img_ap img" "img_ps img"] by (simp add: page_image_def)

lemma image_bound: "valid_image img \<Longrightarrow> i < img_ap img \<Longrightarrow> i * img_ps img + img_ps img < 4294967296"
  using page_bound [of i "img_ap img" "img_ps img"] geometry_bound [of "img_ps img" "img_app_pages img"]
  by (simp add: valid_image_def img_ap_def)

lemma footer_page_iff:
  assumes "valid_image img" and "unat index < img_ap img"
  shows "index = footer_page_index img \<longleftrightarrow> Suc (unat index) = img_ap img"
proof -
  have "img_app_pages img \<noteq> 0"
    using assms by (auto simp: valid_image_def img_ap_def)
  then have "unat (footer_page_index img) = img_ap img - 1"
    by (simp add: footer_page_index_def img_ap_def unat_minus_one)
  with assms(2) show ?thesis
    by (simp add: word_unat_eq_iff; linarith)
qed

lemma padded_page:
  assumes v: "valid_image img" and i: "i < img_ap img" and j: "j < img_ps img"
    and pre: "i * img_ps img + j < img_ps img * img_ap img - 16"
  shows "take (img_ps img) (drop (i * img_ps img) (img_data img) @ replicate (img_ps img) 0xFF) ! j
     = region_image img ! (i * img_ps img + j)"
  using j pre v by (auto simp: nth_region_image nth_append)

lemma render_page_eq:
  assumes v: "valid_image img" and i: "unat index < img_ap img" and d: "length page = img_ps img"
  shows "render_page img index page = page_image img (unat index)"
proof -
  let ?ps = "img_ps img" and ?ap = "img_ap img"
  define page1 where "page1 = take ?ps (drop (unat index * ?ps) (img_data img) @ replicate ?ps 0xFF)"
  have start: "usize_wrapping_mul (unat index) ?ps = unat index * ?ps"
    using image_bound [OF v i] by (intro usize_wrapping_mul_small) simp
  have off: "usize_wrapping_sub ?ps FOOTER_LEN = ?ps - 16"
    using v by (simp add: FOOTER_LEN_def usize_simps valid_image_def)
  have tail: "(case get_from (img_data img) n of None \<Rightarrow> [] | Some t \<Rightarrow> t) = drop n (img_data img)" for n
    by (simp add: get_from_def)
  have len1: "length page1 = ?ps" and ps: "16 \<le> ?ps"
    using v by (simp_all add: page1_def valid_image_def)
  have render: "render_page img index page =
      (if Suc (unat index) = ?ap then take (?ps - 16) page1 @ footer img else page1)"
    unfolding render_page_def img_ps_def [symmetric] Let_def start off tail footer_page_iff [OF v i]
    using d ps by (simp add: zip_assign_eq page1_def)
  have p1: "page1 ! j = region_image img ! (unat index * ?ps + j)"
    if "j < ?ps" "unat index * ?ps + j < ?ps * ?ap - 16" for j
    unfolding page1_def using v i that by (rule padded_page)
  show ?thesis
  proof (rule nth_equalityI)
    show "length (render_page img index page) = length (page_image img (unat index))"
      using render len1 ps v i by simp
  next
    fix j
    assume "j < length (render_page img index page)"
    then have j: "j < ?ps"
      using render len1 ps by (simp split: if_splits)
    show "render_page img index page ! j = page_image img (unat index) ! j"
    proof (cases "Suc (unat index) = ?ap")
      case True
      then have base: "?ps * ?ap = unat index * ?ps + ?ps"
        by (metis add.commute mult.commute mult_Suc)
      show ?thesis
      proof (cases "j < ?ps - 16")
        case before: True
        then show ?thesis
          using True render len1 p1 [OF j] base v i j by (simp add: nth_append nth_page_image)
      next
        case False
        moreover have "length (img_data img) \<le> unat index * ?ps + j"
          using False v base unfolding valid_image_def by linarith
        moreover have "\<not> unat index * ?ps + j < unat index * ?ps + ?ps - 16"
          using False ps by linarith
        ultimately show ?thesis
          using True render len1 base v i j ps by (simp add: nth_append nth_page_image nth_region_image)
      qed
    next
      case False
      then have "unat index * ?ps + ?ps \<le> ?ps * ?ap - 16"
        using i ps page_bound [of "Suc (unat index)" ?ap ?ps] by simp
      with False show ?thesis
        using render p1 [OF j] v i j by (simp add: nth_page_image)
    qed
  qed
qed

lemma page_into_spec:
  assumes v: "valid_image img"
  shows "page_into img index out =
     (if img_ap img \<le> unat index then (Err (PageOutOfRange index), out)
      else if length out < img_ps img then (Err (BufferTooSmall (img_ps img)), out)
      else (Ok (), page_image img (unat index) @ drop (img_ps img) out))"
  using v by (auto simp: page_into_def img_ap_def [symmetric] img_ps_def [symmetric] word_le_nat_alt
      get_to_def put_at_def render_page_eq)

section \<open>What the iterator yields\<close>

lemma pages_list_eq:
  "pages_list \<lparr>pg_img = img, pg_cursor = c\<rparr> =
     map word_of_nat (filter (\<lambda>k. must_write img (word_of_nat k)) [unat c..<img_ap img])"
proof (induction "img_ap img - unat c" arbitrary: c rule: less_induct)
  case less
  show ?case
  proof (cases "pages_scan img c")
    case (Pair r c')
    show ?thesis
    proof (cases r)
      case None
      then have "filter (\<lambda>k. must_write img (word_of_nat k)) [unat c..<img_ap img] = []"
        using Pair by (auto simp: filter_empty_conv img_ap_def dest: pages_scan_None)
      with None Pair show ?thesis
        by (simp add: pages_list.simps [of "\<lparr>pg_img = img, pg_cursor = c\<rparr>"] pages_next_def)
    next
      case (Some i)
      note sc = pages_scan_Some [OF Pair [unfolded Some], folded img_ap_def]
      have split: "[unat c..<img_ap img] = [unat c..<unat i] @ unat i # [unat c'..<img_ap img]"
        using sc by (metis le_eq_less_or_eq less_imp_le upt_add_eq_append upt_conv_Cons le_add_diff_inverse)
      have "filter (\<lambda>k. must_write img (word_of_nat k)) [unat c..<unat i] = []"
        using sc by (auto simp: filter_empty_conv)
      then have "filter (\<lambda>k. must_write img (word_of_nat k)) [unat c..<img_ap img] =
          unat i # filter (\<lambda>k. must_write img (word_of_nat k)) [unat c'..<img_ap img]"
        using sc unfolding split by simp
      moreover have "pages_list \<lparr>pg_img = img, pg_cursor = c'\<rparr> =
          map word_of_nat (filter (\<lambda>k. must_write img (word_of_nat k)) [unat c'..<img_ap img])"
        using sc by (intro less) linarith
      ultimately show ?thesis
        using Some Pair
        by (simp add: pages_list.simps [of "\<lparr>pg_img = img, pg_cursor = c\<rparr>"] pages_next_def)
    qed
  qed
qed

lemma pages_eq:
  "map unat (pages_list (pages img)) =
     filter (\<lambda>k. must_write img (word_of_nat k)) [0..<img_ap img]"
proof -
  have "unat (word_of_nat k :: u16) = k" if "k < img_ap img" for k
    using that unat_u16_lt [of "img_app_pages img"] by (simp add: img_ap_def)
  then show ?thesis
    by (auto simp: pages_def pages_list_eq intro!: map_idI)
qed

lemma footer_must_write:
  assumes "valid_image img"
  shows "must_write img (word_of_nat (img_ap img - 1))"
    and "word_of_nat (img_ap img - 1) = footer_page_index img"
proof -
  have "img_app_pages img \<noteq> 0"
    using assms by (auto simp: valid_image_def img_ap_def)
  then have "unat (img_app_pages img - 1) = img_ap img - 1"
    by (simp add: img_ap_def unat_minus_one)
  moreover have "word_of_nat (unat (img_app_pages img - 1)) = img_app_pages img - 1"
    by simp
  ultimately show eq: "word_of_nat (img_ap img - 1) = footer_page_index img"
    by (simp add: footer_page_index_def)
  then show "must_write img (word_of_nat (img_ap img - 1))"
    by (simp add: must_write_def)
qed

lemma pages_last:
  assumes "valid_image img"
  shows "pages_list (pages img) \<noteq> [] \<and> last (pages_list (pages img)) = footer_page_index img"
proof -
  obtain n where n: "img_ap img = Suc n"
    using assms by (cases "img_ap img") (auto simp: valid_image_def)
  then show ?thesis
    using footer_must_write [OF assms] by (simp add: pages_def pages_list_eq)
qed

text \<open>A page the iterator skips is all \<open>0xFF\<close> in the region.\<close>

lemma skipped_page:
  assumes v: "valid_image img" and k: "k < img_ap img" and skip: "\<not> must_write img (word_of_nat k)"
  shows "page_image img k = replicate (img_ps img) 0xFF"
proof (rule nth_equalityI)
  let ?ps = "img_ps img" and ?ap = "img_ap img" and ?D = "img_data img"
  show "length (page_image img k) = length (replicate ?ps 0xFF)"
    using v k by simp
  fix j
  assume "j < length (page_image img k)"
  with v k have j: "j < ?ps" by simp
  have uk: "unat (word_of_nat k :: u16) = k"
    using k unat_u16_lt [of "img_app_pages img"] by (simp add: img_ap_def)
  have "word_of_nat k \<noteq> footer_page_index img"
    using skip by (auto simp: must_write_def)
  then have notlast: "Suc k < ?ap"
    using footer_page_iff [OF v, of "word_of_nat k"] k uk by simp
  then have inside: "k * ?ps + ?ps \<le> ?ps * ?ap - 16"
    using page_bound [of "Suc k" ?ap ?ps] v unfolding valid_image_def mult_Suc by linarith
  have window: "\<not> list_ex (\<lambda>b. b \<noteq> 0xFF) w"
    if "get_range ?D (k * ?ps) (min (k * ?ps + ?ps) (length ?D)) = Some w" for w
    using that skip \<open>word_of_nat k \<noteq> footer_page_index img\<close> image_bound [OF v k]
    by (simp add: must_write_def Let_def uk img_ps_def [symmetric] usize_simps)
  have "?D ! (k * ?ps + j) = 0xFF" if lt: "k * ?ps + j < length ?D"
  proof -
    have "get_range ?D (k * ?ps) (min (k * ?ps + ?ps) (length ?D))
        = Some (take (min ?ps (length ?D - k * ?ps)) (drop (k * ?ps) ?D))"
      using lt by (simp add: get_range_def min_def)
    from window [OF this] have "\<forall>b \<in> set (take (min ?ps (length ?D - k * ?ps)) (drop (k * ?ps) ?D)). b = 0xFF"
      by (simp add: list_ex_iff)
    moreover have "?D ! (k * ?ps + j) \<in> set (take (min ?ps (length ?D - k * ?ps)) (drop (k * ?ps) ?D))"
      using j lt by (auto simp: in_set_conv_nth intro!: exI [of _ j])
    ultimately show ?thesis by blast
  qed
  then show "page_image img k ! j = replicate ?ps 0xFF ! j"
    using v k j inside by (simp add: nth_page_image nth_region_image)
qed

section \<open>Writing the yielded pages\<close>

text \<open>The region after programming the pages \<open>ks\<close> into \<open>flash\<close>, in that order.\<close>

definition write_pages :: "image \<Rightarrow> nat list \<Rightarrow> bytes \<Rightarrow> bytes" where
  "write_pages img ks flash = foldl (\<lambda>f k. put_at (k * img_ps img) (page_image img k) f) flash ks"

lemma write_pages_simps [simp]:
  "write_pages img [] flash = flash"
  "write_pages img (k # ks) flash = write_pages img ks (put_at (k * img_ps img) (page_image img k) flash)"
  by (simp_all add: write_pages_def)

lemma div_page: "j < p \<Longrightarrow> (k * p + j) div p = k" for p :: nat
  by (simp add: div_eq_dividend_iff)

lemma in_page_iff:
  assumes "0 < (p :: nat)"
  shows "k * p \<le> i \<and> i < k * p + p \<longleftrightarrow> i div p = k"
  using assms by (metis add.commute div_less_iff_less_mult less_eq_div_iff_mult_less_eq less_Suc_eq_le
      antisym mult_Suc order_refl)

lemma nth_write_pages:
  assumes v: "valid_image img"
  shows "length flash = img_ps img * img_ap img \<Longrightarrow> set ks \<subseteq> {..<img_ap img} \<Longrightarrow>
     i < img_ps img * img_ap img \<Longrightarrow>
     length (write_pages img ks flash) = img_ps img * img_ap img \<and>
     write_pages img ks flash ! i =
       (if i div img_ps img \<in> set ks then region_image img ! i else flash ! i)"
proof (induction ks arbitrary: flash)
  case Nil
  then show ?case by simp
next
  case (Cons k ks)
  let ?ps = "img_ps img"
  have k: "k < img_ap img" and ps: "0 < ?ps"
    using Cons.prems v by (auto simp: valid_image_def)
  then have fit: "k * ?ps + length (page_image img k) \<le> length flash"
    using Cons.prems(1) v page_bound [OF k, of ?ps] by simp
  have at: "put_at (k * ?ps) (page_image img k) flash ! i
      = (if i div ?ps = k then region_image img ! i else flash ! i)"
  proof (cases "i div ?ps = k")
    case True
    with in_page_iff [OF ps, of k i] have "k * ?ps \<le> i" "i < k * ?ps + ?ps" by auto
    with True fit k v Cons.prems(1,3) show ?thesis
      by (auto simp: nth_put_at nth_page_image)
  next
    case False
    with in_page_iff [OF ps, of k i] have "i < k * ?ps \<or> k * ?ps + ?ps \<le> i" by auto
    with False fit k v Cons.prems(1,3) show ?thesis
      by (auto simp: nth_put_at)
  qed
  show ?case
    using Cons.IH [of "put_at (k * ?ps) (page_image img k) flash"] Cons.prems fit at by auto
qed

lemma write_all_pages:
  assumes v: "valid_image img"
  shows "write_pages img (map unat (pages_list (pages img)))
     (replicate (img_ps img * img_ap img) 0xFF) = region_image img"
proof (rule nth_equalityI)
  let ?ps = "img_ps img" and ?n = "img_ps img * img_ap img"
  let ?ks = "map unat (pages_list (pages img))" and ?e = "replicate (img_ps img * img_ap img) 0xFF"
  have sub: "set ?ks \<subseteq> {..<img_ap img}"
    unfolding pages_eq by auto
  have n: "0 < ?n" using v by (auto simp: valid_image_def)
  have len: "length (write_pages img ?ks ?e) = ?n"
    using nth_write_pages [OF v _ sub n, of ?e] by simp
  with v show "length (write_pages img ?ks ?e) = length (region_image img)"
    by simp
  fix i
  assume "i < length (write_pages img ?ks ?e)"
  with len have i: "i < ?n" by simp
  have w: "write_pages img ?ks ?e ! i = (if i div ?ps \<in> set ?ks then region_image img ! i else 0xFF)"
    using nth_write_pages [OF v _ sub i, of ?e] i by simp
  have ps: "0 < ?ps" using v by (simp add: valid_image_def)
  have q: "i div ?ps < img_ap img"
    using i by (simp add: less_mult_imp_div_less mult.commute)
  show "write_pages img ?ks ?e ! i = region_image img ! i"
  proof (cases "i div ?ps \<in> set ?ks")
    case False
    with q have "\<not> must_write img (word_of_nat (i div ?ps))"
      unfolding pages_eq by simp
    from skipped_page [OF v q this] have "page_image img (i div ?ps) ! (i mod ?ps) = 0xFF"
      using ps by simp
    then have "region_image img ! i = 0xFF"
      using nth_page_image [OF v q, of "i mod ?ps"] ps by simp
    with w False show ?thesis by simp
  qed (use w in simp)
qed

section \<open>CRC-32 as a register\<close>

lemma bit_crc32_bit:
  assumes "n < 32"
  shows "bit (crc32_bit c) n \<longleftrightarrow> bit c (Suc n) \<noteq> (bit c 0 \<and> bit (0xEDB88320 :: u32) n)"
proof -
  have "c AND 1 = 0 \<longleftrightarrow> \<not> bit c 0"
    using and_exp_eq_0_iff_not_bit [of c 0] by simp
  then show ?thesis
    using assms by (simp add: crc32_bit_def bit_simps flip: drop_bit_Suc)
qed

lemma crc32_bit_inj: "crc32_bit c = crc32_bit d \<Longrightarrow> c = d"
proof -
  assume eq: "crc32_bit c = crc32_bit d"
  have at: "(bit c (Suc n) \<noteq> (bit c 0 \<and> bit (0xEDB88320 :: u32) n)) =
      (bit d (Suc n) \<noteq> (bit d 0 \<and> bit (0xEDB88320 :: u32) n))" if "n < 32" for n
    using that eq bit_crc32_bit by metis
  have "bit (0xEDB88320 :: u32) 31"
    by code_simp
  moreover have "\<not> bit c 32" "\<not> bit d 32"
    using bit_imp_le_length [of c 32] bit_imp_le_length [of d 32] by auto
  ultimately have low: "bit c 0 = bit d 0"
    using at [of 31] by simp
  show "c = d"
  proof (rule bit_word_eqI)
    fix n :: nat
    assume "n < LENGTH(32)"
    then show "bit c n = bit d n"
      using at [of "n - 1"] low by (cases n) auto
  qed
qed

lemma crc32_loop_inj: "crc32_loop k c = crc32_loop k d \<Longrightarrow> c = d"
  by (induction k arbitrary: c d) (auto dest: crc32_bit_inj)

lemma ucast_u8_u32_inj: "(ucast (b :: u8) :: u32) = ucast c \<Longrightarrow> b = c"
proof (rule bit_word_eqI)
  fix n :: nat
  assume eq: "(ucast b :: u32) = ucast c" and "n < LENGTH(8)"
  then have "bit (ucast b :: u32) n = bit (ucast c :: u32) n"
    by simp
  then show "bit b n = bit c n"
    using \<open>n < LENGTH(8)\<close> by (simp add: bit_ucast_iff)
qed

interpretation crc32_reg: crc_register crc32_step
proof unfold_locales
  fix s t :: u32 and b c :: u8
  show "crc32_step s b = crc32_step t b \<Longrightarrow> s = t"
    unfolding crc32_step_def by (blast dest: crc32_loop_inj xor_right_cancel)
  show "crc32_step s b = crc32_step s c \<Longrightarrow> b = c"
    unfolding crc32_step_def by (blast dest: crc32_loop_inj xor_left_cancel ucast_u8_u32_inj)
qed

lemma crc32_one_byte: "i < length xs \<Longrightarrow> b \<noteq> xs ! i \<Longrightarrow> crc32 (xs[i := b]) \<noteq> crc32 xs"
  unfolding crc32_def using crc32_reg.fold_one_byte xor_right_cancel by blast

section \<open>Properties\<close>

text \<open>
  Construction validates. \<open>from_bin\<close> accepts exactly the page sizes 16 to 250
  with at least one page and a binary that leaves room for the 16-byte footer; what it
  returns carries the caller's data and geometry and satisfies the image invariant; every
  rejection names the geometry, or the length and the capacity.
\<close>

lemma from_bin_contract:
  "case from_bin bs ps ap of
     Ok img \<Rightarrow> valid_image img \<and> img_data img = bs \<and> img_page_size img = ps \<and> img_app_pages img = ap
       \<and> ap \<noteq> 0 \<and> unat ps \<in> {16..250} \<and> length bs + 16 \<le> unat ps * unat ap
   | Err e \<Rightarrow>
       if ap \<noteq> 0 \<and> unat ps \<in> {16..250}
       then unat ps * unat ap < length bs + 16 \<and> e = ImageTooLarge (length bs) (unat ps * unat ap - 16)
       else e = BadGeometry ps ap"
proof (cases "from_bin bs ps ap")
  case (Inl e)
  then show ?thesis
    by (auto simp: from_bin_spec split: if_splits)
next
  case (Inr img)
  with from_bin_valid [OF Inr] show ?thesis
    by (auto simp: from_bin_spec valid_image_def img_ps_def img_ap_def split: if_splits)
qed

text \<open>
  A page renders as its window of the region. For an image that construction accepted
  and any page index and buffer: an index outside the region or a short buffer is refused
  with the buffer untouched; otherwise exactly the page-size front of the buffer becomes
  the window \<open>[index * page_size, (index + 1) * page_size)\<close> of data, \<open>0xFF\<close> padding
  and footer, and the bytes behind it stay.
\<close>

lemma page_into_renders:
  assumes "from_bin bs ps ap = Ok img"
  shows "page_into img index out =
     (if unat ap \<le> unat index then (Err (PageOutOfRange index), out)
      else if length out < unat ps then (Err (BufferTooSmall (unat ps)), out)
      else (Ok (), take (unat ps) (drop (unat index * unat ps)
                     (bs @ replicate (unat ps * unat ap - 16 - length bs) 0xFF @ footer img))
                   @ drop (unat ps) out))"
  using from_bin_valid [OF assms]
  by (simp add: page_into_spec page_image_def region_image_def img_ps_def img_ap_def)

definition demo_image :: image where
  "demo_image = \<lparr>img_data = replicate 20 0x42, img_page_size = 16, img_app_pages = 4,
     img_len = 20, img_crc = crc32 (replicate 20 0x42)\<rparr>"

lemma demo_image_from_bin: "from_bin (replicate 20 0x42) 16 4 = Ok demo_image"
  by (simp add: from_bin_spec demo_image_def)

text \<open>
  C18: the pages to write are enough. For an image that construction accepted, the iterator
  yields strictly ascending indices inside the region and the footer page last, and
  programming just those pages into an erased region produces the complete region: the
  data, \<open>0xFF\<close> padding and the footer. The skipped pages need no write. What is programmed
  at each index is \<open>page_image\<close>, the slice of the complete region, and that is what
  \<open>page_into\<close> renders there into any buffer that holds a page.
\<close>

theorem pages_rebuild_region:
  assumes "from_bin bs ps ap = Ok img"
  shows "sorted_wrt (<) (map unat (pages_list (pages img)))
    \<and> set (map unat (pages_list (pages img))) \<subseteq> {..<unat ap}
    \<and> pages_list (pages img) \<noteq> [] \<and> last (pages_list (pages img)) = ap - 1
    \<and> (\<forall>i \<in> set (pages_list (pages img)). \<forall>out. unat ps \<le> length out \<longrightarrow>
         page_into img i out = (Ok (), page_image img (unat i) @ drop (unat ps) out))
    \<and> write_pages img (map unat (pages_list (pages img))) (replicate (unat ps * unat ap) 0xFF) =
        bs @ replicate (unat ps * unat ap - 16 - length bs) 0xFF @ footer img"
proof -
  have v: "valid_image img" "img_ps img = unat ps" "img_ap img = unat ap" "img_data img = bs" and ap: "img_app_pages img = ap"
    using from_bin_valid [OF assms] by (auto simp: img_ps_def img_ap_def)
  have range: "unat i < unat ap" if "i \<in> set (pages_list (pages img))" for i
  proof -
    have "unat i \<in> set (map unat (pages_list (pages img)))"
      using that by simp
    with v show ?thesis
      unfolding pages_eq by simp
  qed
  then have rendered: "\<forall>i \<in> set (pages_list (pages img)). \<forall>out. unat ps \<le> length out \<longrightarrow>
      page_into img i out = (Ok (), page_image img (unat i) @ drop (unat ps) out)"
    using v by (fastforce simp: page_into_spec)
  show ?thesis
    using v ap range rendered pages_last [of img] write_all_pages [of img]
    by (auto simp: pages_eq sorted_wrt_filter footer_page_index_def region_image_def img_ps_def img_ap_def simp del: set_map)
qed

theorem pages_rebuild_region_witness:
  "last (pages_list (pages demo_image)) = 3
    \<and> page_into demo_image 3 (replicate 16 0) = (Ok (), page_image demo_image 3)
    \<and> write_pages demo_image (map unat (pages_list (pages demo_image))) (replicate 64 0xFF)
      = replicate 20 0x42 @ replicate 28 0xFF @ footer demo_image"
proof -
  note demo = pages_rebuild_region [OF demo_image_from_bin]
  then have "3 \<in> set (pages_list (pages demo_image))"
    using last_in_set [of "pages_list (pages demo_image)"] by simp
  with demo show ?thesis
    by (simp del: set_map)
qed

text \<open>
  The CRC-32 of the footer separates an image from every image that differs from it in
  exactly one byte.
\<close>

lemma crc32_detects_one_byte:
  assumes "i < length bs" and "b \<noteq> bs ! i"
  shows "crc32 (bs[i := b]) \<noteq> crc32 bs"
  using assms by (rule crc32_one_byte)

text \<open>
  \<open>size_hint\<close> brackets the yields. At every cursor of an iterator over an image
  that construction accepted, the number of pages still to come lies between the lower and
  the upper hint.
\<close>

lemma size_hint_brackets:
  assumes "from_bin bs ps ap = Ok img"
  shows "\<exists>lo hi. pages_size_hint \<lparr>pg_img = img, pg_cursor = c\<rparr> = (lo, Some hi)
     \<and> lo \<le> length (pages_list \<lparr>pg_img = img, pg_cursor = c\<rparr>)
     \<and> length (pages_list \<lparr>pg_img = img, pg_cursor = c\<rparr>) \<le> hi"
proof -
  have v: "valid_image img" and ap: "ap = img_app_pages img"
    using from_bin_valid [OF assms] by auto
  let ?n = "img_ap img - unat c"
  have hint: "pages_size_hint \<lparr>pg_img = img, pg_cursor = c\<rparr> = (if 0 < ?n then 1 else 0, Some ?n)"
    by (auto simp: pages_size_hint_def Let_def img_ap_def word_le_nat_alt word_less_nat_alt unat_sub)
  have "length (pages_list \<lparr>pg_img = img, pg_cursor = c\<rparr>) \<le> ?n"
    unfolding pages_list_eq length_map by (rule order_trans [OF length_filter_le]) simp
  moreover have "1 \<le> length (pages_list \<lparr>pg_img = img, pg_cursor = c\<rparr>)" if "0 < ?n"
  proof -
    have "img_ap img - 1 \<in> set (filter (\<lambda>k. must_write img (word_of_nat k)) [unat c..<img_ap img])"
      using that footer_must_write [OF v] by auto
    then show ?thesis
      unfolding pages_list_eq length_map by (cases "filter (\<lambda>k. must_write img (word_of_nat k)) [unat c..<img_ap img]") auto
  qed
  ultimately show ?thesis
    using hint by auto
qed

end
