(* ===== verification/Transport_If.thy ===== *)
theory Transport_If
  imports Errors
begin

text \<open>
  The seam of \<^verbatim>\<open>updater-core/src/transport.rs\<close>: one request frame out, one response
  into the caller's buffer. A transport is its state and its \<open>request\<close>, which takes the
  state, the request and the response buffer and returns a length or an error with the
  state and the buffer it leaves. The locale names what the type \<open>&mut [u8]\<close> of the
  trait guarantees of every implementation: the buffer keeps its length.
\<close>

type_synonym ('t, 'e) request_fn = "'t \<Rightarrow> bytes \<Rightarrow> bytes \<Rightarrow> ('e + usize) \<times> 't \<times> bytes"

locale transport =
  fixes request :: "('t, 'e) request_fn"
  assumes rsp_length: "request t req rsp = (r, t', rsp') \<Longrightarrow> length rsp' = length rsp"
text \<open>
  The forwarding \<open>impl Transport for &mut T\<close>: the exclusive reference is the state it
  points to, so the forwarded request is the request itself.
\<close>

definition request_ref :: "('t, 'e) request_fn \<Rightarrow> ('t, 'e) request_fn" where
  "request_ref request t req rsp = request t req rsp"

text \<open>
  A transport next to the list of the requests it was handed, in order: the observation
  that the properties of the session engine are stated on.
\<close>

definition logged :: "('t, 'e) request_fn \<Rightarrow> ('t \<times> bytes list, 'e) request_fn" where
  "logged request st req rsp =
     (let (r, t', rsp') = request (fst st) req rsp in (r, (t', snd st @ [req]), rsp'))"

text \<open>The transport and its buffer after the first \<open>k\<close> of a run of identical requests.\<close>

fun request_times :: "('t, 'e) request_fn \<Rightarrow> nat \<Rightarrow> bytes \<Rightarrow> 't \<times> bytes \<Rightarrow> 't \<times> bytes" where
  "request_times request 0 req tr = tr"
| "request_times request (Suc k) req tr = request_times request k req (snd (request (fst tr) req (snd tr)))"

context transport
begin

lemma length_request_times: "length (snd (request_times request k req tr)) = length (snd tr)"
proof (induction k arbitrary: tr)
  case (Suc k)
  obtain r t' rsp' where "request (fst tr) req (snd tr) = (r, t', rsp')"
    using prod_cases3 by blast
  with Suc rsp_length show ?case by fastforce
qed simp

end

lemma logged_transport: "transport request \<Longrightarrow> transport (logged request)"
  by (auto simp: transport_def logged_def split: prod.splits)

end
