(* ===== verification/Session.thy ===== *)
theory Session
  imports Image Transport_If
begin

text \<open>
  The session engine of \<^verbatim>\<open>updater-core/src/session.rs\<close>: the split of the caller's one
  frame buffer, the retried exchange, and the commands INFO, ECHO, BOOT and the whole
  flash sequence, over any transport.
\<close>

section \<open>Constants and state\<close>

definition RETRY_BUDGET :: u8 where "RETRY_BUDGET = 3"

definition INFO_RSP_PAYLOAD :: usize where "INFO_RSP_PAYLOAD = 12"

definition ST_RSP_PAYLOAD :: usize where "ST_RSP_PAYLOAD = 1"

record device_info =
  di_proto :: u8
  di_bl_version :: u8
  di_device_id :: bytes
  di_page_size :: u16
  di_app_pages :: u16
  di_app_valid :: bool

record 't session =
  s_transport :: 't
  s_buf :: bytes

definition session_new :: "'t \<Rightarrow> bytes \<Rightarrow> 't session" where
  "session_new t frame_buf = \<lparr>s_transport = t, s_buf = frame_buf\<rparr>"

definition into_transport :: "'t session \<Rightarrow> 't" where
  "into_transport s = s_transport s"

section \<open>The exchange\<close>

definition split_windows :: "bytes \<Rightarrow> usize \<Rightarrow> usize \<Rightarrow> 'e error + bytes \<times> bytes" where
  "split_windows buf tx_len rx_len =
     (let needed = usize_saturating_add tx_len rx_len;
          too_small = Core (BufferTooSmall needed)
      in case get_to buf needed of
           None \<Rightarrow> Err too_small
         | Some region \<Rightarrow> ok_or (split_at_checked region tx_len) too_small)"

datatype reject = Mangled | DeviceBadFrame | Fatal u8

definition validate :: "bytes \<Rightarrow> u8 \<Rightarrow> reject + unit" where
  "validate raw expect_cmd =
     (case decode_padded raw of
        Err _ \<Rightarrow> Err Mangled
      | Ok decoded \<Rightarrow>
          if cmd decoded \<noteq> expect_cmd then Err Mangled
          else
            (case split_first (payload decoded) of
               None \<Rightarrow> Err Mangled
             | Some (st, _) \<Rightarrow>
                 if st = ST_OK then Ok ()
                 else if st = ST_BAD_FRAME then Err DeviceBadFrame
                 else Err (Fatal st)))"

text \<open>
  The \<open>for _attempt in 0..=RETRY_BUDGET\<close> loop of \<open>exchange\<close>: \<open>left\<close> attempts to go,
  \<open>last_err\<close> the error of the previous one.
\<close>

fun exchange_loop ::
  "('t, 'e) request_fn \<Rightarrow> nat \<Rightarrow> 'e error \<Rightarrow> 't \<Rightarrow> bytes \<Rightarrow> bytes \<Rightarrow> u8 \<Rightarrow> ('e error + usize) \<times> 't \<times> bytes"
where
  "exchange_loop request 0 last_err t tx rx expect_cmd = (Err last_err, t, rx)"
| "exchange_loop request (Suc left) last_err t tx rx expect_cmd =
     (case request t tx rx of
        (Err e, t', rx') \<Rightarrow> exchange_loop request left (Transport e) t' tx rx' expect_cmd
      | (Ok n, t', rx') \<Rightarrow>
          let rlen = min n (length rx');
              raw = (case get_to rx' rlen of None \<Rightarrow> [] | Some raw \<Rightarrow> raw)
          in case validate raw expect_cmd of
               Ok _ \<Rightarrow> (Ok rlen, t', rx')
             | Err Mangled \<Rightarrow> exchange_loop request left (Core BadFrame) t' tx rx' expect_cmd
             | Err DeviceBadFrame \<Rightarrow>
                 exchange_loop request left (Core (Device ST_BAD_FRAME)) t' tx rx' expect_cmd
             | Err (Fatal st) \<Rightarrow> (Err (Core (Device st)), t', rx'))"

definition exchange ::
  "('t, 'e) request_fn \<Rightarrow> 't \<Rightarrow> bytes \<Rightarrow> bytes \<Rightarrow> u8 \<Rightarrow> ('e error + usize) \<times> 't \<times> bytes"
where
  "exchange request t tx rx expect_cmd =
     exchange_loop request (Suc (unat RETRY_BUDGET)) (Core BadFrame) t tx rx expect_cmd"

section \<open>Commands\<close>

text \<open>
  The windows borrow the front of the session's buffer; what is written through them is
  written back to it.
\<close>

definition transact ::
  "('t, 'e) request_fn \<Rightarrow> 't session \<Rightarrow> u8 \<Rightarrow> bytes \<Rightarrow> usize \<Rightarrow> ('e error + bytes) \<times> 't session"
where
  "transact request s c pl rsp_payload_cap =
     (case usize_checked_add (length pl) FRAME_OVERHEAD of
        None \<Rightarrow> (Err (Core (PayloadTooLarge (length pl))), s)
      | Some tx_len \<Rightarrow>
          let rx_len = usize_wrapping_add rsp_payload_cap FRAME_OVERHEAD in
          case split_windows (s_buf s) tx_len rx_len of
            Err e \<Rightarrow> (Err e, s)
          | Ok (tx, rx) \<Rightarrow>
              (case encode c pl tx of
                 (Err e, tx') \<Rightarrow> (Err (widen e), s\<lparr>s_buf := put_at 0 (tx' @ rx) (s_buf s)\<rparr>)
               | (Ok _, tx') \<Rightarrow>
                   (case exchange request (s_transport s) tx' rx (c OR RSP_FLAG) of
                      (r, t', rx') \<Rightarrow>
                        let s' = s\<lparr>s_transport := t', s_buf := put_at 0 (tx' @ rx') (s_buf s)\<rparr> in
                        (try_bind r (\<lambda>rlen.
                         try_bind (ok_or (get_to rx' rlen) (Core BadFrame)) (\<lambda>raw.
                         try_bind (map_err widen (decode_padded raw)) (\<lambda>decoded.
                         try_bind (ok_or (split_first (payload decoded)) (Core BadFrame)) (\<lambda>(_, rest).
                           Ok rest)))), s'))))"

definition parse_info :: "bytes \<Rightarrow> 'e error + device_info" where
  "parse_info rest =
     (case rest of
        [proto, bl_version, d0, d1, d2, d3, ps_lo, ps_hi, ap_lo, ap_hi, valid] \<Rightarrow>
          Ok \<lparr>di_proto = proto, di_bl_version = bl_version, di_device_id = [d0, d1, d2, d3],
              di_page_size = u16_from_le_bytes ps_lo ps_hi,
              di_app_pages = u16_from_le_bytes ap_lo ap_hi, di_app_valid = (valid \<noteq> 0)\<rparr>
      | _ \<Rightarrow> Err (Core BadFrame))"

definition info :: "('t, 'e) request_fn \<Rightarrow> 't session \<Rightarrow> ('e error + device_info) \<times> 't session" where
  "info request s =
     st_bind (transact request s CMD_INFO [] INFO_RSP_PAYLOAD) (\<lambda>rest s'. (parse_info rest, s'))"

definition echo :: "('t, 'e) request_fn \<Rightarrow> 't session \<Rightarrow> bytes \<Rightarrow> ('e error + unit) \<times> 't session" where
  "echo request s data =
     (if length data > ECHO_MAX then (Err (Core (PayloadTooLarge (length data))), s)
      else
        let cap = usize_wrapping_add (length data) ST_RSP_PAYLOAD in
        st_bind (transact request s CMD_ECHO data cap) (\<lambda>rest s'.
          (if rest = data then Ok () else Err (Core BadFrame), s')))"

definition boot :: "('t, 'e) request_fn \<Rightarrow> 't session \<Rightarrow> ('e error + unit) \<times> 't session" where
  "boot request s =
     st_bind (transact request s CMD_BOOT [] ST_RSP_PAYLOAD) (\<lambda>_ s'. (Ok (), s'))"

text \<open>
  \<open>write_page\<close> fills the transmit window in place: header, page, CRC. The windows are
  written back on every path that leaves after the split.
\<close>

definition write_page ::
  "('t, 'e) request_fn \<Rightarrow> 't session \<Rightarrow> image \<Rightarrow> u16 \<Rightarrow> ('e error + unit) \<times> 't session"
where
  "write_page request s img index =
     (let ps = unat (img_page_size img);
          payload_len = usize_wrapping_add ps 2;
          tx_len = usize_wrapping_add payload_len FRAME_OVERHEAD;
          rx_len = usize_wrapping_add ST_RSP_PAYLOAD FRAME_OVERHEAD
      in case split_windows (s_buf s) tx_len rx_len of
           Err e \<Rightarrow> (Err e, s)
         | Ok (tx, rx) \<Rightarrow>
             let leave = (\<lambda>tx' rx'. put_at 0 (tx' @ rx') (s_buf s)) in
             (case u8_try_from payload_len of
                None \<Rightarrow> (Err (Core (PayloadTooLarge payload_len)), s)
              | Some len_byte \<Rightarrow>
                  (case split_at_checked tx 4 of
                     None \<Rightarrow> (Err (Core (BufferTooSmall tx_len)), s)
                   | Some (_, rest) \<Rightarrow>
                       let header = [CMD_WRITE_PAGE, len_byte] @ u16_to_le_bytes index in
                       (case get_to rest ps of
                          None \<Rightarrow>
                            (Err (Core (BufferTooSmall tx_len)), s\<lparr>s_buf := leave (header @ rest) rx\<rparr>)
                        | Some page \<Rightarrow>
                            (case page_into img index page of
                               (Err e, page') \<Rightarrow>
                                 (Err (widen e), s\<lparr>s_buf := leave (header @ put_at 0 page' rest) rx\<rparr>)
                             | (Ok _, page') \<Rightarrow>
                                 let tx1 = header @ put_at 0 page' rest;
                                     crc_at = usize_wrapping_sub tx_len 1
                                 in case get_to tx1 crc_at of
                                      None \<Rightarrow> (Err (Core (BufferTooSmall tx_len)), s\<lparr>s_buf := leave tx1 rx\<rparr>)
                                    | Some covered \<Rightarrow>
                                        (case get_at tx1 crc_at of
                                           None \<Rightarrow>
                                             (Err (Core (BufferTooSmall tx_len)), s\<lparr>s_buf := leave tx1 rx\<rparr>)
                                         | Some _ \<Rightarrow>
                                             let tx2 = tx1[crc_at := crc8 covered] in
                                             (case exchange request (s_transport s) tx2 rx
                                                     (CMD_WRITE_PAGE OR RSP_FLAG) of
                                                (r, t', rx') \<Rightarrow>
                                                  (try_bind r (\<lambda>_. Ok ()),
                                                   s\<lparr>s_transport := t', s_buf := leave tx2 rx'\<rparr>))))))))"

text \<open>
  The page loop of \<open>flash\<close> and \<open>flash\<close> itself. The calls of the \<open>progress\<close> callback
  are the list of its arguments, in order. The count of written pages is a \<open>u16\<close> counted with
  \<open>saturating_add\<close>.
\<close>

definition u16_saturating_succ :: "u16 \<Rightarrow> u16" where
  "u16_saturating_succ w = (if w = - 1 then - 1 else w + 1)"

fun flash_pages ::
  "('t, 'e) request_fn \<Rightarrow> 't session \<Rightarrow> image \<Rightarrow> u16 list \<Rightarrow> u16 \<Rightarrow> u16 \<Rightarrow>
     ('e error + unit) \<times> 't session \<times> (u16 \<times> u16) list"
where
  "flash_pages request s img [] cnt total_pages = (Ok (), s, [])"
| "flash_pages request s img (index # rest) cnt total_pages =
     (case write_page request s img index of
        (Err e, s') \<Rightarrow> (Err e, s', [])
      | (Ok _, s') \<Rightarrow>
          let cnt' = u16_saturating_succ cnt;
              (r, s'', prog) = flash_pages request s' img rest cnt' total_pages
          in (r, s'', (cnt', total_pages) # prog))"

definition flash ::
  "('t, 'e) request_fn \<Rightarrow> 't session \<Rightarrow> image \<Rightarrow> ('e error + unit) \<times> 't session \<times> (u16 \<times> u16) list"
where
  "flash request s img =
     (case info request s of
        (Err e, s1) \<Rightarrow> (Err e, s1, [])
      | (Ok di, s1) \<Rightarrow>
          if di_proto di \<noteq> PROTO_VERSION then (Err (Core (ProtocolVersion (di_proto di))), s1, [])
          else if di_page_size di \<noteq> img_page_size img \<or> di_app_pages di \<noteq> img_app_pages img
          then (Err (Core (BadGeometry (di_page_size di) (di_app_pages di))), s1, [])
          else
            (case transact request s1 CMD_ERASE_APP ERASE_MAGIC ST_RSP_PAYLOAD of
               (Err e, s2) \<Rightarrow> (Err e, s2, [])
             | (Ok _, s2) \<Rightarrow>
                 let total_pages = (case u16_try_from (length (pages_list (pages img))) of
                                None \<Rightarrow> - 1 | Some n \<Rightarrow> n) in
                 (case flash_pages request s2 img (pages_list (pages img)) 0 total_pages of
                    (Err e, s3, prog) \<Rightarrow> (Err e, s3, (0, total_pages) # prog)
                  | (Ok _, s3, prog) \<Rightarrow>
                      let verify = u32_to_le_bytes (img_len img) @ u32_to_le_bytes (img_crc img) in
                      (case transact request s3 CMD_VERIFY verify ST_RSP_PAYLOAD of
                         (r, s4) \<Rightarrow> (try_bind r (\<lambda>_. Ok ()), s4, (0, total_pages) # prog)))))"

section \<open>Validation and the retry loop\<close>

text \<open>The verdict on a response, by what it decodes to.\<close>

lemma validate_cases:
  "validate raw expect_cmd =
     (case decode_padded raw of
        Err _ \<Rightarrow> Err Mangled
      | Ok f \<Rightarrow> if cmd f \<noteq> expect_cmd \<or> payload f = [] then Err Mangled
               else if hd (payload f) = ST_OK then Ok ()
               else if hd (payload f) = ST_BAD_FRAME then Err DeviceBadFrame
               else Err (Fatal (hd (payload f))))"
  by (simp add: validate_def split_first_def split: sum.split list.split)

lemma validate_OkD:
  assumes "validate raw expect_cmd = Ok ()"
  shows "\<exists>rest. decode_padded raw = Ok \<lparr>cmd = expect_cmd, payload = ST_OK # rest\<rparr>"
proof -
  obtain f where f: "decode_padded raw = Ok f" "cmd f = expect_cmd" "payload f \<noteq> []" "hd (payload f) = ST_OK"
    using assms by (auto simp: validate_cases split: sum.splits if_splits)
  then show ?thesis
    by (intro exI [of _ "tl (payload f)"]) (cases f; cases "payload f"; simp)
qed

text \<open>What one attempt means: an error to retry on (left), or the final result (right).\<close>

definition verdict :: "'e + usize \<Rightarrow> bytes \<Rightarrow> u8 \<Rightarrow> 'e error + ('e error + usize)" where
  "verdict r rx expect_cmd =
     (case r of
        Err e \<Rightarrow> Inl (Transport e)
      | Ok n \<Rightarrow>
          (case validate (take n rx) expect_cmd of
             Ok _ \<Rightarrow> Inr (Ok (min n (length rx)))
           | Err Mangled \<Rightarrow> Inl (Core BadFrame)
           | Err DeviceBadFrame \<Rightarrow> Inl (Core (Device ST_BAD_FRAME))
           | Err (Fatal st) \<Rightarrow> Inr (Err (Core (Device st)))))"

definition attempt :: "('t, 'e) request_fn \<Rightarrow> bytes \<Rightarrow> u8 \<Rightarrow> 't \<times> bytes \<Rightarrow> 'e error + ('e error + usize)" where
  "attempt request tx expect_cmd tr =
     (case request (fst tr) tx (snd tr) of (r, _, rx') \<Rightarrow> verdict r rx' expect_cmd)"

lemma exchange_loop_Suc:
  "exchange_loop request (Suc left) last_err t tx rx expect_cmd =
     (case request t tx rx of (r, t', rx') \<Rightarrow>
        (case verdict r rx' expect_cmd of
           Inl e \<Rightarrow> exchange_loop request left e t' tx rx' expect_cmd
         | Inr res \<Rightarrow> (res, t', rx')))"
proof -
  have raw: "(case get_to rx' (min n (length rx')) of None \<Rightarrow> [] | Some raw \<Rightarrow> raw) = take n rx'"
    for n and rx' :: bytes
    by (simp add: get_to_def min_def)
  obtain q t1 rx1 where req: "request t tx rx = (q, t1, rx1)"
    using prod_cases3 by blast
  show ?thesis
  proof (cases q)
    case (Inl e)
    then show ?thesis by (simp add: req verdict_def)
  next
    case (Inr n)
    then show ?thesis
      unfolding exchange_loop.simps(2) req prod.case verdict_def sum.case Let_def raw
      by (simp split: sum.split reject.split)
  qed
qed

declare exchange_loop.simps(2) [simp del]

lemma exchange_loop_numeral:
  "exchange_loop request (numeral k) last_err t tx rx expect_cmd =
     (case request t tx rx of (r, t', rx') \<Rightarrow>
        (case verdict r rx' expect_cmd of
           Inl e \<Rightarrow> exchange_loop request (pred_numeral k) e t' tx rx' expect_cmd
         | Inr res \<Rightarrow> (res, t', rx')))"
  unfolding numeral_eq_Suc by (rule exchange_loop_Suc)

lemma exchange_loop_contract:
  assumes "exchange_loop request left e0 t tx rx ec = (r, t', rx')" and "0 < left"
  shows "\<exists>k \<in> {1..left}. (t', rx') = request_times request k tx (t, rx)
     \<and> (\<forall>j < k - 1. \<exists>e. attempt request tx ec (request_times request j tx (t, rx)) = Inl e)
     \<and> (case attempt request tx ec (request_times request (k - 1) tx (t, rx)) of
          Inl e \<Rightarrow> k = left \<and> r = Err e | Inr res \<Rightarrow> r = res)"
  using assms
proof (induction left arbitrary: e0 t rx)
  case (Suc left)
  obtain q t1 rx1 where req: "request t tx rx = (q, t1, rx1)"
    using prod_cases3 by blast
  let ?go = "\<lambda>k. (t', rx') = request_times request k tx (t, rx)
     \<and> (\<forall>j < k - 1. \<exists>e. attempt request tx ec (request_times request j tx (t, rx)) = Inl e)
     \<and> (case attempt request tx ec (request_times request (k - 1) tx (t, rx)) of
          Inl e \<Rightarrow> k = Suc left \<and> r = Err e | Inr res \<Rightarrow> r = res)"
  have first: "attempt request tx ec (t, rx) = verdict q rx1 ec"
    by (simp add: attempt_def req)
  show ?case
  proof (cases "verdict q rx1 ec")
    case (Inr res)
    with Suc.prems req first have "?go 1"
      by (simp add: exchange_loop_Suc)
    then show ?thesis by (intro bexI [of _ 1]) simp_all
  next
    case (Inl e)
    with Suc.prems req have loop: "exchange_loop request left e t1 tx rx1 ec = (r, t', rx')"
      by (simp add: exchange_loop_Suc)
    show ?thesis
    proof (cases left)
      case 0
      with loop Inl first req have "?go 1" by simp
      then show ?thesis by (intro bexI [of _ 1]) simp_all
    next
      case (Suc l)
      with Suc.IH [OF loop] obtain k where k: "k \<in> {1..left}"
        "(t', rx') = request_times request k tx (t1, rx1)"
        "\<forall>j < k - 1. \<exists>e. attempt request tx ec (request_times request j tx (t1, rx1)) = Inl e"
        "case attempt request tx ec (request_times request (k - 1) tx (t1, rx1)) of
           Inl e \<Rightarrow> k = left \<and> r = Err e | Inr res \<Rightarrow> r = res"
        by auto
      have step: "request_times request (Suc j) tx (t, rx) = request_times request j tx (t1, rx1)" for j
        by (simp add: req)
      have "\<exists>e. attempt request tx ec (request_times request j tx (t, rx)) = Inl e" if "j < k" for j
        using that k(3) Inl first step by (cases j) auto
      with k step [of "k - 1"] step [of k] have "?go (Suc k)"
        by (auto split: sum.splits)
      with k(1) show ?thesis by (intro bexI [of _ "Suc k"]) simp_all
    qed
  qed
qed simp

lemma exchange_unfold:
  "exchange request t tx rx ec = exchange_loop request 4 (Core BadFrame) t tx rx ec"
  by (simp add: exchange_def RETRY_BUDGET_def)

lemma verdict_OkD:
  assumes "verdict q rx ec = Inr (Ok n)"
  shows "n \<le> length rx \<and> (\<exists>rest. decode_padded (take n rx) = Ok \<lparr>cmd = ec, payload = ST_OK # rest\<rparr>)"
proof -
  obtain m where "validate (take m rx) ec = Ok ()" and n: "n = min m (length rx)"
    using assms by (auto simp: verdict_def split: sum.splits reject.splits)
  moreover have "take n rx = take m rx"
    by (simp add: n min_def)
  ultimately show ?thesis
    using validate_OkD by fastforce
qed

lemma exchange_loop_Ok:
  "exchange_loop request left e0 t tx rx ec = (Ok n, t', rx') \<Longrightarrow>
     n \<le> length rx' \<and> (\<exists>rest. decode_padded (take n rx') = Ok \<lparr>cmd = ec, payload = ST_OK # rest\<rparr>)"
proof (induction left arbitrary: e0 t rx)
  case (Suc left)
  obtain q t1 rx1 where req: "request t tx rx = (q, t1, rx1)"
    using prod_cases3 by blast
  show ?case
  proof (cases "verdict q rx1 ec")
    case (Inl e)
    with Suc req show ?thesis by (simp add: exchange_loop_Suc)
  next
    case (Inr res)
    with Suc.prems req have "verdict q rx1 ec = Inr (Ok n)" "rx' = rx1"
      by (simp_all add: exchange_loop_Suc)
    then show ?thesis
      using verdict_OkD by blast
  qed
qed simp

text \<open>The device answered at the first attempt: no retry.\<close>

lemma verdict_served:
  "n \<le> length rx \<Longrightarrow> decode_padded (take n rx) = Ok \<lparr>cmd = ec, payload = st # rest\<rparr> \<Longrightarrow> st \<noteq> ST_BAD_FRAME \<Longrightarrow>
     verdict (Ok n :: 'e + usize) rx ec = Inr (if st = ST_OK then Ok n else Err (Core (Device st)))"
  by (simp add: verdict_def validate_cases)

lemma exchange_first:
  fixes request :: "('t, 'e) request_fn"
  assumes "request t tx rx = (Ok n, t', rx')" and "n \<le> length rx'"
    and "decode_padded (take n rx') = Ok \<lparr>cmd = ec, payload = st # rest\<rparr>" and "st \<noteq> ST_BAD_FRAME"
  shows "exchange request t tx rx ec =
     (if st = ST_OK then Ok n else Err (Core (Device st)), t', rx')"
proof -
  have "verdict (Ok n :: 'e + usize) rx' ec = Inr (if st = ST_OK then Ok n else Err (Core (Device st)))"
    by (rule verdict_served [OF assms(2-4)])
  with assms(1) show ?thesis
    by (simp add: exchange_def exchange_loop_Suc)
qed

section \<open>Commands as exchanges of one frame\<close>

lemma split_windows_spec:
  "tx_len + rx_len < 4294967296 \<Longrightarrow> split_windows buf tx_len rx_len =
     (if length buf < tx_len + rx_len then Err (Core (BufferTooSmall (tx_len + rx_len)))
      else Ok (take tx_len buf, take rx_len (drop tx_len buf)))"
  by (simp add: split_windows_def usize_simps slice_simps Let_def min_def drop_take)

text \<open>The result of a command from the result of its exchange: the payload behind the status byte.\<close>

definition answer :: "('e error + usize) \<Rightarrow> bytes \<Rightarrow> 'e error + bytes" where
  "answer r rx = try_bind r (\<lambda>n. case decode_padded (take n rx) of
     Ok f \<Rightarrow> Ok (tl (payload f)) | Err e \<Rightarrow> Err (Core BadFrame))"

lemma transact_spec:
  assumes "length pl \<le> 252" and "cap \<le> 252"
  shows "transact request s c pl cap =
     (if length (s_buf s) < length pl + cap + 6
      then (Err (Core (BufferTooSmall (length pl + cap + 6))), s)
      else case exchange request (s_transport s) (wire c pl)
                  (take (cap + 3) (drop (length pl + 3) (s_buf s))) (c OR RSP_FLAG) of
             (r, t', rx') \<Rightarrow>
               (answer r rx', s\<lparr>s_transport := t', s_buf := put_at 0 (wire c pl @ rx') (s_buf s)\<rparr>))"
proof (cases "length (s_buf s) < length pl + cap + 6")
  case True
  with assms show ?thesis
    by (simp add: transact_def FRAME_OVERHEAD_def usize_simps split_windows_spec Let_def)
next
  case False
  define rx where "rx = take (cap + 3) (drop (length pl + 3) (s_buf s))"
  obtain r t' rx' where ex: "exchange request (s_transport s) (wire c pl) rx (c OR RSP_FLAG) = (r, t', rx')"
    using prod_cases3 by blast
  have "try_bind r (\<lambda>rlen. try_bind (ok_or (get_to rx' rlen) (Core BadFrame)) (\<lambda>raw.
      try_bind (map_err widen (decode_padded raw)) (\<lambda>decoded.
      try_bind (ok_or (split_first (payload decoded)) (Core BadFrame)) (\<lambda>(_, rest). Ok rest)))) = answer r rx'"
  proof (cases r)
    case (Inr n)
    with exchange_loop_Ok [OF ex [unfolded exchange_unfold, unfolded Inr]] show ?thesis
      by (auto simp: answer_def get_to_def split_first_def)
  qed (simp add: answer_def)
  with False assms ex show ?thesis
    by (simp add: transact_def FRAME_OVERHEAD_def usize_simps split_windows_spec Let_def encode_spec
        rx_def [symmetric] del: widen_eq)
qed

text \<open>
  The in-place rendering of \<open>write_page\<close> is the generic command with the payload
  \<open>index, page\<close>, result, transport and buffer alike.
\<close>

definition write_payload :: "image \<Rightarrow> u16 \<Rightarrow> bytes" where
  "write_payload img index = u16_to_le_bytes index @ page_image img (unat index)"

lemma length_write_payload:
  "valid_image img \<Longrightarrow> unat index < img_ap img \<Longrightarrow> length (write_payload img index) = img_ps img + 2"
  by (simp add: write_payload_def)

lemma write_page_transact:
  fixes s :: "'t session"
  assumes v: "valid_image img" and i: "unat index < img_ap img"
  shows "write_page request s img index =
     st_bind (transact request s CMD_WRITE_PAGE (write_payload img index) ST_RSP_PAYLOAD) (\<lambda>_ s'. (Ok (), s'))"
proof -
  let ?ps = "img_ps img" and ?w = "wire CMD_WRITE_PAGE (write_payload img index)"
  have ps: "16 \<le> ?ps" "?ps \<le> 250"
    using v by (simp_all add: valid_image_def)
  have len: "length (write_payload img index) = ?ps + 2"
    using v i by (rule length_write_payload)
  have pl: "usize_wrapping_add (unat (img_page_size img)) 2 = ?ps + 2"
    "usize_wrapping_add (?ps + 2) FRAME_OVERHEAD = ?ps + 5"
    "usize_wrapping_add ST_RSP_PAYLOAD FRAME_OVERHEAD = 4"
    "usize_wrapping_sub (?ps + 5) 1 = ?ps + 4"
    using ps by (simp_all add: img_ps_def [symmetric] usize_simps FRAME_OVERHEAD_def ST_RSP_PAYLOAD_def)
  show ?thesis
  proof (cases "length (s_buf s) < ?ps + 9")
    case True
    then show ?thesis
      unfolding write_page_def Let_def pl using ps by (simp add: split_windows_spec transact_spec len ST_RSP_PAYLOAD_def)
  next
    case False
    define tx where "tx = take (?ps + 5) (s_buf s)"
    define rx where "rx = take 4 (drop (?ps + 5) (s_buf s))"
    have tx: "length tx = ?ps + 5"
      using False by (simp add: tx_def)
    have page: "page_into img index (take ?ps (drop 4 tx)) = (Ok (), page_image img (unat index))"
      using v i tx by (simp add: page_into_spec img_ap_def word_le_nat_alt not_le)
    have room: "?ps \<le> length (put_at 0 (page_image img (unat index)) (drop 4 tx))"
      using v i tx by simp
    define hp where "hp = CMD_WRITE_PAGE # word_of_nat (?ps + 2) # write_payload img index"
    have tx1: "[CMD_WRITE_PAGE, word_of_nat (?ps + 2)] @ u16_to_le_bytes index
        @ put_at 0 (page_image img (unat index)) (drop 4 tx) = hp @ drop (?ps + 4) tx"
      using v i by (simp add: hp_def write_payload_def put_at_def)
    have hp: "length hp = ?ps + 4"
      by (simp add: hp_def len)
    have tail: "length (drop (?ps + 4) tx) = 1"
      using tx by simp
    have w: "(hp @ drop (?ps + 4) tx)[?ps + 4 := crc8 hp] = ?w"
      using hp tail unfolding wire_def Let_def len hp_def [symmetric]
      by (cases "drop (?ps + 4) tx") (auto simp: list_update_append)
    have st: "st_bind (answer r rx', s') (\<lambda>_ s'. (Ok (), s')) = (try_bind r (\<lambda>_. Ok ()), s')"
      if "exchange request (s_transport s) ?w rx (CMD_WRITE_PAGE OR RSP_FLAG) = (r, t', rx')" for r t' rx' and s' :: "'t session"
    proof (cases r)
      case (Inr n)
      with exchange_loop_Ok [OF that [unfolded exchange_unfold, unfolded Inr]] show ?thesis
        by (auto simp: answer_def)
    qed (simp add: answer_def)
    obtain r t' rx' where ex: "exchange request (s_transport s) ?w rx (CMD_WRITE_PAGE OR RSP_FLAG) = (r, t', rx')"
      using prod_cases3 by blast
    have sw: "split_windows (s_buf s) (?ps + 5) 4 = Ok (tx, rx)"
      using False ps by (simp add: split_windows_spec tx_def rx_def)
    have "write_page request s img index = (try_bind r (\<lambda>_. Ok ()), s\<lparr>s_transport := t',
        s_buf := put_at 0 (?w @ rx') (s_buf s)\<rparr>)"
      unfolding write_page_def Let_def pl sw sum.case prod.case
      using ps tx page tx1 w ex hp room by (simp add: split_at_checked_def get_to_def get_at_def img_ps_def [symmetric])
    moreover have "transact request s CMD_WRITE_PAGE (write_payload img index) ST_RSP_PAYLOAD =
        (answer r rx', s\<lparr>s_transport := t', s_buf := put_at 0 (?w @ rx') (s_buf s)\<rparr>)"
      using False ps ex by (simp add: transact_spec len rx_def ST_RSP_PAYLOAD_def add.commute [of _ "img_ps img"])
    ultimately show ?thesis
      using st [OF ex] by simp
  qed
qed

section \<open>The flash sequence\<close>

text \<open>A list of commands run one after the other, up to the first failure.\<close>

fun run_script :: "('t, 'e) request_fn \<Rightarrow> 't session \<Rightarrow> (u8 \<times> bytes) list \<Rightarrow> ('e error + unit) \<times> 't session"
where
  "run_script request s [] = (Ok (), s)"
| "run_script request s ((c, pl) # script) =
     st_bind (transact request s c pl ST_RSP_PAYLOAD) (\<lambda>_ s'. run_script request s' script)"

lemma run_script_append:
  "run_script request s (xs @ ys) = st_bind (run_script request s xs) (\<lambda>_ s'. run_script request s' ys)"
  by (induction xs arbitrary: s) (auto simp: st_bind_def split: prod.splits sum.splits)

definition write_script :: "image \<Rightarrow> (u8 \<times> bytes) list" where
  "write_script img = map (\<lambda>i. (CMD_WRITE_PAGE, write_payload img i)) (pages_list (pages img))"

definition verify_payload :: "image \<Rightarrow> bytes" where
  "verify_payload img = u32_to_le_bytes (img_len img) @ u32_to_le_bytes (img_crc img)"

definition update_script :: "image \<Rightarrow> (u8 \<times> bytes) list" where
  "update_script img = (CMD_ERASE_APP, ERASE_MAGIC) # write_script img @ [(CMD_VERIFY, verify_payload img)]"

lemma pages_in_region: "index \<in> set (pages_list (pages img)) \<Longrightarrow> unat index < img_ap img"
proof -
  assume "index \<in> set (pages_list (pages img))"
  then have "unat index \<in> set (map unat (pages_list (pages img)))"
    by simp
  then show ?thesis
    unfolding pages_eq by simp
qed

lemma flash_pages_script:
  assumes v: "valid_image img" and idx: "\<forall>i \<in> set idxs. unat i < img_ap img"
  shows "(let (r, s', prog) = flash_pages request s img idxs n m in (r, s')) =
     run_script request s (map (\<lambda>i. (CMD_WRITE_PAGE, write_payload img i)) idxs)"
  using idx
proof (induction idxs arbitrary: s n)
  case (Cons i idxs)
  then have i: "unat i < img_ap img" by simp
  obtain r s1 where tr: "transact request s CMD_WRITE_PAGE (write_payload img i) ST_RSP_PAYLOAD = (r, s1)"
    using prod.exhaust by blast
  show ?case
    using Cons.IH [of s1 "u16_saturating_succ n"] Cons.prems
    by (cases r) (auto simp: write_page_transact [OF v i] tr Let_def split: prod.splits)
qed simp

text \<open>
  Progress: one call in front, then one per page written, with the number of pages done
  so far.
\<close>

lemma flash_pages_progress:
  assumes "flash_pages request s img idxs n m = (r, s', prog)" and "unat n + length idxs < 65536"
  shows "length prog \<le> length idxs \<and> prog = map (\<lambda>k. (n + word_of_nat (Suc k), m)) [0..<length prog]
     \<and> (is_ok r \<longrightarrow> length prog = length idxs)"
  using assms
proof (induction idxs arbitrary: s n prog)
  case (Cons i idxs)
  have "unat (- 1 :: u16) = 65535"
    by (simp add: unsigned_minus_1_eq_mask mask_eq_exp_minus_1)
  with Cons.prems(2) have n: "n \<noteq> - 1"
    by auto
  then have succ: "u16_saturating_succ n = n + 1"
    by (simp add: u16_saturating_succ_def)
  have "unat (n + 1) = Suc (unat n)"
    using Cons.prems(2) by (simp add: unat_word_ariths)
  then have bound: "unat (n + 1) + length idxs < 65536"
    using Cons.prems(2) by simp
  obtain q s1 where wp: "write_page request s img i = (q, s1)"
    using prod.exhaust by blast
  show ?case
  proof (cases q)
    case (Inl e)
    with Cons.prems(1) wp show ?thesis by auto
  next
    case (Inr u)
    with Cons.prems(1) wp succ obtain prog' where p: "flash_pages request s1 img idxs (n + 1) m = (r, s', prog')"
      "prog = (n + 1, m) # prog'"
      by (auto simp: Let_def split: prod.splits)
    from Cons.IH [OF p(1) bound] have ih: "length prog' \<le> length idxs"
      "prog' = map (\<lambda>k. (n + 1 + word_of_nat (Suc k), m)) [0..<length prog']"
      "is_ok r \<longrightarrow> length prog' = length idxs"
      by auto
    have "prog = map (\<lambda>k. (n + word_of_nat (Suc k), m)) [0..<length prog]"
      unfolding p(2) by (subst ih(2)) (simp add: upt_conv_Cons map_Suc_upt [symmetric] algebra_simps del: upt_Suc)
    with ih p(2) show ?thesis by simp
  qed
qed simp

definition gates :: "image \<Rightarrow> device_info \<Rightarrow> bool" where
  "gates img di \<longleftrightarrow> di_proto di = PROTO_VERSION \<and> di_page_size di = img_page_size img
     \<and> di_app_pages di = img_app_pages img"

lemma flash_script:
  assumes v: "valid_image img" and info: "info request s = (Ok di, s1)" and g: "gates img di"
  shows "(let (r, s', prog) = flash request s img in (r, s')) = run_script request s1 (update_script img)"
proof -
  obtain q s2 where er: "transact request s1 CMD_ERASE_APP ERASE_MAGIC ST_RSP_PAYLOAD = (q, s2)"
    using prod.exhaust by blast
  show ?thesis
  proof (cases q)
    case (Inl e)
    with er info g show ?thesis
      by (simp add: flash_def update_script_def gates_def)
  next
    case (Inr u)
    define m where "m = (case u16_try_from (length (pages_list (pages img))) of None \<Rightarrow> - 1 | Some n \<Rightarrow> n)"
    obtain w s3 prog where fp: "flash_pages request s2 img (pages_list (pages img)) 0 m = (w, s3, prog)"
      using prod_cases3 by blast
    have "(w, s3) = run_script request s2 (write_script img)"
      using flash_pages_script [OF v, of "pages_list (pages img)" request s2 0 m] fp pages_in_region
      unfolding write_script_def by fastforce
    then have "run_script request s1 (update_script img) =
        st_bind (w, s3) (\<lambda>_ s'. st_bind (transact request s' CMD_VERIFY (verify_payload img) ST_RSP_PAYLOAD) (\<lambda>_ s'. (Ok (), s')))"
      by (simp add: update_script_def run_script_append er Inr)
    with fp m_def er info g Inr show ?thesis
      by (cases w) (simp_all add: flash_def gates_def verify_payload_def st_bind_def
          try_bind_def split: prod.split sum.split)
  qed
qed

text \<open>All the progress calls of a successful update.\<close>

lemma flash_progress_ok:
  assumes "from_bin bs ps ap = Ok img" and "flash request s img = (Ok (), s', prog)"
  shows "prog = map (\<lambda>k. (word_of_nat k, word_of_nat (length (pages_list (pages img)))))
     [0..<Suc (length (pages_list (pages img)))]"
proof -
  let ?n = "length (pages_list (pages img))"
  have "?n = length (map unat (pages_list (pages img)))"
    by simp
  also have "\<dots> \<le> img_ap img"
    unfolding pages_eq by (metis length_filter_le diff_zero length_upt)
  finally have n: "?n < 65536"
    using unat_u16_lt [of "img_app_pages img"] by (simp add: img_ap_def)
  obtain s2 s3 prog' where fp: "flash_pages request s2 img (pages_list (pages img)) 0 (word_of_nat ?n) = (Ok (), s3, prog')"
    and prog: "prog = (0, word_of_nat ?n) # prog'"
    using assms(2) n by (auto simp: flash_def Let_def split: prod.splits sum.splits if_splits)
  have prog': "prog' = map (\<lambda>k. (word_of_nat (Suc k), word_of_nat ?n)) [0..<?n]"
    using flash_pages_progress [OF fp] n by auto
  show ?thesis
    unfolding prog prog' by (simp add: upt_conv_Cons map_Suc_upt [symmetric] del: upt_Suc)
qed

section \<open>What reaches the wire\<close>

text \<open>A script with each of its entries repeated between once and \<open>1 + RETRY_BUDGET\<close> times.\<close>

inductive retried :: "'a list \<Rightarrow> 'a list \<Rightarrow> bool" where
  retried_Nil: "retried [] []"
| retried_Cons: "1 \<le> k \<Longrightarrow> k \<le> 4 \<Longrightarrow> retried xs ys \<Longrightarrow> retried (x # xs) (replicate k x @ ys)"

lemma retried_append: "retried xs ys \<Longrightarrow> retried xs' ys' \<Longrightarrow> retried (xs @ xs') (ys @ ys')"
  by (induction rule: retried.induct) (auto intro: retried.intros)

lemma retried_single: "1 \<le> k \<Longrightarrow> k \<le> 4 \<Longrightarrow> retried [x] (replicate k x)"
  using retried_Cons [OF _ _ retried_Nil, of k x] by simp

lemma retried_first: "k \<le> 4 \<Longrightarrow> retried (take (min k 1) (x # xs)) (replicate k x)"
  by (cases k) (auto intro: retried_Nil retried_single simp del: replicate_Suc)

lemma retried_set: "retried xs ys \<Longrightarrow> set ys = set xs"
  by (induction rule: retried.induct) auto

lemma exchange_loop_logged:
  "exchange_loop (logged request) left e0 (t, log) tx rx ec =
     (case exchange_loop request left e0 t tx rx ec of (r, t', rx') \<Rightarrow>
        (r, (t', snd (fst (snd (exchange_loop (logged request) left e0 (t, log) tx rx ec)))), rx'))
   \<and> (\<exists>k \<le> left. (0 < left \<longrightarrow> 0 < k) \<and>
        snd (fst (snd (exchange_loop (logged request) left e0 (t, log) tx rx ec))) = log @ replicate k tx)"
proof (induction left arbitrary: e0 t log rx)
  case (Suc left)
  obtain q t1 rx1 where req: "request t tx rx = (q, t1, rx1)"
    using prod_cases3 by blast
  have lreq: "logged request (t, log) tx rx = (q, (t1, log @ [tx]), rx1)"
    by (simp add: logged_def req)
  show ?case
  proof (cases "verdict q rx1 ec")
    case (Inl e)
    with Suc.IH [of e t1 "log @ [tx]" rx1] obtain k where k: "k \<le> left"
      "snd (fst (snd (exchange_loop (logged request) left e (t1, log @ [tx]) tx rx1 ec))) = log @ replicate (Suc k) tx"
      by (auto simp: replicate_app_Cons_same)
    with Suc.IH [of e t1 "log @ [tx]" rx1] Inl show ?thesis
      by (auto simp: exchange_loop_Suc req lreq simp del: replicate_Suc intro!: exI [of _ "Suc k"])
  next
    case (Inr res)
    then show ?thesis
      by (auto simp: exchange_loop_Suc req lreq intro!: exI [of _ 1])
  qed
qed auto

lemma exchange_logged:
  assumes "exchange (logged request) (t, log) tx rx ec = (r, tl', rx')"
  shows "\<exists>k \<in> {1..4}. snd tl' = log @ replicate k tx \<and> exchange request t tx rx ec = (r, fst tl', rx')"
  using exchange_loop_logged [of request 4 "Core BadFrame" t log tx rx ec] assms
  by (cases tl') (auto simp: exchange_unfold split: prod.splits)

lemma transact_logged:
  fixes s :: "('t \<times> bytes list) session"
  assumes "length pl \<le> 252" "cap \<le> 252" and tr: "transact (logged request) s c pl cap = (r, s')"
  shows "\<exists>k \<le> 4. snd (s_transport s') = snd (s_transport s) @ replicate k (wire c pl) \<and> (is_ok r \<longrightarrow> 1 \<le> k)"
proof (cases "length (s_buf s) < length pl + cap + 6")
  case True
  with assms show ?thesis
    by (auto simp: transact_spec intro!: exI [of _ 0])
next
  case False
  let ?rx = "take (cap + 3) (drop (length pl + 3) (s_buf s))"
  obtain q tl' rx' where ex: "exchange (logged request) (fst (s_transport s), snd (s_transport s)) (wire c pl) ?rx
      (c OR RSP_FLAG) = (q, tl', rx')"
    using prod_cases3 by blast
  then have "snd (s_transport s') = snd tl'"
    using False assms by (auto simp: transact_spec)
  with exchange_logged [OF ex] show ?thesis
    by auto
qed

lemma run_script_logged:
  fixes s :: "('t \<times> bytes list) session"
  assumes "\<forall>(c, pl) \<in> set script. length pl \<le> 252" and "run_script (logged request) s script = (r, s')"
  shows "\<exists>m ys. m \<le> length script \<and> retried (take m (map (\<lambda>(c, pl). wire c pl) script)) ys
     \<and> snd (s_transport s') = snd (s_transport s) @ ys \<and> (is_ok r \<longrightarrow> m = length script)"
  using assms
proof (induction script arbitrary: s)
  case Nil
  then show ?case by (auto intro: retried_Nil)
next
  case (Cons entry script)
  obtain c pl where entry: "entry = (c, pl)" by fastforce
  obtain q s1 where tr: "transact (logged request) s c pl ST_RSP_PAYLOAD = (q, s1)"
    using prod.exhaust by blast
  obtain k where k: "k \<le> 4" "snd (s_transport s1) = snd (s_transport s) @ replicate k (wire c pl)"
    "is_ok q \<longrightarrow> 1 \<le> k"
    using transact_logged [OF _ _ tr] Cons.prems(1) by (auto simp: entry ST_RSP_PAYLOAD_def)
  show ?case
  proof (cases q)
    case (Inl e)
    with Cons.prems(2) tr have "r = Err e" "s' = s1"
      by (simp_all add: entry)
    with k Inl entry show ?thesis
      using retried_first [OF k(1), of "wire c pl"] by (intro exI [of _ "min k 1"]) auto
  next
    case (Inr rest)
    with Cons.prems(2) tr have "run_script (logged request) s1 script = (r, s')"
      by (simp add: entry)
    with Cons.IH [of s1] Cons.prems(1) obtain m ys where m: "m \<le> length script"
      "retried (take m (map (\<lambda>(c, pl). wire c pl) script)) ys"
      "snd (s_transport s') = snd (s_transport s1) @ ys" "is_ok r \<longrightarrow> m = length script"
      by auto
    moreover have "retried (wire c pl # take m (map (\<lambda>(c, pl). wire c pl) script)) (replicate k (wire c pl) @ ys)"
      using k Inr m(2) by (intro retried_Cons) auto
    ultimately show ?thesis
      using k by (intro exI [of _ "Suc m"] exI [of _ "replicate k (wire c pl) @ ys"]) (auto simp: entry)
  qed
qed

text \<open>The frames of a complete update, in order.\<close>

definition flash_frames :: "image \<Rightarrow> bytes list" where
  "flash_frames img = wire CMD_INFO [] # map (\<lambda>(c, pl). wire c pl) (update_script img)"

lemma update_script_small:
  assumes "valid_image img"
  shows "\<forall>(c, pl) \<in> set (update_script img). length pl \<le> 252"
  using assms
  by (auto simp: update_script_def write_script_def verify_payload_def ERASE_MAGIC_def
      length_write_payload pages_in_region valid_image_def)

lemma flash_not_gated:
  assumes "info request s = (r, s1)" and "\<And>di. r = Ok di \<Longrightarrow> \<not> gates img di"
  shows "\<exists>e. flash request s img = (Err e, s1, [])"
  using assms by (cases r) (auto simp: flash_def gates_def)

lemma flash_logged:
  fixes s :: "('t \<times> bytes list) session"
  assumes v: "valid_image img" and fl: "flash (logged request) s img = (r, s', prog)"
  shows "\<exists>m ys. m \<le> length (flash_frames img) \<and> retried (take m (flash_frames img)) ys
     \<and> snd (s_transport s') = snd (s_transport s) @ ys \<and> (is_ok r \<longrightarrow> m = length (flash_frames img))
     \<and> (1 < m \<longrightarrow> (\<exists>di s1. info (logged request) s = (Ok di, s1) \<and> gates img di))"
proof -
  obtain q s1 where inf: "info (logged request) s = (q, s1)"
    using prod.exhaust by blast
  obtain q0 where tr: "transact (logged request) s CMD_INFO [] INFO_RSP_PAYLOAD = (q0, s1)" "is_ok q \<longrightarrow> is_ok q0"
    using inf by (cases "transact (logged request) s CMD_INFO [] INFO_RSP_PAYLOAD"; cases "fst (transact (logged request) s CMD_INFO [] INFO_RSP_PAYLOAD)") (auto simp: info_def)
  obtain k where k: "k \<le> 4" "snd (s_transport s1) = snd (s_transport s) @ replicate k (wire CMD_INFO [])"
    "is_ok q \<longrightarrow> 1 \<le> k"
    using transact_logged [OF _ _ tr(1)] tr(2) by (auto simp: INFO_RSP_PAYLOAD_def)
  show ?thesis
  proof (cases "\<exists>di. q = Ok di \<and> gates img di")
    case False
    with flash_not_gated [OF inf] fl obtain e where "r = Err e" "s' = s1"
      by (metis prod.inject)
    with k show ?thesis
      using retried_first [OF k(1), of "wire CMD_INFO []"]
      by (intro exI [of _ "min k 1"]) (auto simp: flash_frames_def)
  next
    case True
    then obtain di where di: "q = Ok di" "gates img di" by blast
    then have "run_script (logged request) s1 (update_script img) = (r, s')"
      using flash_script [OF v inf [unfolded di] di(2)] fl by simp
    from run_script_logged [OF update_script_small [OF v] this] obtain m ys where m:
      "m \<le> length (update_script img)" "retried (take m (map (\<lambda>(c, pl). wire c pl) (update_script img))) ys"
      "snd (s_transport s') = snd (s_transport s1) @ ys" "is_ok r \<longrightarrow> m = length (update_script img)"
      by blast
    have "retried (take (Suc m) (flash_frames img)) (replicate k (wire CMD_INFO []) @ ys)"
      using k di m(2) by (auto simp: flash_frames_def intro!: retried_Cons)
    with m k di inf show ?thesis
      by (intro exI [of _ "Suc m"] exI [of _ "replicate k (wire CMD_INFO []) @ ys"]) (auto simp: flash_frames_def)
  qed
qed

section \<open>The frame buffer\<close>

text \<open>The errors an exchange can end with.\<close>

definition wire_error :: "'e error \<Rightarrow> bool" where
  "wire_error e \<longleftrightarrow> (\<exists>x. e = Transport x) \<or> e = Core BadFrame \<or> (\<exists>st. e = Core (Device st))"

lemma exchange_loop_Err:
  "exchange_loop request left e0 t tx rx ec = (Err e, t', rx') \<Longrightarrow> wire_error e0 \<Longrightarrow> wire_error e"
proof (induction left arbitrary: e0 t rx)
  case (Suc left)
  obtain q t1 rx1 where req: "request t tx rx = (q, t1, rx1)"
    using prod_cases3 by blast
  have "wire_error x" if "verdict q rx1 ec = Inl x \<or> verdict q rx1 ec = Inr (Err x)" for x
    using that by (auto simp: verdict_def wire_error_def split: sum.splits reject.splits)
  with Suc req show ?case
    by (cases "verdict q rx1 ec") (auto simp: exchange_loop_Suc)
qed auto

lemma answer_Err: "exchange request t tx rx ec = (r, t', rx') \<Longrightarrow> answer r rx' = Err e \<Longrightarrow> wire_error e"
proof (cases r)
  case (Inl x)
  assume "exchange request t tx rx ec = (r, t', rx')" "answer r rx' = Err e"
  with Inl show ?thesis
    by (auto simp: exchange_unfold answer_def wire_error_def dest!: exchange_loop_Err)
next
  case (Inr n)
  assume "exchange request t tx rx ec = (r, t', rx')" "answer r rx' = Err e"
  with Inr show ?thesis
    by (auto simp: exchange_unfold answer_def dest!: exchange_loop_Ok)
qed

lemma transact_Err:
  assumes "length pl \<le> 252" "cap \<le> 252" "length pl + cap + 6 \<le> length (s_buf s)"
    and "transact request s c pl cap = (r, s')" and "r = Err e"
  shows "wire_error e"
  using assms by (auto simp: transact_spec split: prod.splits dest: answer_Err)

context transport
begin

lemma exchange_length:
  assumes "exchange request t tx rx ec = (r, t', rx')"
  shows "length rx' = length rx"
proof -
  obtain k where "(t', rx') = request_times request k tx (t, rx)"
    using exchange_loop_contract [OF assms [unfolded exchange_unfold]] by auto
  then show ?thesis
    using length_request_times [of k tx "(t, rx)"] by (metis snd_conv)
qed

lemma transact_length:
  assumes "length pl \<le> 252" "cap \<le> 252" and "transact request s c pl cap = (r, s')"
  shows "length (s_buf s') = length (s_buf s)"
  using assms by (auto simp: transact_spec not_less split: if_splits prod.splits dest!: exchange_length)

text \<open>A command from its exchange, and from its first request when that is answered.\<close>

lemma transact_exchanged:
  assumes "exchange request (s_transport s) (wire c pl) (take (cap + 3) (drop (length pl + 3) (s_buf s))) (c OR RSP_FLAG) =
      (if st = ST_OK then Ok n else Err (Core (Device st)), t', rsp')"
    and "decode_padded (take n rsp') = Ok \<lparr>cmd = c OR RSP_FLAG, payload = st # rest\<rparr>"
    and pl: "length pl \<le> 252" and cap: "cap \<le> 252" and buf: "length pl + cap + 6 \<le> length (s_buf s)"
  shows "\<exists>s'. transact request s c pl cap = (if st = ST_OK then Ok rest else Err (Core (Device st)), s')
     \<and> s_transport s' = t' \<and> length (s_buf s') = length (s_buf s)"
proof -
  let ?res = "if st = ST_OK then Ok n else Err (Core (Device st))"
  have "answer ?res rsp' = (if st = ST_OK then Ok rest else Err (Core (Device st)))"
    using assms(2) by (simp add: answer_def)
  then have tr: "transact request s c pl cap = (if st = ST_OK then Ok rest else Err (Core (Device st)),
      s\<lparr>s_transport := t', s_buf := put_at 0 (wire c pl @ rsp') (s_buf s)\<rparr>)"
    using assms(1) buf by (simp add: transact_spec [OF pl cap])
  with transact_length [OF pl cap tr] show ?thesis by auto
qed

lemma transact_served:
  assumes "request (s_transport s) (wire c pl) (take (cap + 3) (drop (length pl + 3) (s_buf s))) = (Ok n, t', rsp')"
    and "n \<le> length rsp'" and "decode_padded (take n rsp') = Ok \<lparr>cmd = c OR RSP_FLAG, payload = st # rest\<rparr>"
    and "st \<noteq> ST_BAD_FRAME" and pl: "length pl \<le> 252" and cap: "cap \<le> 252" and buf: "length pl + cap + 6 \<le> length (s_buf s)"
  shows "\<exists>s'. transact request s c pl cap = (if st = ST_OK then Ok rest else Err (Core (Device st)), s')
     \<and> s_transport s' = t' \<and> length (s_buf s') = length (s_buf s)"
  using transact_exchanged [OF exchange_first [of request, OF assms(1-4)] assms(3) pl cap buf] .

lemma run_script_Err:
  assumes "\<forall>(c, pl) \<in> set script. length pl \<le> 252 \<and> length pl + 7 \<le> length (s_buf s)"
    and "run_script request s script = (Err e, s')"
  shows "wire_error e"
  using assms
proof (induction script arbitrary: s)
  case (Cons entry script)
  obtain c pl where entry: "entry = (c, pl)" by fastforce
  obtain q s1 where tr: "transact request s c pl ST_RSP_PAYLOAD = (q, s1)"
    using prod.exhaust by blast
  then have "length (s_buf s1) = length (s_buf s)"
    using Cons.prems(1) by (intro transact_length) (auto simp: entry ST_RSP_PAYLOAD_def)
  moreover have "wire_error x" if "q = Err x" for x
    using transact_Err [OF _ _ _ tr that] Cons.prems(1) by (auto simp: entry ST_RSP_PAYLOAD_def)
  ultimately show ?case
    using Cons.IH [of s1] Cons.prems tr by (cases q) (auto simp: entry)
qed simp

lemma flash_Err:
  assumes v: "valid_image img" and buf: "img_ps img + 9 \<le> length (s_buf s)"
    and fl: "flash request s img = (Err e, s', prog)"
  shows "wire_error e \<or> (\<exists>p. e = Core (ProtocolVersion p)) \<or> (\<exists>p n. e = Core (BadGeometry p n))"
proof -
  have ps: "16 \<le> img_ps img" using v by (simp add: valid_image_def)
  obtain q s1 where inf: "info request s = (q, s1)"
    using prod.exhaust by blast
  then obtain q0 where tr: "transact request s CMD_INFO [] INFO_RSP_PAYLOAD = (q0, s1)"
    by (cases "transact request s CMD_INFO [] INFO_RSP_PAYLOAD"; cases "fst (transact request s CMD_INFO [] INFO_RSP_PAYLOAD)")
      (auto simp: info_def)
  then have len: "length (s_buf s1) = length (s_buf s)"
    by (intro transact_length) (auto simp: INFO_RSP_PAYLOAD_def)
  have inf_err: "wire_error x" if "q = Err x" for x
  proof (cases q0)
    case (Inl y)
    with transact_Err [OF _ _ _ tr Inl] ps buf inf tr that show ?thesis
      by (auto simp: info_def INFO_RSP_PAYLOAD_def)
  next
    case (Inr rest)
    with inf tr that show ?thesis
      by (auto simp: info_def parse_info_def wire_error_def split: list.splits)
  qed
  show ?thesis
  proof (cases "\<exists>di. q = Ok di \<and> gates img di")
    case True
    then obtain di where di: "q = Ok di" "gates img di" by blast
    then have run: "run_script request s1 (update_script img) = (Err e, s')"
      using flash_script [OF v inf [unfolded di] di(2)] fl by simp
    have "\<forall>(c, pl) \<in> set (update_script img). length pl \<le> 252 \<and> length pl + 7 \<le> length (s_buf s1)"
      using update_script_small [OF v] buf ps v unfolding len
      by (auto simp: update_script_def write_script_def verify_payload_def ERASE_MAGIC_def
          length_write_payload pages_in_region)
    with run show ?thesis
      using run_script_Err by blast
  next
    case False
    with inf fl inf_err show ?thesis
      by (cases q) (auto simp: flash_def gates_def split: if_splits)
  qed
qed

end

section \<open>Properties\<close>

text \<open>
  C19: the retry rule. Whatever the transport does, an exchange issues between one and
  four requests, all with the same frame; every request but the last ended in a transport
  error, an undecodable response or the status \<open>ST_BAD_FRAME\<close>; it stops at the first
  other outcome and returns it, and only after the fourth failure it reports that failure.
\<close>

theorem exchange_retries:
  assumes "exchange request t tx rx ec = (r, t', rx')"
  shows "\<exists>k \<in> {1..4}. (t', rx') = request_times request k tx (t, rx)
     \<and> (\<forall>j < k - 1. \<exists>e. attempt request tx ec (request_times request j tx (t, rx)) = Inl e)
     \<and> (case attempt request tx ec (request_times request (k - 1) tx (t, rx)) of
          Inl e \<Rightarrow> k = 4 \<and> r = Err e | Inr res \<Rightarrow> r = res)"
  using exchange_loop_contract [OF assms [unfolded exchange_unfold]] by simp

text \<open>A transport that fails its first request and then answers ECHO of nothing.\<close>

definition flaky :: "(nat, unit) request_fn" where
  "flaky t req rsp =
     (if t = 0 then (Err (), 1, rsp) else (Ok 4, t + 1, put_at 0 (wire 0x86 [ST_OK]) rsp))"

lemma flaky_exchange:
  "exchange flaky 0 tx [0, 0, 0, 0] 0x86 = (Ok 4, 2, wire 0x86 [ST_OK])"
proof -
  have "verdict (Ok 4 :: unit + usize) (wire 0x86 [ST_OK]) 0x86 = Inr (Ok 4)"
    by (simp add: verdict_def validate_cases)
  moreover have "verdict (Err () :: unit + usize) rx ec = Inl (Transport ())" for rx ec
    by (simp add: verdict_def)
  ultimately show ?thesis
    by (simp add: exchange_unfold exchange_loop_numeral flaky_def put_at_def drop_Cons' numeral_2_eq_2)
qed

theorem exchange_retries_witness:
  "\<exists>k \<in> {1..4}. (2, wire 0x86 [ST_OK]) = request_times flaky k [1] (0, [0, 0, 0, 0])
     \<and> (\<forall>j < k - 1. \<exists>e. attempt flaky [1] 0x86 (request_times flaky j [1] (0, [0, 0, 0, 0])) = Inl e)
     \<and> (case attempt flaky [1] 0x86 (request_times flaky (k - 1) [1] (0, [0, 0, 0, 0])) of
          Inl e \<Rightarrow> k = 4 \<and> (Ok 4 :: unit error + usize) = Err e | Inr res \<Rightarrow> Ok 4 = res)"
  by (rule exchange_retries [OF flaky_exchange])

text \<open>
  C28: an accepted response is genuine. When an exchange succeeds, the reported length
  lies inside the receive window and the window holds, up to \<open>0xFF\<close> filler, one frame
  with the expected response command and a payload that starts with \<open>ST_OK\<close>.
\<close>

theorem exchange_accepts_only_valid:
  assumes "exchange request t tx rx ec = (Ok n, t', rx')"
  shows "n \<le> length rx' \<and> (\<exists>rest k. length rest \<le> 251 \<and> take n rx' = wire ec (ST_OK # rest) @ replicate k 0xFF)"
  using exchange_loop_Ok [OF assms [unfolded exchange_unfold]] by (auto simp: decode_padded_iff)

theorem exchange_accepts_only_valid_witness:
  "(4 :: nat) \<le> length (wire 0x86 [ST_OK])
     \<and> (\<exists>rest k. length rest \<le> 251 \<and> take 4 (wire 0x86 [ST_OK]) = wire 0x86 (ST_OK # rest) @ replicate k 0xFF)"
  using exchange_accepts_only_valid [OF flaky_exchange] by simp

text \<open>
  C17: the trace of an update. For an image that construction accepted, whatever the
  transport does: the requests that \<open>flash\<close> hands to it are a prefix of the sequence INFO,
  ERASE with its magic, one WRITE per page of \<open>pages\<close> in ascending order with exactly
  that page's bytes, VERIFY with length and CRC, each repeated one to four times; all of
  it when \<open>flash\<close> succeeds; and nothing beyond INFO unless the device reported protocol
  version 1 and the image's page size and page count.
\<close>

theorem flash_trace:
  fixes t :: 't
  assumes "from_bin bs ps ap = Ok img"
    and "flash (logged request) (session_new (t, []) buf) img = (r, s', prog)"
  shows "\<exists>m. m \<le> length (flash_frames img)
     \<and> retried (take m (flash_frames img)) (snd (into_transport s'))
     \<and> (is_ok r \<longrightarrow> m = length (flash_frames img))
     \<and> (1 < m \<longrightarrow> (\<exists>di s1. info (logged request) (session_new (t, []) buf) = (Ok di, s1)
          \<and> di_proto di = 1 \<and> di_page_size di = ps \<and> di_app_pages di = ap))"
  using flash_logged [OF _ assms(2)] from_bin_valid [OF assms(1)]
  by (auto simp: session_new_def into_transport_def gates_def PROTO_VERSION_def)

text \<open>A transport with nobody at the other end: every request fails.\<close>

definition dead_request :: "(unit, unit) request_fn" where
  "dead_request t req rsp = (Err (), t, rsp)"

interpretation dead: transport dead_request
  by unfold_locales (simp add: dead_request_def)

theorem flash_trace_witness:
  "\<exists>m. m \<le> length (flash_frames demo_image)
     \<and> retried (take m (flash_frames demo_image))
         (snd (into_transport (fst (snd (flash (logged dead_request) (session_new ((), []) (replicate 30 0)) demo_image)))))"
proof -
  obtain r s' prog where f: "flash (logged dead_request) (session_new ((), []) (replicate 30 0)) demo_image = (r, s', prog)"
    using prod_cases3 by blast
  from flash_trace [OF demo_image_from_bin f] f show ?thesis by auto
qed

text \<open>
  C40: a frame buffer of \<open>page_size + 9\<close> bytes is enough for a whole update over any
  transport, so the documented 320 bytes are enough for every geometry: \<open>flash\<close> then
  fails only with a transport error, a bad frame, a device status, or one of its two gates,
  never for want of buffer space.
\<close>

theorem flash_buffer_suffices:
  assumes "transport request" and "from_bin bs ps ap = Ok img" and "unat ps + 9 \<le> length buf"
    and "flash request (session_new t buf) img = (Err e, s', prog)"
  shows "(\<exists>x. e = Transport x) \<or> e = Core BadFrame \<or> (\<exists>st. e = Core (Device st))
     \<or> (\<exists>p. e = Core (ProtocolVersion p)) \<or> (\<exists>p n. e = Core (BadGeometry p n))"
  using transport.flash_Err [OF assms(1) _ _ assms(4)] from_bin_valid [OF assms(2)] assms(3)
  by (auto simp: session_new_def img_ps_def wire_error_def)

theorem flash_buffer_suffices_witness:
  "\<exists>e s' prog. flash dead_request (session_new () (replicate 320 0)) demo_image = (Err e, s', prog)
     \<and> ((\<exists>x. e = Transport x) \<or> e = Core BadFrame \<or> (\<exists>st. e = Core (Device st))
        \<or> (\<exists>p. e = Core (ProtocolVersion p)) \<or> (\<exists>p n. e = Core (BadGeometry p n)))"
proof -
  have "exchange dead_request () tx rx ec = (Err (Transport ()), (), rx)" for tx rx ec
    by (simp add: exchange_unfold exchange_loop_numeral exchange_loop_Suc dead_request_def verdict_def)
  then have "fst (info dead_request (session_new () (replicate 320 0))) = Err (Transport ())"
    by (simp add: info_def transact_spec INFO_RSP_PAYLOAD_def session_new_def answer_def)
  then obtain s' where f: "flash dead_request (session_new () (replicate 320 0)) demo_image = (Err (Transport ()), s', [])"
    by (cases "info dead_request (session_new () (replicate 320 0))") (auto simp: flash_def)
  from flash_buffer_suffices [OF dead.transport_axioms demo_image_from_bin _ f] f show ?thesis
    by auto
qed

text \<open>
  Rendering a page in place is the generic command. For every page of an image that
  construction accepted, \<open>write_page\<close>, which builds header, page and CRC directly in the
  transmit window, has the result, the transport and the buffer that encoding the payload
  \<open>index, page\<close> with \<open>transact\<close> would have, for every transport and every buffer.
\<close>

lemma write_page_is_transact:
  assumes "from_bin bs ps ap = Ok img" and "unat index < unat ap"
  shows "write_page request s img index =
     st_bind (transact request s CMD_WRITE_PAGE
       (u16_to_le_bytes index @ take (unat ps) (drop (unat index * unat ps) (region_image img))) 1)
       (\<lambda>_ s'. (Ok (), s'))"
  using write_page_transact [of img index request s] from_bin_valid [OF assms(1)] assms(2)
  by (simp add: img_ap_def img_ps_def write_payload_def page_image_def ST_RSP_PAYLOAD_def)

end
