(* ===== verification/Stream_Scanner.thy ===== *)
theory Stream_Scanner
  imports Frame
begin

text \<open>
  The byte-stream receive scanner of \<^verbatim>\<open>updater-core/src/stream.rs\<close>: the two-state
  machine that hunts for the sync byte and then assembles one frame driven by its LEN
  byte. Shown: the state invariant, that a completed frame is always one that
  \<open>decode\<close> accepts and that it was on the wire byte for byte, that a frame behind
  sync-free garbage is found at its last byte, and that no input can keep the scanner
  inside a frame forever.
\<close>

section \<open>The scanner\<close>

definition SYNC :: u8 where "SYNC = 0x7E"

datatype scan = Hunt | Frame | Done usize | Dropped

record rx_scanner =
  sc_n :: usize
  sc_in_frame :: bool

definition scanner_new :: rx_scanner where
  "scanner_new = \<lparr>sc_n = 0, sc_in_frame = False\<rparr>"

definition scanner_reset :: "rx_scanner \<Rightarrow> rx_scanner" where
  "scanner_reset sc = sc\<lparr>sc_n := 0, sc_in_frame := False\<rparr>"

text \<open>\<open>push\<close> takes the scanner, one byte and the caller's buffer, and returns the outcome with both.\<close>

definition push :: "rx_scanner \<Rightarrow> u8 \<Rightarrow> bytes \<Rightarrow> scan \<times> rx_scanner \<times> bytes" where
  "push sc byte buf =
     (if \<not> sc_in_frame sc then
        if byte = SYNC \<and> length buf \<ge> FRAME_OVERHEAD
        then (Frame, sc\<lparr>sc_in_frame := True, sc_n := 0\<rparr>, buf)
        else (Hunt, sc, buf)
      else if \<not> sc_n sc < length buf then (Dropped, scanner_reset sc, buf)
      else
        let buf = buf[sc_n sc := byte];
            sc = sc\<lparr>sc_n := usize_wrapping_add (sc_n sc) 1\<rparr>
        in
        if sc_n sc < 2 then (Frame, sc, buf)
        else case get_at buf 1 of
          None \<Rightarrow> (Dropped, scanner_reset sc, buf)
        | Some len_byte \<Rightarrow>
            let declared = unat len_byte;
                total = usize_wrapping_add declared FRAME_OVERHEAD
            in
            if declared > PAYLOAD_MAX \<or> total > length buf then (Dropped, scanner_reset sc, buf)
            else if sc_n sc < total then (Frame, sc, buf)
            else
              let sc = scanner_reset sc in
              case get_to buf total of
                None \<Rightarrow> (Dropped, sc, buf)
              | Some raw \<Rightarrow> if is_ok (decode raw) then (Done total, sc, buf) else (Dropped, sc, buf))"

text \<open>A run of pushes over a received byte sequence, as every stream transport performs it.\<close>

fun feed :: "rx_scanner \<Rightarrow> bytes \<Rightarrow> bytes \<Rightarrow> scan list \<times> rx_scanner \<times> bytes" where
  "feed sc [] buf = ([], sc, buf)"
| "feed sc (b # bs) buf =
     (let (r, sc', buf') = push sc b buf; (rs, sc'', buf'') = feed sc' bs buf' in (r # rs, sc'', buf''))"

lemma wire_nth_Suc_0 [simp]: "wire c pl ! Suc 0 = word_of_nat (length pl)"
  by (simp add: wire_crc)

section \<open>One push\<close>

lemma FRAME_OVERHEAD_eq [simp]: "FRAME_OVERHEAD = 3"
  by (simp add: FRAME_OVERHEAD_def)

lemma scanner_reset_simps [simp]:
  "sc_in_frame (scanner_reset sc) = False" "sc_n (scanner_reset sc) = 0"
  by (simp_all add: scanner_reset_def)

lemma push_hunting:
  "\<not> sc_in_frame sc \<Longrightarrow> push sc byte buf =
     (if byte = SYNC \<and> 3 \<le> length buf then (Frame, sc\<lparr>sc_in_frame := True, sc_n := 0\<rparr>, buf)
      else (Hunt, sc, buf))"
  by (simp add: push_def)

lemma length_push: "push sc byte buf = (r, sc', buf') \<Longrightarrow> length buf' = length buf"
  by (auto simp: push_def Let_def slice_simps split: if_splits)

text \<open>The state invariant between pushes of one frame into one buffer.\<close>

definition scanner_inv :: "rx_scanner \<Rightarrow> bytes \<Rightarrow> bool" where
  "scanner_inv sc buf \<longleftrightarrow>
     (if sc_in_frame sc then
        3 \<le> length buf \<and> sc_n sc < length buf \<and> sc_n sc < 255 \<and>
        (2 \<le> sc_n sc \<longrightarrow>
           unat (buf ! 1) \<le> 252 \<and> unat (buf ! 1) + 3 \<le> length buf \<and> sc_n sc < unat (buf ! 1) + 3)
      else sc_n sc = 0)"

lemma scanner_inv_new [simp]: "scanner_inv scanner_new buf"
  by (simp add: scanner_inv_def scanner_new_def)

lemma scanner_inv_reset [simp]: "scanner_inv (scanner_reset sc) buf"
  by (simp add: scanner_inv_def)

text \<open>Inside the invariant a push in a frame is one of five, and no defensive arm is taken.\<close>

lemma push_in_frame:
  assumes inv: "scanner_inv sc buf" and fr: "sc_in_frame sc"
  shows "push sc byte buf =
     (let n = sc_n sc; buf1 = buf[n := byte] in
      if n = 0 then (Frame, sc\<lparr>sc_n := 1\<rparr>, buf1)
      else if 252 < unat (buf1 ! 1) \<or> length buf < unat (buf1 ! 1) + 3
      then (Dropped, scanner_reset sc, buf1)
      else if Suc n < unat (buf1 ! 1) + 3 then (Frame, sc\<lparr>sc_n := Suc n\<rparr>, buf1)
      else if is_ok (decode (take (unat (buf1 ! 1) + 3) buf1))
      then (Done (unat (buf1 ! 1) + 3), scanner_reset sc, buf1)
      else (Dropped, scanner_reset sc, buf1))"
proof -
  have b: "sc_n sc < length buf" "sc_n sc < 255" "3 \<le> length buf"
    using inv fr by (auto simp: scanner_inv_def)
  then have "usize_wrapping_add (sc_n sc) 1 = Suc (sc_n sc)"
    by (simp add: usize_simps)
  moreover have "get_at (buf[sc_n sc := byte]) 1 = Some (buf[sc_n sc := byte] ! 1)"
    using b by (simp add: get_at_def)
  moreover have "scanner_reset (sc\<lparr>sc_n := k\<rparr>) = scanner_reset sc" for k
    by (simp add: scanner_reset_def)
  ultimately show ?thesis
    using b fr unfolding push_def Let_def by (auto simp: usize_simps get_to_def nth_list_update)
qed

lemma push_inv:
  assumes inv: "scanner_inv sc buf" and p: "push sc byte buf = (r, sc', buf')"
  shows "scanner_inv sc' buf'"
proof (cases "sc_in_frame sc")
  case False
  with inv p show ?thesis
    by (auto simp: push_hunting scanner_inv_def split: if_splits)
next
  case True
  with inv have n: "sc_n sc < length buf" "sc_n sc < 255" "3 \<le> length buf"
    and two: "2 \<le> sc_n sc \<Longrightarrow> unat (buf ! 1) \<le> 252 \<and> sc_n sc < unat (buf ! 1) + 3"
    by (auto simp: scanner_inv_def)
  from p True n two show ?thesis
    unfolding push_in_frame [OF inv True] Let_def
    by (auto simp: scanner_inv_def nth_list_update split: if_splits)
qed

lemma feed_inv: "scanner_inv sc buf \<Longrightarrow> feed sc bs buf = (rs, sc', buf') \<Longrightarrow> scanner_inv sc' buf'"
  by (induction bs arbitrary: sc buf rs) (auto split: prod.splits dest: push_inv)

lemma push_Done:
  assumes "push sc byte buf = (Done len, sc', buf')"
  shows "\<exists>f. decode (take len buf') = Ok f \<and> len = length (payload f) + 3 \<and> len \<le> length buf' \<and>
     sc' = scanner_reset sc"
proof -
  from assms have ok: "is_ok (decode (take len buf'))" and len: "len \<le> length buf'"
    and sc': "sc' = scanner_reset sc"
    by (auto simp: push_def Let_def slice_simps scanner_reset_def split: if_splits)
  then obtain f where f: "decode (take len buf') = Ok f"
    by (auto simp: is_ok_iff)
  then have "length (take len buf') = length (payload f) + 3"
    by (simp add: decode_iff)
  with f len sc' show ?thesis
    by auto
qed

text \<open>
  No wedge: every push that stays inside a frame lowers this potential, in every state,
  reachable or not, and with every buffer.
\<close>

definition scan_pot :: "rx_scanner \<Rightarrow> nat" where
  "scan_pot sc = (if \<not> sc_in_frame sc then 300 else if sc_n sc \<le> 258 then 258 - sc_n sc else 299)"

lemma scan_pot_le: "scan_pot sc \<le> 300"
  by (auto simp: scan_pot_def)

lemma push_Frame_pot: "push sc byte buf = (Frame, sc', buf') \<Longrightarrow> scan_pot sc' < scan_pot sc"
  by (auto simp: push_def Let_def slice_simps scan_pot_def usize_simps split: if_splits)

definition is_done :: "scan \<Rightarrow> bool" where
  "is_done r \<longleftrightarrow> (case r of Done _ \<Rightarrow> True | _ \<Rightarrow> False)"

section \<open>Runs\<close>

lemma feed_append:
  "feed sc (xs @ ys) buf =
     (let (rs, sc', buf') = feed sc xs buf; (rs', sc'', buf'') = feed sc' ys buf'
      in (rs @ rs', sc'', buf''))"
  by (induction xs arbitrary: sc buf) (auto simp: Let_def split: prod.splits)

lemma length_feed: "feed sc bs buf = (rs, sc', buf') \<Longrightarrow> length rs = length bs \<and> length buf' = length buf"
  by (induction bs arbitrary: sc buf rs) (auto split: prod.splits dest: length_push)

lemma feed_garbage:
  "\<not> sc_in_frame sc \<Longrightarrow> SYNC \<notin> set g \<Longrightarrow> feed sc g buf = (replicate (length g) Hunt, sc, buf)"
  by (induction g) (auto simp: push_hunting)

text \<open>While the bytes of a fitting frame arrive, the buffer holds the ones seen so far.\<close>

lemma feed_frame_bytes:
  assumes len: "length pl \<le> 252" "length pl + 3 \<le> length buf" and k: "k < length pl + 3"
    and fr: "sc_in_frame sc" "sc_n sc = 0"
  shows "feed sc (take k (wire c pl)) buf =
     (replicate k Frame, sc\<lparr>sc_n := k\<rparr>, take k (wire c pl) @ drop k buf)"
  using k
proof (induction k)
  case 0
  with fr show ?case by (cases sc) simp
next
  case (Suc k)
  let ?w = "wire c pl" and ?sc = "sc\<lparr>sc_n := k\<rparr>"
  let ?buf = "take k ?w @ drop k buf"
  have take: "take (Suc k) ?w = take k ?w @ [?w ! k]"
    using Suc.prems by (simp add: take_Suc_conv_app_nth)
  have upd: "?buf[k := ?w ! k] = take (Suc k) ?w @ drop (Suc k) buf"
    using Suc.prems len unfolding take
    by (simp add: list_update_append min_def flip: Cons_nth_drop_Suc)
  have at1: "?buf[k := ?w ! k] ! 1 = word_of_nat (length pl)" if "1 \<le> k"
    using that Suc.prems unfolding upd by (simp add: nth_append)
  have inv: "scanner_inv ?sc ?buf"
    using Suc.prems len fr by (auto simp: scanner_inv_def nth_append)
  have "push ?sc (?w ! k) ?buf = (Frame, sc\<lparr>sc_n := Suc k\<rparr>, take (Suc k) ?w @ drop (Suc k) buf)"
    unfolding push_in_frame [OF inv, simplified, OF fr(1)] Let_def
    using Suc.prems len at1 upd by (auto simp: Suc_le_eq)
  then show ?case
    unfolding take feed_append using Suc by (simp add: replicate_append_same)
qed

lemma feed_frame:
  assumes len: "length pl \<le> 252" "length pl + 3 \<le> length buf"
    and fr: "sc_in_frame sc" "sc_n sc = 0"
  shows "feed sc (wire c pl) buf =
     (replicate (length pl + 2) Frame @ [Done (length pl + 3)], scanner_reset sc,
      wire c pl @ drop (length pl + 3) buf)"
proof -
  let ?w = "wire c pl" and ?k = "length pl + 2"
  let ?sc = "sc\<lparr>sc_n := ?k\<rparr>" and ?buf = "take ?k ?w @ drop ?k buf"
  have w: "?w = take ?k ?w @ [?w ! ?k]"
    using take_Suc_conv_app_nth [of ?k ?w] by simp
  have upd: "?buf[?k := ?w ! ?k] = ?w @ drop (length pl + 3) buf"
  proof -
    have "?buf[?k := ?w ! ?k] = (take ?k ?w @ [?w ! ?k]) @ drop (length pl + 3) buf"
      using len by (simp add: list_update_append min_def eval_nat_numeral flip: Cons_nth_drop_Suc)
    then show ?thesis using w by simp
  qed
  have fr': "sc_in_frame ?sc"
    using fr by simp
  have inv: "scanner_inv ?sc ?buf"
    using len fr by (auto simp: scanner_inv_def nth_append)
  have "push ?sc (?w ! ?k) ?buf = (Done (length pl + 3), scanner_reset sc, ?w @ drop (length pl + 3) buf)"
    unfolding push_in_frame [OF inv fr'] Let_def
    using len upd by (simp add: scanner_reset_def nth_append numeral_3_eq_3)
  moreover have "feed sc ?w buf = feed sc (take ?k ?w @ [?w ! ?k]) buf"
    using w by simp
  ultimately show ?thesis
    unfolding feed_append using feed_frame_bytes [OF len _ fr, of ?k c] by simp
qed


section \<open>Whatever arrives\<close>

text \<open>Inside a frame, the buffer holds the bytes received since the sync byte, in order.\<close>

definition seen :: "rx_scanner \<Rightarrow> bytes \<Rightarrow> bytes \<Rightarrow> bool" where
  "seen sc buf bs \<longleftrightarrow> (sc_in_frame sc \<longrightarrow> (\<exists>pre. bs = pre @ SYNC # take (sc_n sc) buf))"

lemma push_seen:
  assumes inv: "scanner_inv sc buf" and s: "seen sc buf bs" and p: "push sc b buf = (r, sc', buf')"
  shows "seen sc' buf' (bs @ [b])"
    and "r = Done len \<Longrightarrow> \<exists>pre. bs @ [b] = pre @ SYNC # take len buf'"
proof -
  have hunting: "seen sc' buf' (bs @ [b]) \<and> r \<noteq> Done len" if "\<not> sc_in_frame sc"
    using that p by (auto simp: push_hunting seen_def split: if_splits)
  have in_frame: "seen sc' buf' (bs @ [b]) \<and> (r = Done len \<longrightarrow> (\<exists>pre. bs @ [b] = pre @ SYNC # take len buf'))"
    if fr: "sc_in_frame sc"
  proof -
    from s fr obtain pre where bs: "bs = pre @ SYNC # take (sc_n sc) buf"
      by (auto simp: seen_def)
    have n: "sc_n sc < length buf" "sc_n sc < 255"
      using inv fr by (auto simp: scanner_inv_def)
    then have bsb: "bs @ [b] = pre @ SYNC # take (Suc (sc_n sc)) (buf[sc_n sc := b])"
      unfolding bs by (simp add: take_Suc_conv_app_nth)
    define l where "l = unat (buf[sc_n sc := b] ! 1)"
    have full: "l + 3 = Suc (sc_n sc)" if "0 < sc_n sc" "\<not> Suc (sc_n sc) < l + 3"
    proof (cases "sc_n sc = 1")
      case False
      with that inv fr show ?thesis by (auto simp: scanner_inv_def l_def)
    qed (use that in simp)
    have "\<exists>pre. bs @ [b] = pre @ SYNC # take (Suc (sc_n sc)) (buf[sc_n sc := b])"
      using bsb by blast
    then show ?thesis
      using p full unfolding push_in_frame [OF inv fr] Let_def l_def [symmetric]
      by (clarsimp simp: seen_def split: if_splits; auto simp: numeral_3_eq_3)
  qed
  from hunting in_frame show "seen sc' buf' (bs @ [b])"
    and "r = Done len \<Longrightarrow> \<exists>pre. bs @ [b] = pre @ SYNC # take len buf'"
    by (cases "sc_in_frame sc"; blast)+
qed

lemma feed_seen: "feed scanner_new bs buf = (rs, sc', buf') \<Longrightarrow> seen sc' buf' bs"
proof (induction bs arbitrary: rs sc' buf' rule: rev_induct)
  case Nil
  then show ?case by (auto simp: seen_def scanner_new_def)
next
  case (snoc b bs)
  obtain rs0 sc0 buf0 where f: "feed scanner_new bs buf = (rs0, sc0, buf0)"
    using prod_cases3 by blast
  with snoc.prems obtain r where "push sc0 b buf0 = (r, sc', buf')"
    by (auto simp: feed_append split: prod.splits)
  with feed_inv [OF scanner_inv_new f] snoc.IH [OF f] show ?case
    by (rule push_seen(1))
qed

lemma feed_frames_bounded:
  "feed sc bs buf = (replicate (length bs) Frame, sc', buf') \<Longrightarrow> length bs + scan_pot sc' \<le> scan_pot sc"
proof (induction bs arbitrary: sc buf)
  case (Cons b bs)
  obtain r sc1 buf1 where p: "push sc b buf = (r, sc1, buf1)"
    using prod_cases3 by blast
  with Cons.prems have "r = Frame" and "feed sc1 bs buf1 = (replicate (length bs) Frame, sc', buf')"
    by (auto split: prod.splits)
  with Cons.IH p push_Frame_pot show ?case
    by fastforce
qed auto

lemma feed_found:
  assumes "SYNC \<notin> set g" and "length pl \<le> 252" and "length pl + 3 \<le> length buf"
  shows "feed scanner_new (g @ SYNC # wire c pl) buf =
     (replicate (length g) Hunt @ replicate (length pl + 3) Frame @ [Done (length pl + 3)],
      scanner_new, wire c pl @ drop (length pl + 3) buf)"
proof -
  have sync: "push scanner_new SYNC buf = (Frame, scanner_new\<lparr>sc_in_frame := True, sc_n := 0\<rparr>, buf)"
    using assms(3) by (simp add: push_hunting scanner_new_def)
  have "feed (scanner_new\<lparr>sc_in_frame := True, sc_n := 0\<rparr>) (wire c pl) buf =
     (replicate (length pl + 2) Frame @ [Done (length pl + 3)], scanner_new, wire c pl @ drop (length pl + 3) buf)"
    using feed_frame [OF assms(2,3), of "scanner_new\<lparr>sc_in_frame := True, sc_n := 0\<rparr>"]
    by (simp add: scanner_reset_def scanner_new_def)
  then show ?thesis
    using feed_garbage [OF _ assms(1), of scanner_new buf] sync
    by (simp add: feed_append scanner_new_def eval_nat_numeral)
qed

section \<open>Properties\<close>

text \<open>
  C16: soundness of the scanner. Whatever byte sequence a link delivers to a fresh
  scanner, when a push answers \<open>Done(len)\<close> the sequence ends in the sync byte
  followed by exactly the \<open>len\<close> bytes the buffer holds, \<open>decode\<close> accepts these
  bytes, and the scanner is back in its initial state.
\<close>

theorem scanner_sound:
  assumes "feed scanner_new bs buf = (rs @ [Done len], sc', buf')"
  shows "(\<exists>pre. bs = pre @ SYNC # take len buf') \<and> len \<le> length buf' \<and> length buf' = length buf
     \<and> (\<exists>f. decode (take len buf') = Ok f \<and> len = length (payload f) + 3)
     \<and> sc' = scanner_new"
proof -
  have "bs \<noteq> []" using assms by auto
  then obtain bs0 b where bs: "bs = bs0 @ [b]"
    by (metis rev_exhaust)
  obtain rs0 sc0 buf0 where f: "feed scanner_new bs0 buf = (rs0, sc0, buf0)"
    using prod_cases3 by blast
  from assms bs f have p: "push sc0 b buf0 = (Done len, sc', buf')"
    by (auto simp: feed_append split: prod.splits)
  note inv = feed_inv [OF scanner_inv_new f]
  have "\<exists>pre. bs = pre @ SYNC # take len buf'"
    using push_seen(2) [OF inv feed_seen [OF f] p] bs by blast
  moreover have "sc' = scanner_new"
    using push_Done [OF p] by (auto simp: scanner_reset_def scanner_new_def)
  ultimately show ?thesis
    using push_Done [OF p] length_feed [OF assms] by auto
qed

theorem scanner_sound_witness:
  "(\<exists>pre. [0] @ SYNC # wire 6 [] = pre @ SYNC # take 3 (wire 6 [] @ [9])) \<and> (3 :: nat) \<le> 4
     \<and> (\<exists>f. decode (take 3 (wire 6 [] @ [9])) = Ok f \<and> 3 = length (payload f) + 3)"
proof -
  have "feed scanner_new ([0] @ SYNC # wire 6 []) [1, 2, 3, 9] =
     ((replicate 1 Hunt @ replicate 3 Frame) @ [Done 3], scanner_new, wire 6 [] @ [9])"
    using feed_found [of "[0]" "[]" "[1, 2, 3, 9]" 6] by (simp add: SYNC_def)
  from scanner_sound [OF this] show ?thesis by simp
qed

text \<open>
  C29: completeness of the scanner. Behind any garbage without a sync byte, a sync byte
  and a frame that fits the buffer are answered with \<open>Hunt\<close> for every garbage byte,
  \<open>Frame\<close> from the sync byte to the last byte but one, and \<open>Done\<close> exactly at the
  last byte; the frame's bytes are then the front of the buffer, the rest of the buffer
  is untouched, and the next frame is scanned from the same initial state.
\<close>

theorem scanner_complete:
  assumes "SYNC \<notin> set g" and "length pl \<le> 252" and "length pl + 3 \<le> length buf"
  shows "feed scanner_new (g @ SYNC # wire c pl) buf =
     (replicate (length g) Hunt @ replicate (length pl + 3) Frame @ [Done (length pl + 3)],
      scanner_new, wire c pl @ drop (length pl + 3) buf)"
  using assms by (rule feed_found)

theorem scanner_complete_witness:
  "feed scanner_new ([0, 0x55] @ SYNC # wire 6 [0x7E]) [1, 2, 3, 4, 5] =
     ([Hunt, Hunt, Frame, Frame, Frame, Frame, Done 4], scanner_new, wire 6 [0x7E] @ [5])"
  using scanner_complete [of "[0, 0x55]" "[0x7E]" "[1, 2, 3, 4, 5]" 6]
  by (simp add: SYNC_def replicate_numeral)

text \<open>
  C38: no wedge. From every state of the scanner, reachable or not, and with every
  buffer, at most 300 consecutive pushes answer \<open>Frame\<close>: any longer input contains a
  push that finishes, drops or hunts, so no byte stream keeps the scanner inside a frame.
\<close>

theorem scanner_never_wedges:
  assumes "feed sc bs buf = (rs, sc', buf')" and "300 < length bs"
  shows "\<exists>r \<in> set rs. r \<noteq> Frame"
proof (rule ccontr)
  assume "\<not> ?thesis"
  then have "rs = replicate (length bs) Frame"
    using length_feed [OF assms(1)] by (auto intro!: replicate_eqI)
  with assms feed_frames_bounded [of sc bs buf sc' buf'] scan_pot_le [of sc] show False
    by simp
qed

theorem scanner_never_wedges_witness:
  "\<exists>r \<in> set (fst (feed scanner_new (replicate 301 SYNC) [0, 0, 0])). r \<noteq> Frame"
proof -
  obtain rs sc' buf' where f: "feed scanner_new (replicate 301 SYNC) [0, 0, 0] = (rs, sc', buf')"
    using prod_cases3 by blast
  from scanner_never_wedges [OF f] f show ?thesis by simp
qed

end
