(* ===== verification/Polling.thy ===== *)
theory Polling
  imports Transport_If Stream_Scanner
begin

text \<open>
  What the adapters of \<^verbatim>\<open>updater-eh\<close> share: the default budgets of
  \<^verbatim>\<open>lib.rs\<close>, the counter that every polling loop spends, and the contract of the
  byte-stream transports.
\<close>

definition DEFAULT_POLL_ATTEMPTS :: u32 where "DEFAULT_POLL_ATTEMPTS = 200"

definition DEFAULT_POLL_INTERVAL_NS :: u32 where "DEFAULT_POLL_INTERVAL_NS = 5000000"

definition DEFAULT_SCAN_LIMIT :: u32 where "DEFAULT_SCAN_LIMIT = 4096"

text \<open>
  A buffer that a driver writes through \<open>&mut [u8]\<close>: the driver's bytes replace the
  front of the buffer, and its length stays.
\<close>

fun overwrite :: "'a list \<Rightarrow> 'a list \<Rightarrow> 'a list" where
  "overwrite (d # ds) (s # ss) = s # overwrite ds ss"
| "overwrite ds [] = ds"
| "overwrite [] ss = []"

lemma overwrite_eq: "overwrite buf data = take (length buf) data @ drop (length data) buf"
  by (induction buf data rule: overwrite.induct) auto

lemma length_overwrite [simp]: "length (overwrite buf data) = length buf"
  by (simp add: overwrite_eq)

section \<open>Budgets\<close>

text \<open>
  A loop that counts with \<open>wrapping_add(1)\<close> and leaves when the count reaches its limit:
  what it has left, from every start value.
\<close>

definition budget_left :: "u32 \<Rightarrow> u32 \<Rightarrow> nat" where
  "budget_left limit c = (if c < limit then unat limit - unat c else Suc (unat limit))"

lemma word_succ_unat:
  fixes c limit :: "'a::len word"
  assumes "c < limit"
  shows "unat (c + 1) = Suc (unat c)"
proof -
  have "unat c < unat limit" "unat limit < 2 ^ LENGTH('a)"
    using assms by (simp_all add: word_less_nat_alt)
  then have "unat c + 1 < 2 ^ LENGTH('a)"
    by linarith
  then show ?thesis
    by (simp add: unat_word_ariths)
qed

lemma budget_left_step [simp]:
  assumes "\<not> limit \<le> c + 1"
  shows "budget_left limit (c + 1) < budget_left limit c"
proof (cases "c < limit")
  case True
  then have "unat (c + 1) = Suc (unat c)" "unat c < unat limit"
    by (simp_all add: word_succ_unat word_less_nat_alt)
  with True assms show ?thesis
    by (simp add: budget_left_def not_le)
next
  case False
  with assms show ?thesis
    by (simp add: budget_left_def not_le less_Suc_eq_le)
qed

text \<open>
  A scan that spends one unit of its budget on every byte outside a frame: what it has
  left, counting the bytes the scanner may still take inside a frame.
\<close>

definition scan_budget :: "u32 \<Rightarrow> u32 \<Rightarrow> rx_scanner \<Rightarrow> nat" where
  "scan_budget limit c sc = budget_left limit c * 301 + scan_pot sc"

lemma scan_budget_pos: "0 < limit \<Longrightarrow> 1 \<le> scan_budget limit c sc"
  by (auto simp: scan_budget_def budget_left_def word_less_nat_alt Suc_le_eq)

lemma scan_budget_spend: "\<not> limit \<le> c + 1 \<Longrightarrow> Suc (scan_budget limit (c + 1) sc') \<le> scan_budget limit c sc"
proof -
  assume "\<not> limit \<le> c + 1"
  then have "Suc (budget_left limit (c + 1)) * 301 \<le> budget_left limit c * 301"
    by (intro mult_right_mono) (auto simp: Suc_le_eq)
  then show ?thesis
    using scan_pot_le [of sc'] by (simp add: scan_budget_def)
qed

lemma scan_budget_frame:
  "push sc byte buf = (Frame, sc', buf') \<Longrightarrow> Suc (scan_budget limit c sc') \<le> scan_budget limit c sc"
  using push_Frame_pot [of sc byte buf sc' buf'] by (simp add: scan_budget_def)

text \<open>\<open>set_poll\<close> clamps the number of attempts to at least one.\<close>

definition clamp_attempts :: "u32 \<Rightarrow> u32" where
  "clamp_attempts n = max n 1"

lemma clamp_attempts_pos: "1 \<le> clamp_attempts n" "0 < unat (clamp_attempts n)"
  by (auto simp: clamp_attempts_def word_le_nat_alt max_def unat_gt_0 split: if_splits)

lemma budget_left_le: "0 < limit \<Longrightarrow> budget_left limit 0 = unat limit"
  by (simp add: budget_left_def)

section \<open>Observing a driver\<close>

text \<open>What an adapter does to the hardware, in order.\<close>

datatype hal_event = EvWrite bytes | EvRead | EvDelay u32

definition reads :: "hal_event list \<Rightarrow> nat" where
  "reads evs = length (filter (\<lambda>e. e = EvRead) evs)"

lemma reads_append [simp]: "reads (xs @ ys) = reads xs + reads ys"
  by (simp add: reads_def)

lemma reads_simps [simp]:
  "reads [] = 0" "reads (EvRead # evs) = Suc (reads evs)" "reads (EvDelay n # evs) = reads evs"
  "reads (EvWrite bs # evs) = reads evs"
  by (simp_all add: reads_def)

section \<open>Byte-stream transports\<close>

text \<open>
  A stream transport returns success only with a frame that \<open>decode\<close> accepts, at the
  front of the response buffer, and reports its exact length.
\<close>

locale stream_transport = transport request
  for request :: "('t, 'e) request_fn" +
  assumes framed: "request t req rsp = (Ok n, t', rsp') \<Longrightarrow> n \<le> length rsp' \<and> is_ok (decode (take n rsp'))"
begin

lemma framed_length: "request t req rsp = (Ok n, t', rsp') \<Longrightarrow> n \<le> length rsp \<and> n \<le> 255"
proof -
  assume req: "request t req rsp = (Ok n, t', rsp')"
  then obtain f :: frame where "decode (take n rsp') = Ok f"
    using framed [OF req] by (auto simp: is_ok_iff)
  then have "length (take n rsp') \<le> 255"
    by (simp add: decode_iff)
  with framed [OF req] rsp_length [OF req] show ?thesis
    by simp
qed

end

end
