(* ===== verification/I2c_Transport.thy ===== *)
theory I2c_Transport
  imports Polling
begin

text \<open>
  \<^verbatim>\<open>updater-eh/src/i2c.rs\<close>: write the request, then poll the response with
  fixed-length reads. The \<open>embedded_hal\<close> bus and delay are parameters: operations on
  the state \<open>'w\<close> of the hardware they stand for.
\<close>

record ('w, 'e) i2c_hal =
  i2c_write :: "u8 \<Rightarrow> bytes \<Rightarrow> 'w \<Rightarrow> ('e + unit) \<times> 'w"
  i2c_read :: "u8 \<Rightarrow> nat \<Rightarrow> 'w \<Rightarrow> ('e + unit) \<times> bytes \<times> 'w"
  i2c_delay_ns :: "u32 \<Rightarrow> 'w \<Rightarrow> 'w"

datatype 'e i2c_error = I2cWrite 'e | I2cExhausted u32 'e

record 'w i2c_transport =
  i2c_hw :: 'w
  i2c_addr :: u8
  i2c_poll_attempts :: u32
  i2c_poll_interval_ns :: u32

definition i2c_new :: "'w \<Rightarrow> u8 \<Rightarrow> 'w i2c_transport" where
  "i2c_new w addr = \<lparr>i2c_hw = w, i2c_addr = addr, i2c_poll_attempts = DEFAULT_POLL_ATTEMPTS,
     i2c_poll_interval_ns = DEFAULT_POLL_INTERVAL_NS\<rparr>"

definition i2c_set_poll :: "'w i2c_transport \<Rightarrow> u32 \<Rightarrow> u32 \<Rightarrow> 'w i2c_transport" where
  "i2c_set_poll t attempts interval_ns =
     t\<lparr>i2c_poll_attempts := clamp_attempts attempts, i2c_poll_interval_ns := interval_ns\<rparr>"

definition i2c_with_poll :: "'w i2c_transport \<Rightarrow> u32 \<Rightarrow> u32 \<Rightarrow> 'w i2c_transport" where
  "i2c_with_poll t attempts interval_ns = i2c_set_poll t attempts interval_ns"

definition i2c_release :: "'w i2c_transport \<Rightarrow> 'w" where
  "i2c_release t = i2c_hw t"

text \<open>The poll loop. A read fills the buffer it is handed; a failed read may have filled a part.\<close>

function i2c_poll ::
  "('w, 'e) i2c_hal \<Rightarrow> u8 \<Rightarrow> u32 \<Rightarrow> u32 \<Rightarrow> u32 \<Rightarrow> bytes \<Rightarrow> 'w \<Rightarrow> ('e i2c_error + usize) \<times> bytes \<times> 'w"
where
  "i2c_poll hal addr poll interval att rsp w =
     (let att = att + 1;
          (r, data, w) = i2c_read hal addr (length rsp) w;
          rsp = overwrite rsp data
      in case r of
           Ok _ \<Rightarrow> (Ok (length rsp), rsp, w)
         | Err e \<Rightarrow>
             if att \<ge> poll then (Err (I2cExhausted att e), rsp, w)
             else i2c_poll hal addr poll interval att rsp (i2c_delay_ns hal interval w))"
  by pat_completeness auto
termination
  by (relation "measure (\<lambda>(hal, addr, poll, interval, att, rsp, w). budget_left poll att)") auto

definition i2c_request :: "('w, 'e) i2c_hal \<Rightarrow> ('w i2c_transport, 'e i2c_error) request_fn" where
  "i2c_request hal t req rsp =
     (case i2c_write hal (i2c_addr t) req (i2c_hw t) of
        (Err e, w) \<Rightarrow> (Err (I2cWrite e), t\<lparr>i2c_hw := w\<rparr>, rsp)
      | (Ok _, w) \<Rightarrow>
          (case i2c_poll hal (i2c_addr t) (i2c_poll_attempts t) (i2c_poll_interval_ns t) 0 rsp w of
             (r, rsp', w') \<Rightarrow> (r, t\<lparr>i2c_hw := w'\<rparr>, rsp')))"

declare i2c_poll.simps [simp del]

lemma i2c_poll_length: "i2c_poll hal addr poll interval att rsp w = (r, rsp', w') \<Longrightarrow> length rsp' = length rsp"
proof (induction hal addr poll interval att rsp w rule: i2c_poll.induct)
  case (1 hal addr poll interval att rsp w)
  from "1.prems" show ?case
    unfolding i2c_poll.simps [of hal addr poll interval att rsp w]
    using "1.IH" by (auto simp: Let_def split: prod.splits sum.splits if_splits)
qed

interpretation i2c: transport "i2c_request hal" for hal :: "('w, 'e) i2c_hal"
  by unfold_locales (auto simp: i2c_request_def split: prod.splits sum.splits dest: i2c_poll_length)

section \<open>The poll budget\<close>

definition i2c_logged :: "('w, 'e) i2c_hal \<Rightarrow> ('w \<times> hal_event list, 'e) i2c_hal" where
  "i2c_logged hal =
     \<lparr>i2c_write = (\<lambda>a bs (w, evs). let (r, w') = i2c_write hal a bs w in (r, w', evs @ [EvWrite bs])),
      i2c_read = (\<lambda>a n (w, evs). let (r, data, w') = i2c_read hal a n w in (r, data, w', evs @ [EvRead])),
      i2c_delay_ns = (\<lambda>n (w, evs). (i2c_delay_ns hal n w, evs @ [EvDelay n]))\<rparr>"

text \<open>The events of a poll with \<open>k\<close> reads.\<close>

definition poll_events :: "u32 \<Rightarrow> nat \<Rightarrow> hal_event list" where
  "poll_events interval k = concat (replicate (k - 1) [EvRead, EvDelay interval]) @ [EvRead]"

lemma poll_events_Suc:
  "1 \<le> k \<Longrightarrow> poll_events interval (Suc k) = EvRead # EvDelay interval # poll_events interval k"
  by (cases k) (auto simp: poll_events_def)

lemma i2c_poll_logged:
  assumes "i2c_poll (i2c_logged hal) addr poll interval att rsp (w, evs) = (r, rsp', w', evs')" and "att < poll"
  shows "\<exists>k \<ge> 1. k + unat att \<le> unat poll \<and> evs' = evs @ poll_events interval k
     \<and> (case r of Ok n \<Rightarrow> n = length rsp' | Err x \<Rightarrow> k + unat att = unat poll \<and> (\<exists>e. x = I2cExhausted poll e))"
  using assms
proof (induction "unat poll - unat att" arbitrary: att rsp w evs)
  case 0
  then show ?case by (simp add: word_less_nat_alt)
next
  case (Suc n)
  have att: "unat (att + 1) = Suc (unat att)"
    using Suc.prems(2) by (rule word_succ_unat)
  have lt: "unat att < unat poll"
    using Suc.prems(2) by (simp add: word_less_nat_alt)
  obtain q data w1 where rd: "i2c_read hal addr (length rsp) w = (q, data, w1)"
    using prod_cases3 by blast
  show ?case
  proof (cases q)
    case (Inr u)
    with Suc.prems(1) rd lt show ?thesis
      by (subst (asm) i2c_poll.simps)
        (auto simp: i2c_logged_def poll_events_def intro!: exI [of _ 1])
  next
    case (Inl e)
    show ?thesis
    proof (cases "poll \<le> att + 1")
      case True
      then have "att + 1 = poll"
        using att lt by (simp add: word_unat_eq_iff word_le_nat_alt)
      with Inl Suc.prems(1) rd lt att True show ?thesis
        by (subst (asm) i2c_poll.simps)
          (auto simp: i2c_logged_def poll_events_def intro!: exI [of _ 1])
    next
      case False
      have n: "n = unat poll - unat (att + 1)"
        using Suc.hyps(2) att by simp
      from False Inl Suc.prems(1) rd have
        "i2c_poll (i2c_logged hal) addr poll interval (att + 1) (overwrite rsp data)
           (i2c_delay_ns hal interval w1, evs @ [EvRead, EvDelay interval]) = (r, rsp', w', evs')"
        by (subst (asm) i2c_poll.simps) (simp add: i2c_logged_def)
      from Suc.hyps(1) [OF n this] False att obtain k where
        k: "1 \<le> k" "k + Suc (unat att) \<le> unat poll"
          "evs' = evs @ [EvRead, EvDelay interval] @ poll_events interval k"
          "case r of Ok n \<Rightarrow> n = length rsp' | Err x \<Rightarrow> k + Suc (unat att) = unat poll \<and> (\<exists>e. x = I2cExhausted poll e)"
        by (auto simp: not_le cong: sum.case_cong)
      then show ?thesis
        by (intro exI [of _ "Suc k"]) (auto simp: poll_events_Suc split: sum.splits)
    qed
  qed
qed

section \<open>Properties\<close>

text \<open>
  The poll budget of the I2C adapter. Whatever the bus does, one request is one write
  followed, when the write succeeded, by at most \<open>max(attempts, 1)\<close> reads of the whole
  response buffer, each two of them separated by one delay of the configured interval; it
  returns the buffer's length after the first read that succeeds, and \<open>Exhausted\<close> with
  the full attempt count only when that many reads have failed.
\<close>

lemma i2c_poll_budget:
  assumes "i2c_request (i2c_logged hal) (i2c_with_poll (i2c_new (w, []) addr) attempts interval) req rsp = (r, t', rsp')"
  shows "length rsp' = length rsp \<and>
     ((\<exists>e. r = Err (I2cWrite e) \<and> snd (i2c_release t') = [EvWrite req] \<and> rsp' = rsp) \<or>
      (\<exists>k. 1 \<le> k \<and> k \<le> max (unat attempts) 1 \<and> snd (i2c_release t') = EvWrite req # poll_events interval k \<and>
         (case r of Ok n \<Rightarrow> n = length rsp
          | Err x \<Rightarrow> k = max (unat attempts) 1 \<and> (\<exists>e. x = I2cExhausted (max attempts 1) e))))"
proof -
  let ?poll = "clamp_attempts attempts"
  have poll: "unat ?poll = max (unat attempts) 1" "?poll = max attempts 1"
    by (auto simp: clamp_attempts_def max_def word_le_nat_alt)
  have len: "length rsp' = length rsp"
    using i2c.rsp_length [OF assms] .
  obtain q w1 where wr: "i2c_write hal addr req w = (q, w1)"
    using prod.exhaust by blast
  show ?thesis
  proof (cases q)
    case (Inl e)
    with assms wr show ?thesis
      by (auto simp: i2c_request_def i2c_with_poll_def i2c_set_poll_def i2c_new_def i2c_logged_def i2c_release_def)
  next
    case (Inr u)
    obtain r0 rsp0 w2 evs where pl: "i2c_poll (i2c_logged hal) addr ?poll interval 0 rsp (w1, [EvWrite req]) = (r0, rsp0, w2, evs)"
      by (metis prod_cases4)
    have eq: "r = r0" "rsp' = rsp0" "snd (i2c_release t') = evs"
      using assms wr Inr pl
      by (auto simp: i2c_request_def i2c_with_poll_def i2c_set_poll_def i2c_new_def i2c_logged_def i2c_release_def)
    have "0 < ?poll"
      using clamp_attempts_pos [of attempts] by (simp add: word_less_nat_alt)
    from i2c_poll_logged [OF pl this] obtain k where k: "1 \<le> k" "k \<le> unat ?poll"
      "evs = EvWrite req # poll_events interval k"
      "case r0 of Ok n \<Rightarrow> n = length rsp0 | Err x \<Rightarrow> k = unat ?poll \<and> (\<exists>e. x = I2cExhausted ?poll e)"
      by (auto cong: sum.case_cong)
    show ?thesis
      using len k [unfolded poll(1), unfolded poll(2)] eq
      by (intro conjI disjI2 exI [of _ k]) (simp_all split: sum.splits)
  qed
qed

text \<open>A bus on which nobody acknowledges a read.\<close>

definition nack_i2c :: "(unit, unit) i2c_hal" where
  "nack_i2c = \<lparr>i2c_write = (\<lambda>_ _ w. (Ok (), w)), i2c_read = (\<lambda>_ _ w. (Err (), [], w)),
     i2c_delay_ns = (\<lambda>_ w. w)\<rparr>"

end
