(* ===== verification/Spi_Transport.thy ===== *)
theory Spi_Transport
  imports Polling
begin

text \<open>
  \<^verbatim>\<open>updater-eh/src/spi.rs\<close>: the request in one transaction, then one idle byte
  clocked at a time through the stream scanner. The \<open>SpiDevice\<close> and the delay are
  parameters, as for I2C.
\<close>

record ('w, 'e) spi_hal =
  spi_transaction :: "bytes list \<Rightarrow> 'w \<Rightarrow> ('e + unit) \<times> 'w"
  spi_read :: "'w \<Rightarrow> ('e + u8) \<times> 'w"
  spi_delay_ns :: "u32 \<Rightarrow> 'w \<Rightarrow> 'w"

definition DEFAULT_SPI_BYTE_INTERVAL_NS :: u32 where "DEFAULT_SPI_BYTE_INTERVAL_NS = 50000"

datatype 'e spi_error = SpiWrite 'e | SpiRead 'e | SpiExhausted u32

record 'w spi_transport =
  spi_hw :: 'w
  spi_poll_attempts :: u32
  spi_poll_interval_ns :: u32
  spi_byte_interval_ns :: u32

definition spi_new :: "'w \<Rightarrow> 'w spi_transport" where
  "spi_new w = \<lparr>spi_hw = w, spi_poll_attempts = DEFAULT_POLL_ATTEMPTS,
     spi_poll_interval_ns = DEFAULT_POLL_INTERVAL_NS, spi_byte_interval_ns = DEFAULT_SPI_BYTE_INTERVAL_NS\<rparr>"

definition spi_set_poll :: "'w spi_transport \<Rightarrow> u32 \<Rightarrow> u32 \<Rightarrow> 'w spi_transport" where
  "spi_set_poll t attempts interval_ns =
     t\<lparr>spi_poll_attempts := clamp_attempts attempts, spi_poll_interval_ns := interval_ns\<rparr>"

definition spi_with_poll :: "'w spi_transport \<Rightarrow> u32 \<Rightarrow> u32 \<Rightarrow> 'w spi_transport" where
  "spi_with_poll t attempts interval_ns = spi_set_poll t attempts interval_ns"

definition spi_with_pacing :: "'w spi_transport \<Rightarrow> u32 \<Rightarrow> 'w spi_transport" where
  "spi_with_pacing t byte_interval_ns = t\<lparr>spi_byte_interval_ns := byte_interval_ns\<rparr>"

definition spi_release :: "'w spi_transport \<Rightarrow> 'w" where
  "spi_release t = spi_hw t"

text \<open>
  The scan loop. It ends because every byte inside a frame lowers the scanner's potential
  and every other byte spends one poll.
\<close>

function spi_scan ::
  "('w, 'e) spi_hal \<Rightarrow> u32 \<Rightarrow> u32 \<Rightarrow> u32 \<Rightarrow> rx_scanner \<Rightarrow> u32 \<Rightarrow> bytes \<Rightarrow> 'w \<Rightarrow>
     ('e spi_error + usize) \<times> bytes \<times> 'w"
where
  "spi_scan hal poll interval gap sc attempts rsp w =
     (case spi_read hal w of
        (Err e, w) \<Rightarrow> (Err (SpiRead e), rsp, w)
      | (Ok byte, w) \<Rightarrow>
          (case push sc byte rsp of
             (Done len, sc, rsp) \<Rightarrow> (Ok len, rsp, w)
           | (Frame, sc, rsp) \<Rightarrow> spi_scan hal poll interval gap sc attempts rsp (spi_delay_ns hal gap w)
           | (_, sc, rsp) \<Rightarrow>
               let attempts = attempts + 1 in
               if attempts \<ge> poll then (Err (SpiExhausted attempts), rsp, w)
               else spi_scan hal poll interval gap sc attempts rsp (spi_delay_ns hal interval w)))"
  by pat_completeness auto
termination
  by (relation "measures [\<lambda>(hal, poll, interval, gap, sc, attempts, rsp, w). budget_left poll attempts,
       \<lambda>(hal, poll, interval, gap, sc, attempts, rsp, w). scan_pot sc]")
    (auto dest: push_Frame_pot [OF sym])

definition spi_request :: "('w, 'e) spi_hal \<Rightarrow> ('w spi_transport, 'e spi_error) request_fn" where
  "spi_request hal t req rsp =
     (case spi_transaction hal [[SYNC], req] (spi_hw t) of
        (Err e, w) \<Rightarrow> (Err (SpiWrite e), t\<lparr>spi_hw := w\<rparr>, rsp)
      | (Ok _, w) \<Rightarrow>
          (case spi_scan hal (spi_poll_attempts t) (spi_poll_interval_ns t) (spi_byte_interval_ns t)
                  scanner_new 0 rsp w of
             (r, rsp', w') \<Rightarrow> (r, t\<lparr>spi_hw := w'\<rparr>, rsp')))"

declare spi_scan.simps [simp del]

section \<open>The stream contract\<close>

lemma spi_scan_framed:
  "spi_scan hal poll interval gap sc attempts rsp w = (r, rsp', w') \<Longrightarrow>
     length rsp' = length rsp \<and> (\<forall>n. r = Ok n \<longrightarrow> n \<le> length rsp \<and> is_ok (decode (take n rsp')))"
proof (induction hal poll interval gap sc attempts rsp w rule: spi_scan.induct)
  case (1 hal poll interval gap sc attempts rsp w)
  show ?case
  proof (cases "spi_read hal w")
    case (Pair q w1)
    show ?thesis
    proof (cases q)
      case (Inl e)
      with Pair "1.prems" show ?thesis
        by (auto simp: spi_scan.simps [of hal poll interval gap sc attempts rsp w])
    next
      case (Inr byte)
      obtain res sc1 rsp1 where p: "push sc byte rsp = (res, sc1, rsp1)"
        using prod_cases3 by blast
      note len = length_push [OF p]
      show ?thesis
      proof (cases res)
        case (Done n)
        with push_Done [of sc byte rsp n sc1 rsp1] Pair Inr p len "1.prems" show ?thesis
          by (auto simp: spi_scan.simps [of hal poll interval gap sc attempts rsp w])
      qed (use Pair Inr p len "1.prems" "1.IH" in
          \<open>auto simp: spi_scan.simps [of hal poll interval gap sc attempts rsp w] Let_def split: if_splits\<close>)
    qed
  qed
qed

interpretation spi: stream_transport "spi_request hal" for hal :: "('w, 'e) spi_hal"
  by unfold_locales (auto simp: spi_request_def split: prod.splits sum.splits dest: spi_scan_framed)

section \<open>The poll budget\<close>

definition spi_logged :: "('w, 'e) spi_hal \<Rightarrow> ('w \<times> hal_event list, 'e) spi_hal" where
  "spi_logged hal =
     \<lparr>spi_transaction = (\<lambda>ws (w, evs). let (r, w') = spi_transaction hal ws w in (r, w', evs @ map EvWrite ws)),
      spi_read = (\<lambda>(w, evs). let (r, w') = spi_read hal w in (r, w', evs @ [EvRead])),
      spi_delay_ns = (\<lambda>n (w, evs). (spi_delay_ns hal n w, evs @ [EvDelay n]))\<rparr>"

lemma spi_logged_simps [simp]:
  "spi_read (spi_logged hal) (w, evs) = (let (r, w') = spi_read hal w in (r, w', evs @ [EvRead]))"
  "spi_delay_ns (spi_logged hal) n (w, evs) = (spi_delay_ns hal n w, evs @ [EvDelay n])"
  "spi_transaction (spi_logged hal) ws (w, evs) =
     (let (r, w') = spi_transaction hal ws w in (r, w', evs @ map EvWrite ws))"
  by (simp_all add: spi_logged_def)

lemma spi_scan_logged:
  assumes "spi_scan (spi_logged hal) poll interval gap sc attempts rsp (w, evs) = (r, rsp', w', evs')"
    and "0 < poll"
  shows "\<exists>new. evs' = evs @ new \<and> 1 \<le> reads new \<and> reads new \<le> scan_budget poll attempts sc"
  using assms(1)
proof (induction "scan_budget poll attempts sc" arbitrary: sc attempts rsp w evs rule: less_induct)
  case less
  obtain q w1 where rd: "spi_read hal w = (q, w1)"
    using prod.exhaust by blast
  have stop: ?case if "evs' = evs @ [EvRead]"
    using that scan_budget_pos [OF assms(2)] by (intro exI [of _ "[EvRead]"]) simp
  have go: ?case if lt: "Suc (scan_budget poll att1 sc1) \<le> scan_budget poll attempts sc"
    and rec: "spi_scan (spi_logged hal) poll interval gap sc1 att1 rsp1 (spi_delay_ns hal ns w1, evs @ [EvRead, EvDelay ns])
      = (r, rsp', w', evs')" for att1 sc1 rsp1 ns
  proof -
    from lt have "scan_budget poll att1 sc1 < scan_budget poll attempts sc" by simp
    from less.hyps [OF this rec] obtain new where "evs' = evs @ [EvRead, EvDelay ns] @ new"
      "1 \<le> reads new" "reads new \<le> scan_budget poll att1 sc1"
      by auto
    with lt show ?thesis
      by (intro exI [of _ "[EvRead, EvDelay ns] @ new"]) auto
  qed
  show ?case
  proof (cases q)
    case (Inl e)
    with less.prems rd show ?thesis
      by (intro stop) (simp add: spi_scan.simps [of _ poll interval gap sc attempts])
  next
    case (Inr byte)
    obtain res sc1 rsp1 where p: "push sc byte rsp = (res, sc1, rsp1)"
      using prod_cases3 by blast
    have spent: ?thesis if "res = Hunt \<or> res = Dropped"
    proof (cases "poll \<le> attempts + 1")
      case True
      with that less.prems rd Inr p show ?thesis
        by (intro stop) (auto simp: spi_scan.simps [of _ poll interval gap sc attempts] Let_def)
    next
      case False
      with that less.prems rd Inr p show ?thesis
        by (intro go [OF scan_budget_spend [OF False], of sc1 rsp1 interval])
          (auto simp: spi_scan.simps [of _ poll interval gap sc attempts] Let_def)
    qed
    show ?thesis
    proof (cases res)
      case (Done n)
      with less.prems rd Inr p show ?thesis
        by (intro stop) (simp add: spi_scan.simps [of _ poll interval gap sc attempts])
    next
      case Frame
      with less.prems rd Inr p push_Frame_pot [of sc byte rsp sc1 rsp1] show ?thesis
        by (intro go [of attempts sc1 rsp1 gap])
          (simp_all add: spi_scan.simps [of _ poll interval gap sc attempts] scan_budget_def)
    next
      case Hunt
      then show ?thesis by (intro spent) auto
    next
      case Dropped
      then show ?thesis by (intro spent) auto
    qed
  qed
qed

section \<open>Reception\<close>

text \<open>The bus delivers \<open>bs\<close>, whatever the pauses between the reads.\<close>

primrec spi_delivers :: "('w, 'e) spi_hal \<Rightarrow> 'w \<Rightarrow> bytes \<Rightarrow> bool" where
  "spi_delivers hal w [] \<longleftrightarrow> True"
| "spi_delivers hal w (b # bs) \<longleftrightarrow>
     (\<exists>w'. spi_read hal w = (Ok b, w') \<and> (\<forall>ns. spi_delivers hal (spi_delay_ns hal ns w') bs))"

text \<open>The same with what holds of the bus right after the last of the bytes.\<close>

primrec spi_leads :: "('w, 'e) spi_hal \<Rightarrow> ('w \<Rightarrow> bool) \<Rightarrow> 'w \<Rightarrow> bytes \<Rightarrow> bool" where
  "spi_leads hal P w [] \<longleftrightarrow> P w"
| "spi_leads hal P w (b # bs) \<longleftrightarrow>
     (\<exists>w'. spi_read hal w = (Ok b, w') \<and> (if bs = [] then P w' else \<forall>ns. spi_leads hal P (spi_delay_ns hal ns w') bs))"

lemma spi_delivers_leads: "spi_delivers hal w bs \<Longrightarrow> spi_leads hal (\<lambda>_. True) w bs"
  by (induction bs arbitrary: w) auto

lemma spi_scan_feed:
  assumes "feed sc bs rsp = (rs @ [Done n], sc', rsp')" and "\<forall>r \<in> set rs. \<not> is_done r"
    and "spi_leads hal P w bs" and "unat attempts + length (filter (\<lambda>r. r \<noteq> Frame) rs) < unat poll"
  shows "\<exists>w'. spi_scan hal poll interval gap sc attempts rsp w = (Ok n, rsp', w') \<and> P w'"
  using assms
proof (induction bs arbitrary: sc rsp rs w attempts)
  case (Cons b bs)
  obtain w1 where rd: "spi_read hal w = (Ok b, w1)"
    and dl: "if bs = [] then P w1 else \<forall>ns. spi_leads hal P (spi_delay_ns hal ns w1) bs"
    using Cons.prems(3) by auto
  obtain res sc1 rsp1 where p: "push sc b rsp = (res, sc1, rsp1)"
    using prod_cases3 by blast
  obtain rs1 where f: "feed sc1 bs rsp1 = (rs1, sc', rsp')" and rs: "rs @ [Done n] = res # rs1"
    using Cons.prems(1) p by (auto split: prod.splits)
  show ?case
  proof (cases rs)
    case Nil
    with rs f have "res = Done n" "bs = []"
      using length_feed [OF f] by auto
    with p rd dl f Nil rs show ?thesis
      by (simp add: spi_scan.simps [of _ poll interval gap sc attempts])
  next
    case (Cons x rs2)
    with rs have res: "x = res" "rs1 = rs2 @ [Done n]" by auto
    have "bs \<noteq> []"
      using f res(2) by auto
    with dl have dl: "spi_leads hal P (spi_delay_ns hal ns w1) bs" for ns
      by simp
    show ?thesis
    proof (cases "res = Frame")
      case True
      with Cons res Cons.IH [OF f [unfolded res(2)] _ dl, of attempts] Cons.prems(2,4) p rd show ?thesis
        by (simp add: spi_scan.simps [of _ poll interval gap sc attempts])
    next
      case False
      have "unat attempts + 1 < unat poll"
        using Cons.prems(4) Cons res False by simp
      then have att: "unat (attempts + 1) = Suc (unat attempts)" and lt: "\<not> poll \<le> attempts + 1"
        using word_succ_unat [of attempts poll] by (simp_all add: word_less_nat_alt word_le_nat_alt not_le)
      then have "\<exists>w'. spi_scan hal poll interval gap sc1 (attempts + 1) rsp1 (spi_delay_ns hal interval w1) = (Ok n, rsp', w') \<and> P w'"
        using Cons.IH [OF f [unfolded res(2)] _ dl, of "attempts + 1"] Cons.prems(2,4) Cons res False by simp
      moreover have "\<not> is_done res"
        using Cons.prems(2) Cons res by simp
      ultimately show ?thesis
        using p rd lt False by (cases res)
          (auto simp: spi_scan.simps [of _ poll interval gap sc attempts] Let_def is_done_def)
    qed
  qed
qed simp

lemma spi_finds:
  assumes "spi_transaction hal [[SYNC], req] (spi_hw t) = (Ok (), w)"
    and "spi_leads hal P w (g @ SYNC # wire c pl)" and "SYNC \<notin> set g"
    and "length g < unat (spi_poll_attempts t)" and "length pl \<le> 252" and "length pl + 3 \<le> length rsp"
  shows "\<exists>w'. spi_request hal t req rsp = (Ok (length pl + 3), t\<lparr>spi_hw := w'\<rparr>, wire c pl @ drop (length pl + 3) rsp) \<and> P w'"
proof -
  let ?rs = "replicate (length g) Hunt @ replicate (length pl + 3) Frame"
  have "feed scanner_new (g @ SYNC # wire c pl) rsp =
      (?rs @ [Done (length pl + 3)], scanner_new, wire c pl @ drop (length pl + 3) rsp)"
    using feed_found [OF assms(3,5,6)] by simp
  moreover have "\<forall>r \<in> set ?rs. \<not> is_done r"
    by (auto simp: is_done_def)
  moreover have "unat (0 :: u32) + length (filter (\<lambda>r. r \<noteq> Frame) ?rs) < unat (spi_poll_attempts t)"
    using assms(4) by simp
  ultimately obtain w' where "spi_scan hal (spi_poll_attempts t) (spi_poll_interval_ns t) (spi_byte_interval_ns t)
      scanner_new 0 rsp w = (Ok (length pl + 3), wire c pl @ drop (length pl + 3) rsp, w')" "P w'"
    using spi_scan_feed [OF _ _ assms(2)] by blast
  then show ?thesis
    using assms(1) by (auto simp: spi_request_def)
qed

section \<open>Properties\<close>

text \<open>
  C37: the SPI adapter cannot hang. Whatever bytes the slave shifts out, one request is one
  transaction of sync byte and frame, and clocks at most \<open>301 * max(attempts, 1) + 300\<close>
  response bytes.
\<close>

theorem spi_bytes_bounded:
  assumes "spi_request (spi_logged hal) (spi_with_poll (spi_new (w, [])) attempts interval) req rsp = (r, t', rsp')"
  shows "\<exists>evs. snd (spi_release t') = EvWrite [SYNC] # EvWrite req # evs
     \<and> reads evs \<le> 301 * max (unat attempts) 1 + 300"
proof -
  let ?poll = "clamp_attempts attempts"
  have poll: "unat ?poll = max (unat attempts) 1"
    by (auto simp: clamp_attempts_def max_def word_le_nat_alt)
  then have pos: "0 < ?poll"
    by (simp add: word_less_nat_alt)
  obtain q w1 where wr: "spi_transaction hal [[SYNC], req] w = (q, w1)"
    using prod.exhaust by blast
  show ?thesis
  proof (cases q)
    case (Inl e)
    with assms wr show ?thesis
      by (auto simp: spi_request_def spi_with_poll_def spi_set_poll_def spi_new_def spi_release_def)
  next
    case (Inr u)
    obtain r0 rsp0 w2 evs where sc: "spi_scan (spi_logged hal) ?poll interval DEFAULT_SPI_BYTE_INTERVAL_NS scanner_new 0 rsp
        (w1, [EvWrite [SYNC], EvWrite req]) = (r0, rsp0, w2, evs)"
      by (metis prod_cases4)
    then have "snd (spi_release t') = evs"
      using assms wr Inr
      by (auto simp: spi_request_def spi_with_poll_def spi_set_poll_def spi_new_def spi_release_def)
    moreover from spi_scan_logged [OF sc pos] obtain new where
      "evs = EvWrite [SYNC] # EvWrite req # new" "reads new \<le> scan_budget ?poll 0 scanner_new"
      by auto
    moreover have "scan_budget ?poll 0 scanner_new = 301 * max (unat attempts) 1 + 300"
      unfolding scan_budget_def budget_left_le [OF pos] poll by (simp add: scan_pot_def scanner_new_def)
    ultimately show ?thesis by auto
  qed
qed

text \<open>
  The SPI adapter finds the response. If, after the request was sent, the slave shifts
  out fewer busy bytes than the poll budget, none of them a sync byte, and then a sync byte
  and a frame that fits the response buffer, the request succeeds with the frame's exact
  length and the frame at the front of the buffer.
\<close>

lemma spi_receives_response:
  assumes "spi_transaction hal [[SYNC], req] (spi_hw t) = (Ok (), w)"
    and "spi_delivers hal w (g @ SYNC # wire c pl)" and "SYNC \<notin> set g"
    and "length g < unat (spi_poll_attempts t)" and "length pl \<le> 252" and "length pl + 3 \<le> length rsp"
  shows "\<exists>t'. spi_request hal t req rsp = (Ok (length pl + 3), t', wire c pl @ drop (length pl + 3) rsp)"
  using spi_finds [OF assms(1) spi_delivers_leads [OF assms(2)] assms(3-6)] by blast

text \<open>A slave with a fixed answer: the state is what it still has to shift out, then zeros.\<close>

definition tape_spi :: "(bytes, unit) spi_hal" where
  "tape_spi = \<lparr>spi_transaction = (\<lambda>_ w. (Ok (), w)),
     spi_read = (\<lambda>w. case w of [] \<Rightarrow> (Ok 0, []) | b # bs \<Rightarrow> (Ok b, bs)), spi_delay_ns = (\<lambda>_ w. w)\<rparr>"

lemma tape_spi_delivers: "spi_delivers tape_spi (bs @ rest) bs"
  by (induction bs) (auto simp: tape_spi_def)

theorem spi_bytes_bounded_witness:
  "\<exists>r t' rsp'. spi_request (spi_logged tape_spi) (spi_with_poll (spi_new ([], [])) 2 7) [1] [0, 0, 0] = (r, t', rsp')
     \<and> (\<exists>evs. snd (spi_release t') = EvWrite [SYNC] # EvWrite [1] # evs \<and> reads evs \<le> 902)"
proof -
  obtain r t' rsp' where run:
    "spi_request (spi_logged tape_spi) (spi_with_poll (spi_new ([], [])) 2 7) [1] [0, 0, 0] = (r, t', rsp')"
    using prod_cases3 by blast
  from spi_bytes_bounded [OF run] run show ?thesis by simp
qed

end
