(* ===== verification/Uart_Transport.thy ===== *)
theory Uart_Transport
  imports Polling
begin

text \<open>
  \<^verbatim>\<open>updater-eh/src/uart.rs\<close>: sync byte and request written and flushed, then the
  receive stream read in chunks of up to 32 bytes through the scanner, with one budget
  for silence and one for babble. The \<open>embedded_io\<close> port and the delay are parameters.
\<close>

record ('w, 'e) uart_hal =
  uart_write_all :: "bytes \<Rightarrow> 'w \<Rightarrow> ('e + unit) \<times> 'w"
  uart_flush :: "'w \<Rightarrow> ('e + unit) \<times> 'w"
  uart_read :: "nat \<Rightarrow> 'w \<Rightarrow> ('e + usize) \<times> bytes \<times> 'w"
  uart_delay_ns :: "u32 \<Rightarrow> 'w \<Rightarrow> 'w"

datatype 'e uart_error = UartWrite 'e | UartRead 'e | UartExhausted u32 | UartDesync u32

record 'w uart_transport =
  uart_hw :: 'w
  uart_poll_attempts :: u32
  uart_poll_interval_ns :: u32
  uart_scan_limit :: u32

definition uart_new :: "'w \<Rightarrow> 'w uart_transport" where
  "uart_new w = \<lparr>uart_hw = w, uart_poll_attempts = DEFAULT_POLL_ATTEMPTS,
     uart_poll_interval_ns = DEFAULT_POLL_INTERVAL_NS, uart_scan_limit = DEFAULT_SCAN_LIMIT\<rparr>"

definition uart_set_poll :: "'w uart_transport \<Rightarrow> u32 \<Rightarrow> u32 \<Rightarrow> 'w uart_transport" where
  "uart_set_poll t attempts interval_ns =
     t\<lparr>uart_poll_attempts := clamp_attempts attempts, uart_poll_interval_ns := interval_ns\<rparr>"

definition uart_with_poll :: "'w uart_transport \<Rightarrow> u32 \<Rightarrow> u32 \<Rightarrow> 'w uart_transport" where
  "uart_with_poll t attempts interval_ns = uart_set_poll t attempts interval_ns"

definition uart_with_scan_limit :: "'w uart_transport \<Rightarrow> u32 \<Rightarrow> 'w uart_transport" where
  "uart_with_scan_limit t bytes' = t\<lparr>uart_scan_limit := max bytes' 1\<rparr>"

definition uart_release :: "'w uart_transport \<Rightarrow> 'w" where
  "uart_release t = uart_hw t"

text \<open>
  The \<open>for &byte in chunk\<close> loop: a result to return, or \<open>None\<close> to read on, with the
  scanner, the babble count and the response buffer.
\<close>

fun uart_bytes ::
  "u32 \<Rightarrow> bytes \<Rightarrow> rx_scanner \<Rightarrow> u32 \<Rightarrow> bytes \<Rightarrow>
     ('e uart_error + usize) option \<times> rx_scanner \<times> u32 \<times> bytes"
where
  "uart_bytes scan_limit [] sc junk rsp = (None, sc, junk, rsp)"
| "uart_bytes scan_limit (byte # rest) sc junk rsp =
     (case push sc byte rsp of
        (Done len, sc, rsp) \<Rightarrow> (Some (Ok len), sc, junk, rsp)
      | (Frame, sc, rsp) \<Rightarrow> uart_bytes scan_limit rest sc junk rsp
      | (_, sc, rsp) \<Rightarrow>
          let junk = junk + 1 in
          if junk \<ge> scan_limit then (Some (Err (UartDesync junk)), sc, junk, rsp)
          else uart_bytes scan_limit rest sc junk rsp)"

lemma uart_bytes_le:
  "uart_bytes limit bs sc junk rsp = (None, sc', junk', rsp') \<Longrightarrow>
     scan_budget limit junk' sc' + length bs \<le> scan_budget limit junk sc"
proof (induction bs arbitrary: sc junk rsp)
  case (Cons b bs)
  obtain res sc1 rsp1 where p: "push sc b rsp = (res, sc1, rsp1)"
    using prod_cases3 by blast
  show ?case
  proof (cases res)
    case Frame
    with Cons.IH [of sc1 junk rsp1] Cons.prems p scan_budget_frame [of sc b rsp sc1 rsp1 limit junk] show ?thesis
      by simp
  next
    case Hunt
    with Cons.IH [of sc1 "junk + 1" rsp1] Cons.prems p scan_budget_spend [of limit junk sc1 sc] show ?thesis
      by (fastforce simp: Let_def split: if_splits)
  next
    case Dropped
    with Cons.IH [of sc1 "junk + 1" rsp1] Cons.prems p scan_budget_spend [of limit junk sc1 sc] show ?thesis
      by (fastforce simp: Let_def split: if_splits)
  qed (use Cons.prems p in simp)
qed simp

lemma overwrite_not_Nil [simp]: "overwrite (c0 # cs) data \<noteq> []"
  using length_overwrite [of "c0 # cs" data] by (metis length_0_conv list.discI)

lemma front_eq: "(case get_to chunk (min n (length chunk)) of None \<Rightarrow> [] | Some front \<Rightarrow> front) = take n chunk"
  by (simp add: get_to_def min_def)

lemma uart_bytes_less:
  assumes "uart_bytes limit (take n (overwrite (c0 # cs) data)) sc junk rsp = (None, sc', junk', rsp')" and "0 < n"
  shows "scan_budget limit junk' sc' < scan_budget limit junk sc"
proof -
  have "0 < length (take n (overwrite (c0 # cs) data))"
    using assms(2) by (simp del: overwrite.simps)
  with uart_bytes_le [OF assms(1)] show ?thesis by linarith
qed

text \<open>
  The receive loop. The 32-byte array \<open>chunk\<close> keeps its contents from read to read; it is
  given as its first byte and the others, since an array is never empty.
\<close>

function uart_loop ::
  "('w, 'e) uart_hal \<Rightarrow> u32 \<Rightarrow> u32 \<Rightarrow> u32 \<Rightarrow> rx_scanner \<Rightarrow> u32 \<Rightarrow> u32 \<Rightarrow> u8 \<Rightarrow> bytes \<Rightarrow> bytes \<Rightarrow> 'w \<Rightarrow>
     ('e uart_error + usize) \<times> bytes \<times> 'w"
where
  "uart_loop hal poll interval scan_limit sc attempts junk c0 cs rsp w =
     (case uart_read hal (length (c0 # cs)) w of
        (Err e, _, w) \<Rightarrow> (Err (UartRead e), rsp, w)
      | (Ok n, data, w) \<Rightarrow>
          let chunk = overwrite (c0 # cs) data in
          if n = 0 then
            let attempts = attempts + 1 in
            if attempts \<ge> poll then (Err (UartExhausted attempts), rsp, w)
            else uart_loop hal poll interval scan_limit sc attempts junk (hd chunk) (tl chunk) rsp
                   (uart_delay_ns hal interval w)
          else
            (case uart_bytes scan_limit
                    (case get_to chunk (min n (length chunk)) of None \<Rightarrow> [] | Some front \<Rightarrow> front) sc junk rsp of
               (Some r, sc, junk, rsp) \<Rightarrow> (r, rsp, w)
             | (None, sc, junk, rsp) \<Rightarrow>
                 uart_loop hal poll interval scan_limit sc attempts junk (hd chunk) (tl chunk) rsp w))"
  by pat_completeness auto
termination
  by (relation "measures [\<lambda>(hal, poll, interval, limit, sc, attempts, junk, c0, cs, rsp, w). budget_left poll attempts,
       \<lambda>(hal, poll, interval, limit, sc, attempts, junk, c0, cs, rsp, w). scan_budget limit junk sc]")
    (auto simp: front_eq simp del: overwrite.simps length_overwrite dest!: uart_bytes_less [OF sym])

definition uart_request :: "('w, 'e) uart_hal \<Rightarrow> ('w uart_transport, 'e uart_error) request_fn" where
  "uart_request hal t req rsp =
     (case uart_write_all hal [SYNC] (uart_hw t) of
        (Err e, w) \<Rightarrow> (Err (UartWrite e), t\<lparr>uart_hw := w\<rparr>, rsp)
      | (Ok _, w) \<Rightarrow>
          (case uart_write_all hal req w of
             (Err e, w) \<Rightarrow> (Err (UartWrite e), t\<lparr>uart_hw := w\<rparr>, rsp)
           | (Ok _, w) \<Rightarrow>
               (case uart_flush hal w of
                  (Err e, w) \<Rightarrow> (Err (UartWrite e), t\<lparr>uart_hw := w\<rparr>, rsp)
                | (Ok _, w) \<Rightarrow>
                    (case uart_loop hal (uart_poll_attempts t) (uart_poll_interval_ns t) (uart_scan_limit t)
                            scanner_new 0 0 0 (replicate 31 0) rsp w of
                       (r, rsp', w') \<Rightarrow> (r, t\<lparr>uart_hw := w'\<rparr>, rsp')))))"

declare uart_loop.simps [simp del]

section \<open>The stream contract\<close>

lemma uart_loop_eq:
  "uart_loop hal poll interval limit sc attempts junk c0 cs rsp w =
     (case uart_read hal (Suc (length cs)) w of
        (Err e, _, w1) \<Rightarrow> (Err (UartRead e), rsp, w1)
      | (Ok n, data, w1) \<Rightarrow>
          let chunk = overwrite (c0 # cs) data in
          if n = 0 then
            if poll \<le> attempts + 1 then (Err (UartExhausted (attempts + 1)), rsp, w1)
            else uart_loop hal poll interval limit sc (attempts + 1) junk (hd chunk) (tl chunk) rsp
                   (uart_delay_ns hal interval w1)
          else
            (case uart_bytes limit (take n chunk) sc junk rsp of
               (Some r, _, _, rsp1) \<Rightarrow> (r, rsp1, w1)
             | (None, sc1, junk1, rsp1) \<Rightarrow>
                 uart_loop hal poll interval limit sc1 attempts junk1 (hd chunk) (tl chunk) rsp1 w1))"
  by (subst uart_loop.simps) (simp only: front_eq Let_def length_Cons)

lemma uart_bytes_framed:
  "uart_bytes limit bs sc junk rsp = (q, sc', junk', rsp') \<Longrightarrow>
     length rsp' = length rsp \<and> (\<forall>n. q = Some (Ok n) \<longrightarrow> n \<le> length rsp \<and> is_ok (decode (take n rsp')))"
proof (induction bs arbitrary: sc junk rsp)
  case (Cons b bs)
  obtain res sc1 rsp1 where p: "push sc b rsp = (res, sc1, rsp1)"
    using prod_cases3 by blast
  note len = length_push [OF p]
  show ?case
  proof (cases res)
    case (Done n)
    with push_Done [of sc b rsp n sc1 rsp1] p len Cons.prems show ?thesis by auto
  qed (use Cons.prems Cons.IH [of sc1 _ rsp1] p len in \<open>auto simp: Let_def split: if_splits\<close>)
qed auto

text \<open>The induction that the loop's termination gives: over the budgets left.\<close>

lemma uart_loop_induct:
  assumes "\<And>sc attempts junk c0 cs rsp w.
    \<lbrakk>\<And>sc1 attempts1 junk1 c1 cs1 rsp1 w1.
        budget_left poll attempts1 + scan_budget limit junk1 sc1 < budget_left poll attempts + scan_budget limit junk sc
        \<Longrightarrow> P sc1 attempts1 junk1 c1 cs1 rsp1 w1\<rbrakk>
    \<Longrightarrow> P sc attempts junk c0 cs rsp w"
  shows "P sc attempts junk c0 cs rsp w"
proof (induction "budget_left poll attempts + scan_budget limit junk sc" arbitrary: sc attempts junk c0 cs rsp w
    rule: less_induct)
  case less
  show ?case by (rule assms) (rule less.hyps)
qed

lemma uart_loop_framed:
  fixes hal :: "('w, 'e) uart_hal"
  shows "uart_loop hal poll interval limit sc attempts junk c0 cs rsp w = (r, rsp', w') \<Longrightarrow>
     length rsp' = length rsp \<and> (\<forall>n. r = Ok n \<longrightarrow> n \<le> length rsp \<and> is_ok (decode (take n rsp')))"
proof (induction sc attempts junk c0 cs rsp w rule: uart_loop_induct [of poll limit])
  case (1 sc attempts junk c0 cs rsp w)
  obtain q data w1 where rd: "uart_read hal (Suc (length cs)) w = (q, data, w1)"
    using prod_cases3 by blast
  show ?case
  proof (cases q)
    case (Inl e)
    with "1.prems" rd show ?thesis
      by (auto simp: uart_loop_eq [of hal poll interval limit sc attempts junk c0 cs rsp w])
  next
    case (Inr n)
    let ?chunk = "overwrite (c0 # cs) data"
    show ?thesis
    proof (cases "n = 0")
      case True
      with Inr "1.prems" rd "1.IH" [of "attempts + 1" junk sc "hd ?chunk" "tl ?chunk" rsp "uart_delay_ns hal interval w1"]
      show ?thesis
        by (auto simp: uart_loop_eq [of hal poll interval limit sc attempts junk c0 cs rsp w] Let_def split: if_splits)
    next
      case False
      obtain b :: "('e uart_error + usize) option" and sc1 junk1 rsp1
        where ub: "uart_bytes limit (take n ?chunk) sc junk rsp = (b, sc1, junk1, rsp1)"
        by (metis prod_cases4)
      note fr = uart_bytes_framed [OF ub]
      show ?thesis
      proof (cases b)
        case None
        with uart_bytes_less [of limit n c0 cs data sc junk rsp sc1 junk1 rsp1] ub False
          "1.IH" [of attempts junk1 sc1 "hd ?chunk" "tl ?chunk" rsp1 w1] Inr "1.prems" rd fr show ?thesis
          by (auto simp: uart_loop_eq [of hal poll interval limit sc attempts junk c0 cs rsp w] Let_def)
      next
        case (Some x)
        with ub False Inr "1.prems" rd fr show ?thesis
          by (auto simp: uart_loop_eq [of hal poll interval limit sc attempts junk c0 cs rsp w] Let_def)
      qed
    qed
  qed
qed

interpretation uart: stream_transport "uart_request hal" for hal :: "('w, 'e) uart_hal"
  by unfold_locales (auto simp: uart_request_def split: prod.splits sum.splits dest: uart_loop_framed)

section \<open>Reception\<close>

text \<open>
  The port delivers the segments in order, one per read: an empty segment is a read that
  timed out, and only then the adapter pauses.
\<close>

primrec uart_delivers :: "('w, 'e) uart_hal \<Rightarrow> 'w \<Rightarrow> bytes list \<Rightarrow> bool" where
  "uart_delivers hal w [] \<longleftrightarrow> True"
| "uart_delivers hal w (seg # segs) \<longleftrightarrow>
     length seg \<le> 32 \<and> (\<exists>w'. uart_read hal 32 w = (Ok (length seg), seg, w') \<and>
       (if seg = [] then \<forall>ns. uart_delivers hal (uart_delay_ns hal ns w') segs else uart_delivers hal w' segs))"

abbreviation babble :: "scan list \<Rightarrow> nat" where
  "babble rs \<equiv> length (filter (\<lambda>r. r \<noteq> Frame) rs)"

lemma uart_bytes_feed:
  assumes "feed sc bs rsp = (rs, sc', rsp')" and "\<forall>r \<in> set rs. \<not> is_done r"
    and "unat junk + babble rs < unat limit"
  shows "\<exists>junk'. uart_bytes limit bs sc junk rsp = (None, sc', junk', rsp') \<and> unat junk' = unat junk + babble rs"
  using assms
proof (induction bs arbitrary: sc rsp rs junk)
  case (Cons b bs)
  obtain res sc1 rsp1 where p: "push sc b rsp = (res, sc1, rsp1)"
    using prod_cases3 by blast
  obtain rs1 where f: "feed sc1 bs rsp1 = (rs1, sc', rsp')" and rs: "rs = res # rs1"
    using Cons.prems(1) p by (auto split: prod.splits)
  show ?case
  proof (cases "res = Frame")
    case True
    with Cons.IH [OF f] Cons.prems p rs show ?thesis by simp
  next
    case False
    then have "unat junk + 1 < unat limit" "unat junk < unat limit"
      using Cons.prems(3) rs by auto
    then have j: "unat (junk + 1) = Suc (unat junk)" "\<not> limit \<le> junk + 1"
      using word_succ_unat [of junk limit] by (simp_all add: word_less_nat_alt word_le_nat_alt not_le)
    moreover have "\<not> is_done res"
      using Cons.prems(2) rs by simp
    ultimately show ?thesis
      using Cons.IH [OF f, of "junk + 1"] Cons.prems(2,3) p rs False by (cases res) (auto simp: Let_def is_done_def)
  qed
qed simp

lemma uart_bytes_append:
  fixes q :: "('e uart_error + usize) option"
  assumes "uart_bytes limit bs sc junk rsp = (None :: ('e uart_error + usize) option, sc1, junk1, rsp1)"
    and "uart_bytes limit ys sc1 junk1 rsp1 = (q, sc2, junk2, rsp2)"
  shows "uart_bytes limit (bs @ ys) sc junk rsp = (q, sc2, junk2, rsp2)"
  using assms
proof (induction bs arbitrary: sc junk rsp)
  case (Cons x bs)
  then show ?case
    by (cases "push sc x rsp"; cases "fst (push sc x rsp)") (auto simp: Let_def split: if_splits)
qed simp

lemma uart_bytes_done:
  assumes "feed sc (bs @ [b]) rsp = (rs @ [Done n], sc', rsp')" and "\<forall>r \<in> set rs. \<not> is_done r"
    and "unat junk + babble rs < unat limit"
  shows "\<exists>sc' junk'. uart_bytes limit (bs @ b # rest) sc junk rsp =
     (Some (Ok n :: 'e uart_error + usize), sc', junk', rsp')"
proof -
  obtain rs0 sc0 rsp0 where f: "feed sc bs rsp = (rs0, sc0, rsp0)"
    using prod_cases3 by blast
  obtain res where "push sc0 b rsp0 = (res, sc', rsp')" "rs @ [Done n] = rs0 @ [res]"
    using assms(1) f by (auto simp: feed_append split: prod.splits)
  then have p: "push sc0 b rsp0 = (Done n, sc', rsp')" and rs: "rs0 = rs"
    by auto
  obtain junk' where "uart_bytes limit bs sc junk rsp = (None :: ('e uart_error + usize) option, sc0, junk', rsp0)"
    using uart_bytes_feed [OF f [unfolded rs] assms(2,3)] by blast
  from uart_bytes_append [OF this] p show ?thesis by fastforce
qed

lemma uart_loop_receives:
  fixes hal :: "('w, 'e) uart_hal"
  assumes "concat segs = bs @ b # rest" and "feed sc (bs @ [b]) rsp = (rs @ [Done n], sc', rsp')"
    and "\<forall>r \<in> set rs. \<not> is_done r" and "unat junk + babble rs < unat limit"
    and "unat attempts + length (filter (\<lambda>seg. seg = []) segs) < unat poll"
    and "uart_delivers hal w segs" and "length cs = 31"
  shows "\<exists>w'. uart_loop hal poll interval limit sc attempts junk c0 cs rsp w = (Ok n, rsp', w')"
  using assms
proof (induction segs arbitrary: bs sc rsp rs junk attempts w c0 cs)
  case (Cons seg segs)
  let ?chunk = "overwrite (c0 # cs) seg"
  have chunk: "length ?chunk = 32" "hd ?chunk # tl ?chunk = ?chunk"
    using Cons.prems(7) by (simp_all del: overwrite.simps)
  then have tl31: "length (tl ?chunk) = 31"
    by simp
  obtain w1 where seg: "length seg \<le> 32" and rd: "uart_read hal (Suc (length cs)) w = (Ok (length seg), seg, w1)"
    and dl: "if seg = [] then \<forall>ns. uart_delivers hal (uart_delay_ns hal ns w1) segs else uart_delivers hal w1 segs"
    using Cons.prems(6,7) by auto
  note step = uart_loop_eq [of hal poll interval limit sc attempts junk c0 cs rsp w]
  show ?case
  proof (cases "seg = []")
    case True
    have "unat attempts + 1 < unat poll" "unat attempts < unat poll"
      using Cons.prems(5) True by auto
    then have a: "unat (attempts + 1) = Suc (unat attempts)" "\<not> poll \<le> attempts + 1"
      using word_succ_unat [of attempts poll] by (simp_all add: word_less_nat_alt word_le_nat_alt not_le)
    with Cons.IH [OF _ Cons.prems(2,3,4) _ _ tl31, of "attempts + 1"] Cons.prems(1,5) dl True
    show ?thesis
      by (simp add: step rd True Let_def del: overwrite.simps)
  next
    case False
    have front: "take (length seg) ?chunk = seg"
      using seg Cons.prems(7) unfolding overwrite_eq by simp
    show ?thesis
    proof (cases "length seg \<le> length bs")
      case True
      then obtain bs2 where bs: "bs = seg @ bs2" "concat segs = bs2 @ b # rest"
        using Cons.prems(1) by (auto simp: append_eq_append_conv_if) (metis append_take_drop_id)
      obtain rs1 sc1 rsp1 where f1: "feed sc seg rsp = (rs1, sc1, rsp1)"
        using prod_cases3 by blast
      obtain rs2 where f2: "feed sc1 (bs2 @ [b]) rsp1 = (rs2, sc', rsp')" "rs @ [Done n] = rs1 @ rs2"
        using Cons.prems(2) f1 unfolding bs(1) append_assoc feed_append [of sc seg] by (auto split: prod.splits)
      have "rs2 \<noteq> []"
        using length_feed [OF f2(1)] by auto
      then obtain rs3 where rs3: "rs2 = rs3 @ [Done n]" "rs = rs1 @ rs3"
        using f2(2) by (metis append_butlast_last_id append_assoc last_appendR butlast_append last_snoc butlast_snoc)
      obtain junk1 where ub: "uart_bytes limit seg sc junk rsp = (None :: ('e uart_error + usize) option, sc1, junk1, rsp1)"
        "unat junk1 = unat junk + babble rs1"
        using uart_bytes_feed [OF f1, of junk limit] Cons.prems(3,4) rs3(2) by auto
      have "\<exists>w'. uart_loop hal poll interval limit sc1 attempts junk1 (hd ?chunk) (tl ?chunk) rsp1 w1 = (Ok n, rsp', w')"
        using Cons.IH [OF bs(2) f2(1) [unfolded rs3(1)] _ _ _ _ tl31] Cons.prems(3,4,5) rs3(2) ub(2) False dl by simp
      then show ?thesis
        using False by (simp add: step rd Let_def front ub(1) del: overwrite.simps)
    next
      case longer: False
      then obtain rest2 where "seg = bs @ b # rest2"
        using Cons.prems(1) by (auto simp: append_eq_append_conv2 append_eq_Cons_conv)
      with uart_bytes_done [OF Cons.prems(2,3,4), where rest = rest2] obtain sc2 junk2 where
        "uart_bytes limit seg sc junk rsp = (Some (Ok n :: 'e uart_error + usize), sc2, junk2, rsp')"
        by blast
      then show ?thesis
        using False by (simp add: step rd Let_def front del: overwrite.simps)
    qed
  qed
qed simp

section \<open>Properties\<close>

text \<open>
  The UART adapter finds the response however the stream is cut up. Let the port
  deliver, in reads of at most 32 bytes with fewer idle reads between them than the poll
  budget, babble without a sync byte shorter than the scan limit, then a sync byte and a
  frame that fits the response buffer, and then anything: the request succeeds with the
  frame's exact length and the frame at the front of the buffer.
\<close>

lemma uart_receives_response:
  assumes "uart_write_all hal [SYNC] (uart_hw t) = (Ok (), w1)" and "uart_write_all hal req w1 = (Ok (), w2)"
    and "uart_flush hal w2 = (Ok (), w3)" and "uart_delivers hal w3 segs"
    and "concat segs = g @ SYNC # wire c pl @ rest" and "SYNC \<notin> set g"
    and "length g < unat (uart_scan_limit t)"
    and "length (filter (\<lambda>seg. seg = []) segs) < unat (uart_poll_attempts t)"
    and "length pl \<le> 252" and "length pl + 3 \<le> length rsp"
  shows "\<exists>t'. uart_request hal t req rsp = (Ok (length pl + 3), t', wire c pl @ drop (length pl + 3) rsp)"
proof -
  let ?rs = "replicate (length g) Hunt @ replicate (length pl + 3) Frame"
  have w: "wire c pl = butlast (wire c pl) @ [last (wire c pl)]"
    by (metis append_butlast_last_id length_wire list.size(3) add_is_0 zero_neq_numeral)
  have segs: "concat segs = (g @ SYNC # butlast (wire c pl)) @ last (wire c pl) # rest"
    using assms(5) w by (metis append.assoc append_Cons append_Nil)
  have "feed scanner_new ((g @ SYNC # butlast (wire c pl)) @ [last (wire c pl)]) rsp =
      (?rs @ [Done (length pl + 3)], scanner_new, wire c pl @ drop (length pl + 3) rsp)"
    using feed_found [OF assms(6,9,10), of c] w by simp
  moreover have "\<forall>r \<in> set ?rs. \<not> is_done r"
    by (auto simp: is_done_def)
  ultimately have "\<exists>w'. uart_loop hal (uart_poll_attempts t) (uart_poll_interval_ns t) (uart_scan_limit t)
      scanner_new 0 0 0 (replicate 31 0) rsp w3 = (Ok (length pl + 3), wire c pl @ drop (length pl + 3) rsp, w')"
    by (rule uart_loop_receives [OF segs]) (use assms in simp_all)
  then show ?thesis
    using assms(1-3) by (auto simp: uart_request_def)
qed

text \<open>A port that plays back recorded segments.\<close>

definition tape_uart :: "(bytes list, unit) uart_hal" where
  "tape_uart = \<lparr>uart_write_all = (\<lambda>_ w. (Ok (), w)), uart_flush = (\<lambda>w. (Ok (), w)),
     uart_read = (\<lambda>_ w. case w of [] \<Rightarrow> (Ok 0, [], []) | seg # segs \<Rightarrow> (Ok (length seg), seg, segs)),
     uart_delay_ns = (\<lambda>_ w. w)\<rparr>"

lemma tape_uart_delivers: "\<forall>seg \<in> set segs. length seg \<le> 32 \<Longrightarrow> uart_delivers tape_uart segs segs"
  by (induction segs) (auto simp: tape_uart_def)

end
