(* ===== verification/Softuart_Transport.thy ===== *)
theory Softuart_Transport
  imports Uart_Transport
begin

text \<open>
  \<^verbatim>\<open>updater-eh/src/softuart.rs\<close>: the bit-banged 9600-baud 8N1 transport over two
  pins. The pins and the delay are parameters. After the code come the two halves of its
  timing argument: the waveform that \<open>send_byte\<close> drives, and the bytes that the sampling
  loop reads from such a waveform.
\<close>

record ('w, 't, 'r) softuart_hal =
  su_set_high :: "'w \<Rightarrow> ('t + unit) \<times> 'w"
  su_set_low :: "'w \<Rightarrow> ('t + unit) \<times> 'w"
  su_is_high :: "'w \<Rightarrow> ('r + bool) \<times> 'w"
  su_is_low :: "'w \<Rightarrow> ('r + bool) \<times> 'w"
  su_delay_ns :: "u32 \<Rightarrow> 'w \<Rightarrow> 'w"

definition SOFTUART_BIT_NS :: u32 where "SOFTUART_BIT_NS = 104167"

definition HALF_BIT_NS :: u32 where "HALF_BIT_NS = SOFTUART_BIT_NS div 2"

definition BIT_1_5_NS :: u32 where
  "BIT_1_5_NS = (if unat SOFTUART_BIT_NS + unat HALF_BIT_NS < 2 ^ 32 then SOFTUART_BIT_NS + HALF_BIT_NS else - 1)"

definition DEFAULT_SOFTUART_POLL_ATTEMPTS :: u32 where "DEFAULT_SOFTUART_POLL_ATTEMPTS = 500000"

definition DEFAULT_SOFTUART_POLL_INTERVAL_NS :: u32 where "DEFAULT_SOFTUART_POLL_INTERVAL_NS = 2000"

datatype ('t, 'r) softuart_error = SoftTx 't | SoftRx 'r | SoftExhausted u32 | SoftDesync u32

record 'w softuart_transport =
  su_hw :: 'w
  su_poll_attempts :: u32
  su_poll_interval_ns :: u32
  su_scan_limit :: u32

definition softuart_new :: "'w \<Rightarrow> 'w softuart_transport" where
  "softuart_new w = \<lparr>su_hw = w, su_poll_attempts = DEFAULT_SOFTUART_POLL_ATTEMPTS,
     su_poll_interval_ns = DEFAULT_SOFTUART_POLL_INTERVAL_NS, su_scan_limit = DEFAULT_SCAN_LIMIT\<rparr>"

definition softuart_set_poll :: "'w softuart_transport \<Rightarrow> u32 \<Rightarrow> u32 \<Rightarrow> 'w softuart_transport" where
  "softuart_set_poll t attempts interval_ns =
     t\<lparr>su_poll_attempts := clamp_attempts attempts, su_poll_interval_ns := interval_ns\<rparr>"

definition softuart_with_poll :: "'w softuart_transport \<Rightarrow> u32 \<Rightarrow> u32 \<Rightarrow> 'w softuart_transport" where
  "softuart_with_poll t attempts interval_ns = softuart_set_poll t attempts interval_ns"

definition softuart_with_scan_limit :: "'w softuart_transport \<Rightarrow> u32 \<Rightarrow> 'w softuart_transport" where
  "softuart_with_scan_limit t bytes' = t\<lparr>su_scan_limit := max bytes' 1\<rparr>"

definition softuart_release :: "'w softuart_transport \<Rightarrow> 'w" where
  "softuart_release t = su_hw t"

section \<open>Sending\<close>

definition tx_high :: "('w, 't, 'r) softuart_hal \<Rightarrow> 'w \<Rightarrow> (('t, 'r) softuart_error + unit) \<times> 'w" where
  "tx_high hal w = map_prod (map_err SoftTx) id (su_set_high hal w)"

definition tx_low :: "('w, 't, 'r) softuart_hal \<Rightarrow> 'w \<Rightarrow> (('t, 'r) softuart_error + unit) \<times> 'w" where
  "tx_low hal w = map_prod (map_err SoftTx) id (su_set_low hal w)"

text \<open>The data bits of \<open>send_byte\<close>: the body of \<open>for bit in 0..8\<close>, over the bits still to send.\<close>

fun send_bits :: "('w, 't, 'r) softuart_hal \<Rightarrow> u8 \<Rightarrow> nat list \<Rightarrow> 'w \<Rightarrow> (('t, 'r) softuart_error + unit) \<times> 'w" where
  "send_bits hal byte [] w = (Ok (), w)"
| "send_bits hal byte (b # bits) w =
     st_bind (if drop_bit b byte AND 1 \<noteq> 0 then tx_high hal w else tx_low hal w)
       (\<lambda>_ w. send_bits hal byte bits (su_delay_ns hal SOFTUART_BIT_NS w))"

definition send_byte :: "('w, 't, 'r) softuart_hal \<Rightarrow> u8 \<Rightarrow> 'w \<Rightarrow> (('t, 'r) softuart_error + unit) \<times> 'w" where
  "send_byte hal byte w =
     st_bind (tx_low hal w) (\<lambda>_ w.
     st_bind (send_bits hal byte [0..<8] (su_delay_ns hal SOFTUART_BIT_NS w)) (\<lambda>_ w.
     st_bind (tx_high hal w) (\<lambda>_ w. (Ok (), su_delay_ns hal SOFTUART_BIT_NS w))))"

fun send_bytes :: "('w, 't, 'r) softuart_hal \<Rightarrow> bytes \<Rightarrow> 'w \<Rightarrow> (('t, 'r) softuart_error + unit) \<times> 'w" where
  "send_bytes hal [] w = (Ok (), w)"
| "send_bytes hal (b # bs) w = st_bind (send_byte hal b w) (\<lambda>_ w. send_bytes hal bs w)"

text \<open>The first half of \<open>request\<close>: one bit time of mark, the sync byte and the frame.\<close>

definition softuart_send :: "('w, 't, 'r) softuart_hal \<Rightarrow> bytes \<Rightarrow> 'w \<Rightarrow> (('t, 'r) softuart_error + unit) \<times> 'w" where
  "softuart_send hal req w =
     st_bind (tx_high hal w) (\<lambda>_ w.
     st_bind (send_byte hal SYNC (su_delay_ns hal SOFTUART_BIT_NS w)) (\<lambda>_ w.
     send_bytes hal req w))"

section \<open>Receiving\<close>

definition rx_is_high :: "('w, 't, 'r) softuart_hal \<Rightarrow> 'w \<Rightarrow> (('t, 'r) softuart_error + bool) \<times> 'w" where
  "rx_is_high hal w = map_prod (map_err SoftRx) id (su_is_high hal w)"

definition rx_is_low :: "('w, 't, 'r) softuart_hal \<Rightarrow> 'w \<Rightarrow> (('t, 'r) softuart_error + bool) \<times> 'w" where
  "rx_is_low hal w = map_prod (map_err SoftRx) id (su_is_low hal w)"

text \<open>Hunting the start edge: the idle samples taken so far, when the line goes low.\<close>

function hunt ::
  "('w, 't, 'r) softuart_hal \<Rightarrow> u32 \<Rightarrow> u32 \<Rightarrow> u32 \<Rightarrow> 'w \<Rightarrow> (('t, 'r) softuart_error + u32) \<times> 'w"
where
  "hunt hal poll interval attempts w =
     st_bind (rx_is_high hal w) (\<lambda>high w.
       if \<not> high then (Ok attempts, w)
       else let attempts = attempts + 1 in
         if attempts \<ge> poll then (Err (SoftExhausted attempts), w)
         else hunt hal poll interval attempts (su_delay_ns hal interval w))"
  by pat_completeness auto
termination
  by (relation "measure (\<lambda>(hal, poll, interval, attempts, w). budget_left poll attempts)") auto

fun recv_bits ::
  "('w, 't, 'r) softuart_hal \<Rightarrow> nat list \<Rightarrow> u8 \<Rightarrow> 'w \<Rightarrow> (('t, 'r) softuart_error + u8) \<times> 'w"
where
  "recv_bits hal [] byte w = (Ok byte, w)"
| "recv_bits hal (b # bits) byte w =
     st_bind (rx_is_high hal w) (\<lambda>high w.
       recv_bits hal bits (if high then byte OR push_bit b 1 else byte) (su_delay_ns hal SOFTUART_BIT_NS w))"

text \<open>After a framing error: at most \<open>n\<close> half bits of waiting for the line to return to mark.\<close>

fun wait_mark :: "('w, 't, 'r) softuart_hal \<Rightarrow> nat \<Rightarrow> 'w \<Rightarrow> (('t, 'r) softuart_error + unit) \<times> 'w" where
  "wait_mark hal 0 w = (Ok (), w)"
| "wait_mark hal (Suc n) w =
     st_bind (rx_is_high hal w) (\<lambda>high w.
       if high then (Ok (), w) else wait_mark hal n (su_delay_ns hal HALF_BIT_NS w))"

text \<open>The outer \<open>loop\<close> of \<open>request\<close>: one received byte per turn.\<close>

function softuart_loop ::
  "('w, 't, 'r) softuart_hal \<Rightarrow> u32 \<Rightarrow> u32 \<Rightarrow> u32 \<Rightarrow> rx_scanner \<Rightarrow> u32 \<Rightarrow> u32 \<Rightarrow> bytes \<Rightarrow> 'w \<Rightarrow>
     (('t, 'r) softuart_error + usize) \<times> bytes \<times> 'w"
where
  "softuart_loop hal poll interval limit sc attempts junk rsp w =
     (case hunt hal poll interval attempts w of
        (Err e, w) \<Rightarrow> (Err e, rsp, w)
      | (Ok attempts, w) \<Rightarrow>
          (case recv_bits hal [0..<8] 0 (su_delay_ns hal BIT_1_5_NS w) of
             (Err e, w) \<Rightarrow> (Err e, rsp, w)
           | (Ok byte, w) \<Rightarrow>
               (case rx_is_low hal w of
                  (Err e, w) \<Rightarrow> (Err e, rsp, w)
                | (Ok low, w) \<Rightarrow>
                    if low then
                      (case wait_mark hal 20 w of
                         (Err e, w) \<Rightarrow> (Err e, rsp, w)
                       | (Ok _, w) \<Rightarrow>
                           let junk = junk + 1 in
                           if junk \<ge> limit then (Err (SoftDesync junk), rsp, w)
                           else softuart_loop hal poll interval limit sc attempts junk rsp w)
                    else
                      (case push sc byte rsp of
                         (Done len, sc, rsp) \<Rightarrow> (Ok len, rsp, w)
                       | (Frame, sc, rsp) \<Rightarrow> softuart_loop hal poll interval limit sc attempts junk rsp w
                       | (_, sc, rsp) \<Rightarrow>
                           let junk = junk + 1 in
                           if junk \<ge> limit then (Err (SoftDesync junk), rsp, w)
                           else softuart_loop hal poll interval limit sc attempts junk rsp w))))"
  by pat_completeness auto
termination
  by (relation "measure (\<lambda>(hal, poll, interval, limit, sc, attempts, junk, rsp, w). scan_budget limit junk sc)")
    (auto simp: Suc_le_eq [symmetric] intro: scan_budget_frame scan_budget_spend dest: sym)

definition softuart_request ::
  "('w, 't, 'r) softuart_hal \<Rightarrow> ('w softuart_transport, ('t, 'r) softuart_error) request_fn" where
  "softuart_request hal t req rsp =
     (case softuart_send hal req (su_hw t) of
        (Err e, w) \<Rightarrow> (Err e, t\<lparr>su_hw := w\<rparr>, rsp)
      | (Ok _, w) \<Rightarrow>
          (case softuart_loop hal (su_poll_attempts t) (su_poll_interval_ns t) (su_scan_limit t)
                  scanner_new 0 0 rsp w of
             (r, rsp', w') \<Rightarrow> (r, t\<lparr>su_hw := w'\<rparr>, rsp')))"

declare hunt.simps [simp del] softuart_loop.simps [simp del]

section \<open>The stream contract\<close>

text \<open>One turn of the loop, when the pins work: the byte and its stop bit.\<close>

lemma softuart_turn:
  assumes "hunt hal poll interval attempts w = (Ok attempts1, w1)"
    and "recv_bits hal [0..<8] 0 (su_delay_ns hal BIT_1_5_NS w1) = (Ok byte, w2)"
    and "rx_is_low hal w2 = (Ok False, w3)" and "push sc byte rsp = (res, sc1, rsp1)"
  shows "softuart_loop hal poll interval limit sc attempts junk rsp w =
    (case res of
       Done n \<Rightarrow> (Ok n, rsp1, w3)
     | Frame \<Rightarrow> softuart_loop hal poll interval limit sc1 attempts1 junk rsp1 w3
     | _ \<Rightarrow> if limit \<le> junk + 1 then (Err (SoftDesync (junk + 1)), rsp1, w3)
            else softuart_loop hal poll interval limit sc1 attempts1 (junk + 1) rsp1 w3)"
  using assms softuart_loop.simps [of hal poll interval limit sc attempts junk rsp w]
  by (simp add: Let_def split: scan.split)

lemma softuart_loop_framed:
  fixes hal :: "('w, 't, 'r) softuart_hal"
  shows "softuart_loop hal poll interval limit sc attempts junk rsp w = (r, rsp', w') \<Longrightarrow>
     length rsp' = length rsp \<and> (\<forall>n. r = Ok n \<longrightarrow> n \<le> length rsp \<and> is_ok (decode (take n rsp')))"
proof (induction "scan_budget limit junk sc" arbitrary: sc attempts junk rsp w rule: less_induct)
  case less
  note step = softuart_loop.simps [of hal poll interval limit sc attempts junk rsp w]
  show ?case
  proof (cases "\<exists>attempts1 w1 byte w2 l w3. hunt hal poll interval attempts w = (Ok attempts1, w1)
      \<and> recv_bits hal [0..<8] 0 (su_delay_ns hal BIT_1_5_NS w1) = (Ok byte, w2) \<and> rx_is_low hal w2 = (Ok l, w3)")
    case False
    with less.prems step show ?thesis
      by (auto split: prod.splits sum.splits)
  next
    case True
    then obtain attempts1 w1 byte w2 l w3 where ok: "hunt hal poll interval attempts w = (Ok attempts1, w1)"
      "recv_bits hal [0..<8] 0 (su_delay_ns hal BIT_1_5_NS w1) = (Ok byte, w2)" "rx_is_low hal w2 = (Ok l, w3)"
      by blast
    note spend = scan_budget_spend [of limit junk]
    show ?thesis
    proof (cases l)
      case True
      with less.prems step ok less.hyps [of "junk + 1" sc] spend [of sc sc] show ?thesis
        by (auto simp: Let_def Suc_le_eq split: prod.splits sum.splits if_splits)
    next
      case False
      obtain res sc1 rsp1 where p: "push sc byte rsp = (res, sc1, rsp1)"
        using prod_cases3 by blast
      have low: "rx_is_low hal w2 = (Ok False, w3)"
        using ok(3) False by simp
      note turn = softuart_turn [OF ok(1,2) low p, of limit junk] and len = length_push [OF p]
      show ?thesis
      proof (cases res)
        case Done
        with less.prems turn len p push_Done [of sc byte rsp _ sc1 rsp1] show ?thesis by auto
      next
        case Frame
        with less.prems turn len p less.hyps [of junk sc1 attempts1 rsp1 w3] scan_budget_frame [of sc byte rsp sc1 rsp1 limit junk]
        show ?thesis by (auto simp: Suc_le_eq)
      qed (use less.prems turn len less.hyps [of "junk + 1" sc1 attempts1 rsp1 w3] spend [of sc1 sc] in \<open>auto simp: Suc_le_eq split: if_splits\<close>)
    qed
  qed
qed

interpretation softuart: stream_transport "softuart_request hal" for hal :: "('w, 't, 'r) softuart_hal"
  by unfold_locales (auto simp: softuart_request_def split: prod.splits sum.splits dest: softuart_loop_framed)

section \<open>The line\<close>

text \<open>
  Level of an 8N1 byte in its \<open>k\<close>-th bit time: a low start bit, the data bits from the
  lowest, a high stop bit.
\<close>

definition frame_level :: "u8 \<Rightarrow> nat \<Rightarrow> bool" where
  "frame_level b k = (if k = 0 then False else if k \<le> 8 then bit b (k - 1) else True)"

text \<open>
  From time \<open>t\<close> the line carries the scheduled bytes at \<open>T\<close> a bit, each with the time of its
  start edge, at mark before and between them. Times are in nanoseconds.
\<close>

fun carries :: "nat \<Rightarrow> (nat \<Rightarrow> bool) \<Rightarrow> nat \<Rightarrow> (nat \<times> u8) list \<Rightarrow> bool" where
  "carries T lev t [] \<longleftrightarrow> True"
| "carries T lev t ((s, b) # sched) \<longleftrightarrow>
     t \<le> s \<and> (\<forall>u. t \<le> u \<and> u < s \<longrightarrow> lev u) \<and> (\<forall>u < 10 * T. lev (s + u) = frame_level b (u div T))
     \<and> carries T lev (s + 10 * T) sched"

text \<open>
  A receiver whose pin shows the line \<open>lev (env w)\<close>, and whose delays last at least what was
  asked and at most \<open>jit\<close> longer; \<open>env\<close> is what it leaves alone.
\<close>

definition paced :: "('w, 't, 'r) softuart_hal \<Rightarrow> ('w \<Rightarrow> nat) \<Rightarrow> ('w \<Rightarrow> 'x) \<Rightarrow> ('x \<Rightarrow> nat \<Rightarrow> bool) \<Rightarrow> nat \<Rightarrow> bool" where
  "paced hal clock env lev jit \<longleftrightarrow>
     (\<forall>w. su_is_high hal w = (Ok (lev (env w) (clock w)), w) \<and> su_is_low hal w = (Ok (\<not> lev (env w) (clock w)), w)) \<and>
     (\<forall>ns w. clock w + unat ns \<le> clock (su_delay_ns hal ns w) \<and> clock (su_delay_ns hal ns w) \<le> clock w + unat ns + jit
        \<and> env (su_delay_ns hal ns w) = env w)"

text \<open>A transmitter whose pin drives the line and whose delays are exact.\<close>

definition drives :: "('w, 't, 'r) softuart_hal \<Rightarrow> ('w \<Rightarrow> nat) \<Rightarrow> ('w \<Rightarrow> 'x) \<Rightarrow> ('w \<Rightarrow> nat \<Rightarrow> bool) \<Rightarrow> bool" where
  "drives hal clock env lev \<longleftrightarrow>
     (\<forall>w. \<exists>w'. su_set_high hal w = (Ok (), w') \<and> clock w' = clock w \<and> env w' = env w
        \<and> lev w' = (\<lambda>u. if u < clock w then lev w u else True)) \<and>
     (\<forall>w. \<exists>w'. su_set_low hal w = (Ok (), w') \<and> clock w' = clock w \<and> env w' = env w
        \<and> lev w' = (\<lambda>u. if u < clock w then lev w u else False)) \<and>
     (\<forall>ns w. clock (su_delay_ns hal ns w) = clock w + unat ns \<and> lev (su_delay_ns hal ns w) = lev w
        \<and> env (su_delay_ns hal ns w) = env w)"

lemma softuart_times [simp]:
  "unat SOFTUART_BIT_NS = 104167" "unat HALF_BIT_NS = 52083" "unat BIT_1_5_NS = 156250"
  by (simp_all add: SOFTUART_BIT_NS_def HALF_BIT_NS_def BIT_1_5_NS_def)

section \<open>What the transmitter drives\<close>

lemma drive_level:
  assumes "drives hal clock env lev"
  shows "\<exists>w'. (if v then tx_high hal w else tx_low hal w) = (Ok (), w') \<and> clock w' = clock w \<and> env w' = env w
     \<and> lev w' = (\<lambda>u. if u < clock w then lev w u else v)"
proof -
  obtain w1 w2 where "su_set_high hal w = (Ok (), w1)" "clock w1 = clock w" "env w1 = env w"
    "lev w1 = (\<lambda>u. if u < clock w then lev w u else True)"
    "su_set_low hal w = (Ok (), w2)" "clock w2 = clock w" "env w2 = env w" "lev w2 = (\<lambda>u. if u < clock w then lev w u else False)"
    using assms unfolding drives_def by metis
  then show ?thesis
    by (cases v) (simp_all add: tx_high_def tx_low_def)
qed

text \<open>A run of bits: each level for a time \<open>T\<close>, the last one from then on.\<close>

definition holds :: "nat \<Rightarrow> ('w \<Rightarrow> nat) \<Rightarrow> ('w \<Rightarrow> 'x) \<Rightarrow> ('w \<Rightarrow> nat \<Rightarrow> bool) \<Rightarrow> 'w \<Rightarrow> bool list \<Rightarrow> 'w \<Rightarrow> bool" where
  "holds T clock env lev w vs w' \<longleftrightarrow> clock w' = clock w + T * length vs \<and> env w' = env w \<and> (\<forall>u < clock w. lev w' u = lev w u) \<and>
     (\<forall>u < T * length vs. lev w' (clock w + u) = vs ! (u div T)) \<and>
     (vs \<noteq> [] \<longrightarrow> (\<forall>u \<ge> clock w'. lev w' u = last vs))"

lemma holds_one:
  assumes "clock w' = clock w + T" and "env w' = env w" and "lev w' = (\<lambda>u. if u < clock w then lev w u else v)"
  shows "holds T clock env lev w [v] w'"
  using assms by (auto simp: holds_def)

lemma holds_bit:
  assumes "drives hal clock env lev"
  shows "\<exists>w'. (if v then tx_high hal w else tx_low hal w) = (Ok (), w') \<and>
     holds 104167 clock env lev w [v] (su_delay_ns hal SOFTUART_BIT_NS w')"
proof -
  from drive_level [OF assms, of v w] obtain w' where w': "(if v then tx_high hal w else tx_low hal w) = (Ok (), w')"
    "clock w' = clock w" "env w' = env w" "lev w' = (\<lambda>u. if u < clock w then lev w u else v)"
    by blast
  have "clock (su_delay_ns hal SOFTUART_BIT_NS w') = clock w' + 104167" "lev (su_delay_ns hal SOFTUART_BIT_NS w') = lev w'"
    "env (su_delay_ns hal SOFTUART_BIT_NS w') = env w'"
    using assms unfolding drives_def by simp_all
  with w' show ?thesis
    by (auto intro!: holds_one)
qed

lemma holds_append:
  assumes "0 < T" and "holds T clock env lev w vs w1" and "holds T clock env lev w1 vs' w2" and "vs' \<noteq> []"
  shows "holds T clock env lev w (vs @ vs') w2"
proof -
  let ?n = "T * length vs" and ?m = "T * length vs'"
  have c: "clock w1 = clock w + ?n" "clock w2 = clock w1 + ?m"
    using assms by (simp_all add: holds_def)
  have "lev w2 (clock w + u) = (vs @ vs') ! (u div T)" if u: "u < ?n + ?m" for u
  proof (cases "u < ?n")
    case True
    then have "u div T < length vs"
      using assms(1) by (simp add: div_less_iff_less_mult mult.commute)
    moreover have "lev w2 (clock w + u) = lev w1 (clock w + u)" "lev w1 (clock w + u) = vs ! (u div T)"
      using assms(2,3) True c by (simp_all add: holds_def)
    ultimately show ?thesis by (simp add: nth_append)
  next
    case False
    then obtain v where v: "u = ?n + v" "v < ?m"
      using u by (metis add_diff_inverse_nat nat_add_left_cancel_less)
    then have "lev w2 (clock w1 + v) = vs' ! (v div T)"
      using assms(3) by (simp add: holds_def)
    moreover have "u div T = length vs + v div T"
      using v(1) assms(1) by simp
    ultimately show ?thesis
      using v(1) c by (simp add: nth_append add.assoc)
  qed
  moreover have "\<forall>u < clock w. lev w2 u = lev w u"
    using assms(2,3) c by (simp add: holds_def)
  ultimately show ?thesis
    using assms(2-4) c by (simp add: holds_def algebra_simps)
qed

lemma send_bits_holds:
  assumes "drives hal clock env lev" and "bits \<noteq> []"
  shows "\<exists>w'. send_bits hal byte bits w = (Ok (), w') \<and> holds 104167 clock env lev w (map (bit byte) bits) w'"
  using assms(2)
proof (induction bits arbitrary: w)
  case (Cons b bits)
  have b: "(drop_bit b byte AND 1 \<noteq> 0) = bit byte b"
    by (simp add: bit_iff_odd_drop_bit and_one_eq odd_iff_mod_2_eq_one)
  from holds_bit [OF assms(1), of "bit byte b" w] obtain w1 where
    w1: "(if bit byte b then tx_high hal w else tx_low hal w) = (Ok (), w1)"
    "holds 104167 clock env lev w [bit byte b] (su_delay_ns hal SOFTUART_BIT_NS w1)"
    by blast
  show ?case
  proof (cases "bits = []")
    case True
    with w1 b show ?thesis by simp
  next
    case False
    from Cons.IH [OF this, of "su_delay_ns hal SOFTUART_BIT_NS w1"] obtain w' where
      "send_bits hal byte bits (su_delay_ns hal SOFTUART_BIT_NS w1) = (Ok (), w')"
      "holds 104167 clock env lev (su_delay_ns hal SOFTUART_BIT_NS w1) (map (bit byte) bits) w'"
      by blast
    with w1 b False holds_append [OF _ w1(2)] show ?thesis by simp
  qed
qed simp

text \<open>The ten bits of a byte.\<close>

lemma frame_bits: "map (frame_level byte) [0..<10] = ([False] @ map (bit byte) [0..<8]) @ [True]"
  by (simp add: frame_level_def upt_rec)

lemma holds_byte:
  assumes "0 < T" and "holds T clock env lev w [False] w1" and "holds T clock env lev w1 (map (bit byte) [0..<8]) w2"
    and "holds T clock env lev w2 [True] w3"
  shows "holds T clock env lev w (map (frame_level byte) [0..<10]) w3"
  unfolding frame_bits using holds_append [OF assms(1) holds_append [OF assms(1-3)] assms(4)] by simp

lemma send_byte_holds:
  assumes "drives hal clock env lev"
  shows "\<exists>w'. send_byte hal byte w = (Ok (), w') \<and> holds 104167 clock env lev w (map (frame_level byte) [0..<10]) w'"
proof -
  from holds_bit [OF assms, of False w] obtain w1 where w1: "tx_low hal w = (Ok (), w1)"
    "holds 104167 clock env lev w [False] (su_delay_ns hal SOFTUART_BIT_NS w1)" by auto
  from send_bits_holds [OF assms, of "[0..<8]" byte "su_delay_ns hal SOFTUART_BIT_NS w1"] obtain w2 where
    w2: "send_bits hal byte [0..<8] (su_delay_ns hal SOFTUART_BIT_NS w1) = (Ok (), w2)"
    "holds 104167 clock env lev (su_delay_ns hal SOFTUART_BIT_NS w1) (map (bit byte) [0..<8]) w2" by auto
  from holds_bit [OF assms, of True w2] obtain w3 where w3: "tx_high hal w2 = (Ok (), w3)"
    "holds 104167 clock env lev w2 [True] (su_delay_ns hal SOFTUART_BIT_NS w3)" by auto
  have "holds 104167 clock env lev w (map (frame_level byte) [0..<10]) (su_delay_ns hal SOFTUART_BIT_NS w3)"
    by (rule holds_byte [OF _ w1(2) w2(2) w3(2)]) simp
  then show ?thesis
    using w1 w2 w3 by (simp add: send_byte_def)
qed

text \<open>Bytes back to back, from the time of the first start edge.\<close>

fun back_to_back :: "nat \<Rightarrow> nat \<Rightarrow> bytes \<Rightarrow> (nat \<times> u8) list" where
  "back_to_back T t [] = []"
| "back_to_back T t (b # bs) = (t, b) # back_to_back T (t + 10 * T) bs"

lemma map_snd_back_to_back [simp]: "map snd (back_to_back T t bs) = bs"
  by (induction bs arbitrary: t) simp_all

lemma back_to_back_snoc: "back_to_back T t (bs @ [b]) = back_to_back T t bs @ [(t + 10 * T * length bs, b)]"
  by (induction bs arbitrary: t) (simp_all add: algebra_simps)

lemma back_to_back_last: "bs \<noteq> [] \<Longrightarrow> fst (last (back_to_back T t bs)) = t + 10 * T * (length bs - 1)"
  by (cases bs rule: rev_cases) (simp_all add: back_to_back_snoc)

lemma back_to_back_starts: "x \<in> set (back_to_back T t bs) \<Longrightarrow> fst x \<le> t + 10 * T * (length bs - 1)"
proof (induction bs arbitrary: t)
  case (Cons b bs)
  then show ?case
    by (cases bs) fastforce+
qed simp

text \<open>A line that has been driven byte by byte carries them; what it was before stays.\<close>

definition carried :: "nat \<Rightarrow> ('w \<Rightarrow> nat) \<Rightarrow> ('w \<Rightarrow> 'x) \<Rightarrow> ('w \<Rightarrow> nat \<Rightarrow> bool) \<Rightarrow> 'w \<Rightarrow> bytes \<Rightarrow> 'w \<Rightarrow> bool" where
  "carried T clock env lev w bs w' \<longleftrightarrow> clock w' = clock w + 10 * T * length bs \<and> env w' = env w \<and> (\<forall>u < clock w. lev w' u = lev w u)
     \<and> carries T (lev w') (clock w) (back_to_back T (clock w) bs)
     \<and> (if bs = [] then w' = w else \<forall>u \<ge> clock w'. lev w' u)"

lemma carried_Nil: "carried T clock env lev w [] w"
  by (simp add: carried_def)

lemma carried_Cons:
  assumes "0 < T" and "holds T clock env lev w (map (frame_level b) [0..<10]) w1" and "carried T clock env lev w1 bs w'"
  shows "carried T clock env lev w (b # bs) w'"
proof -
  have "last (map (frame_level b) [0..<10])" "map (frame_level b) [0..<10] \<noteq> []"
    unfolding frame_bits by simp_all
  then have h: "clock w1 = clock w + 10 * T" "env w1 = env w" "\<forall>u < clock w. lev w1 u = lev w u"
    "\<forall>u < 10 * T. lev w1 (clock w + u) = map (frame_level b) [0..<10] ! (u div T)" "\<forall>u \<ge> clock w1. lev w1 u"
    using assms(2) by (simp_all add: holds_def mult.commute)
  have "map (frame_level b) [0..<10] ! (u div T) = frame_level b (u div T)" if "u < 10 * T" for u
    using that assms(1) by (subst nth_map) (auto simp: div_less_iff_less_mult)
  moreover have "\<forall>u \<ge> clock w'. lev w' u"
    using assms(3) h(5) by (cases "bs = []") (simp_all add: carried_def)
  ultimately show ?thesis
    using assms(3) h by (auto simp: carried_def algebra_simps)
qed

lemma send_bytes_carries:
  assumes "drives hal clock env lev"
  shows "\<exists>w'. send_bytes hal bs w = (Ok (), w') \<and> carried 104167 clock env lev w bs w'"
proof (induction bs arbitrary: w)
  case Nil
  then show ?case
    by (simp add: carried_Nil)
next
  case (Cons b bs)
  from send_byte_holds [OF assms, of b w] obtain w1 where w1: "send_byte hal b w = (Ok (), w1)"
    "holds 104167 clock env lev w (map (frame_level b) [0..<10]) w1" by blast
  from Cons.IH [of w1] w1 carried_Cons [OF _ w1(2)] show ?case by auto
qed

section \<open>What the receiver reads\<close>

lemma paced_simps:
  assumes "paced hal clock env lev jit"
  shows "rx_is_high hal w = (Ok (lev (env w) (clock w)), w)" "rx_is_low hal w = (Ok (\<not> lev (env w) (clock w)), w)"
    "clock w + unat ns \<le> clock (su_delay_ns hal ns w)" "clock (su_delay_ns hal ns w) \<le> clock w + unat ns + jit"
    "env (su_delay_ns hal ns w) = env w"
  using assms by (simp_all add: paced_def rx_is_high_def rx_is_low_def)

lemma hunt_low:
  "paced hal clock env lev jit \<Longrightarrow> \<not> lev (env w) (clock w) \<Longrightarrow> hunt hal poll interval attempts w = (Ok attempts, w)"
  by (subst hunt.simps) (simp add: paced_simps)

text \<open>
  The edge is found within one interval, and the idle samples taken are paid for by the
  time that has passed: \<open>e\<close> is a time the budget still reaches.
\<close>

lemma hunt_finds:
  assumes p: "paced hal clock env lev jit" and i: "0 < unat interval"
    and low: "\<forall>u < unat interval + jit. \<not> lev x (s + u)" and e: "s \<le> e"
  shows "\<lbrakk>env w = x; clock w \<le> s; \<forall>u. clock w \<le> u \<and> u < s \<longrightarrow> lev x u; e \<le> clock w + (unat poll - unat attempts - 1) * unat interval\<rbrakk>
    \<Longrightarrow> \<exists>attempts' w'. hunt hal poll interval attempts w = (Ok attempts', w') \<and> env w' = x
      \<and> s \<le> clock w' \<and> clock w' < s + unat interval + jit \<and> e \<le> clock w' + (unat poll - unat attempts' - 1) * unat interval"
proof (induction "s - clock w" arbitrary: attempts w rule: less_induct)
  case less
  show ?case
  proof (cases "clock w = s")
    case True
    moreover have "\<not> lev x s"
      using low i by (metis add.right_neutral add_gr_0)
    ultimately show ?thesis
      using hunt_low [OF p, of w poll interval attempts] less.prems(1,4) i by auto
  next
    case False
    then have lt: "clock w < s"
      using less.prems(2) by simp
    then have "(unat poll - unat attempts - 1) \<noteq> 0"
      using less.prems(4) e by (metis add_0_right le_trans mult_0 not_le)
    then have "unat attempts + 1 < unat poll"
      by linarith
    then have a: "unat (attempts + 1) = Suc (unat attempts)" "\<not> poll \<le> attempts + 1"
      using word_succ_unat [of attempts poll] by (simp_all add: word_less_nat_alt word_le_nat_alt not_le)
    let ?w = "su_delay_ns hal interval w"
    have env: "env ?w = x"
      using less.prems(1) by (simp add: paced_simps [OF p])
    have step: "hunt hal poll interval attempts w = hunt hal poll interval (attempts + 1) ?w"
      using less.prems(1,3) lt a by (subst hunt.simps) (simp add: paced_simps [OF p] Let_def)
    have "(unat poll - unat attempts - 1) * unat interval = unat interval + (unat poll - unat (attempts + 1) - 1) * unat interval"
    proof -
      have "unat poll - unat attempts - 1 = Suc (unat poll - unat (attempts + 1) - 1)"
        using a(1) \<open>unat attempts + 1 < unat poll\<close> by simp
      then show ?thesis by simp
    qed
    then have e': "e \<le> clock ?w + (unat poll - unat (attempts + 1) - 1) * unat interval"
      using less.prems(4) paced_simps(3) [OF p, where w = w and ns = interval] by linarith
    show ?thesis
    proof (cases "clock ?w \<le> s")
      case True
      have "s - clock ?w < s - clock w" "\<forall>u. clock ?w \<le> u \<and> u < s \<longrightarrow> lev x u"
        using lt i paced_simps(3) [OF p, where w = w and ns = interval] less.prems(3) by auto
      with less.hyps [of ?w "attempts + 1"] True e' env step show ?thesis by simp
    next
      case False
      then obtain u where u: "clock ?w = s + u" "u < unat interval + jit"
        using paced_simps(4) [OF p, where w = w and ns = interval] lt that [of "clock ?w - s"] by simp
      then have "\<not> lev (env ?w) (clock ?w)"
        using low env by simp
      from hunt_low [OF p this] step u e' env show ?thesis by auto
    qed
  qed
qed

text \<open>
  The sampling times: \<open>k + 1.5\<close> of the receiver's bit times after the edge, and at most \<open>D\<close>
  later. They fall into the right bit of a sender with bit time \<open>T\<close>, if the last two do.
\<close>

definition in_budget :: "nat \<Rightarrow> nat \<Rightarrow> bool" where
  "in_budget T D \<longleftrightarrow> 9 * T \<le> 989586 \<and> D + 989586 \<le> 10 * T \<and> D + 156250 \<le> 2 * T"

lemma in_budget_bit:
  assumes "in_budget T D" and "k \<le> 8" and "s + 156250 + k * 104167 \<le> c" and "c < s + 156250 + k * 104167 + D"
  shows "(c - s) div T = Suc k" "c - s < 10 * T" "s + (c - s) = c"
proof -
  have k: "k \<in> {0, 1, 2, 3, 4, 5, 6, 7, 8}"
    using assms(2) by auto
  have "T * Suc k \<le> c - s \<and> c - s < T * Suc (Suc k)"
    using assms(1,3,4) k by (auto simp: in_budget_def)
  then show "(c - s) div T = Suc k"
    by (intro div_nat_eqI) (simp_all add: mult.commute)
  show "c - s < 10 * T"
    using assms k by (auto simp: in_budget_def)
  show "s + (c - s) = c"
    using assms(3) by simp
qed

lemma recv_bits_reads:
  assumes p: "paced hal clock env lev jit" and lev: "\<forall>u < 10 * T. lev x (s + u) = frame_level b (u div T)" and D: "in_budget T D"
  shows "\<lbrakk>env w = x; k \<le> 8; s + 156250 + k * 104167 \<le> clock w; clock w + (8 - k) * jit < s + 156250 + k * 104167 + D\<rbrakk>
    \<Longrightarrow> \<exists>w'. recv_bits hal [k..<8] byte w = (Ok (foldl (\<lambda>v i. if bit b i then v OR push_bit i 1 else v) byte [k..<8]), w') \<and> env w' = x
      \<and> clock w + (8 - k) * 104167 \<le> clock w' \<and> clock w' \<le> clock w + (8 - k) * 104167 + (8 - k) * jit"
proof (induction "8 - k" arbitrary: k byte w)
  case (Suc n)
  then have k: "k < 8" "[k..<8] = k # [Suc k..<8]" "8 - k = Suc (8 - Suc k)"
    by (simp_all add: upt_rec)
  have u: "(clock w - s) div T = Suc k" "clock w - s < 10 * T" "s + (clock w - s) = clock w"
    using in_budget_bit [OF D, of k s "clock w"] Suc.prems(3,4) k(1) by simp_all
  have "lev x (clock w) = frame_level b ((clock w - s) div T)"
    using lev [rule_format, OF u(2)] u(3) by simp
  then have high: "lev x (clock w) = bit b k"
    unfolding u(1) using k(1) by (simp add: frame_level_def)
  let ?w = "su_delay_ns hal SOFTUART_BIT_NS w" and ?byte = "if bit b k then byte OR push_bit k 1 else byte"
  have c: "clock w + 104167 \<le> clock ?w" "clock ?w \<le> clock w + 104167 + jit" "env ?w = x"
    using paced_simps(3-5) [OF p, where w = w and ns = SOFTUART_BIT_NS] Suc.prems(1) by simp_all
  have "\<exists>w'. recv_bits hal [Suc k..<8] ?byte ?w = (Ok (foldl (\<lambda>v i. if bit b i then v OR push_bit i 1 else v) ?byte [Suc k..<8]), w')
      \<and> env w' = x \<and> clock ?w + (8 - Suc k) * 104167 \<le> clock w' \<and> clock w' \<le> clock ?w + (8 - Suc k) * 104167 + (8 - Suc k) * jit"
    by (rule Suc.hyps(1)) (use Suc.hyps(2) Suc.prems k c in simp_all)
  then show ?case
    using c Suc.prems(1) by (auto simp: k(2,3) paced_simps [OF p] high simp del: upt_Suc)
qed simp

lemma sampled_bits_upto:
  "n < 8 \<Longrightarrow> bit (foldl (\<lambda>v i. if bit b i then v OR push_bit i 1 else v) (0 :: u8) [0..<m]) n \<longleftrightarrow> n < m \<and> bit b n" for b :: u8
proof (induction m)
  case (Suc m)
  have "bit (push_bit m 1 :: u8) n \<longleftrightarrow> n = m"
    using Suc.prems by (auto simp: bit_simps)
  with Suc show ?case
    by (auto simp: bit_or_iff less_Suc_eq)
qed simp

lemma sampled_bits: "foldl (\<lambda>v i. if bit b i then v OR push_bit i 1 else v) (0 :: u8) [0..<8] = b" for b :: u8
  by (rule bit_word_eqI) (simp add: sampled_bits_upto del: upt_rec_numeral)

lemma carries_earlier:
  assumes "carries T lev t sched" and "t' \<le> t" and "\<forall>u. t' \<le> u \<and> u < t \<longrightarrow> lev u"
  shows "carries T lev t' sched"
proof (cases sched)
  case (Cons x rest)
  then show ?thesis
    using assms by (cases x) (simp, metis le_trans not_le)
qed simp

text \<open>
  One byte of the schedule, received: the poll interval and ten delays' lateness are what
  the samples may be late.
\<close>

lemma softuart_receives_byte:
  assumes p: "paced hal clock env lev jit" and i: "0 < unat interval" "in_budget T (unat interval + 10 * jit)"
    and x: "env w = x" and car: "carries T (lev x) (clock w) ((s, b) # sched)" and e: "s \<le> e"
      "e \<le> clock w + (unat poll - unat attempts - 1) * unat interval"
  shows "\<exists>attempts1 w1 w2. hunt hal poll interval attempts w = (Ok attempts1, w1)
     \<and> recv_bits hal [0..<8] 0 (su_delay_ns hal BIT_1_5_NS w1) = (Ok b, w2) \<and> rx_is_low hal w2 = (Ok False, w2)
     \<and> env w2 = x \<and> s + 989586 \<le> clock w2 \<and> clock w2 < s + 989586 + unat interval + 10 * jit
     \<and> carries T (lev x) (clock w2) sched \<and> e \<le> clock w2 + (unat poll - unat attempts1 - 1) * unat interval"
proof -
  let ?D = "unat interval + 10 * jit"
  have car': "clock w \<le> s" "\<forall>u. clock w \<le> u \<and> u < s \<longrightarrow> lev x u" "carries T (lev x) (s + 10 * T) sched"
    and lev: "\<forall>u < 10 * T. lev x (s + u) = frame_level b (u div T)"
    using car by simp_all
  have "?D < T"
    using i(2) by (simp add: in_budget_def)
  then have "\<forall>u < unat interval + jit. \<not> lev x (s + u)"
    using lev by (simp add: frame_level_def)
  from hunt_finds [OF p i(1) this e(1) x car'(1,2) e(2)] obtain attempts1 w1 where
    h: "hunt hal poll interval attempts w = (Ok attempts1, w1)" "env w1 = x" "s \<le> clock w1" "clock w1 < s + unat interval + jit"
      "e \<le> clock w1 + (unat poll - unat attempts1 - 1) * unat interval"
    by blast
  let ?w = "su_delay_ns hal BIT_1_5_NS w1"
  have c: "clock w1 + 156250 \<le> clock ?w" "clock ?w \<le> clock w1 + 156250 + jit" "env ?w = x"
    using paced_simps(3-5) [OF p, where w = w1 and ns = BIT_1_5_NS] h(2) by simp_all
  have "\<exists>w'. recv_bits hal [0..<8] 0 ?w = (Ok (foldl (\<lambda>v i. if bit b i then v OR push_bit i 1 else v) 0 [0..<8]), w') \<and> env w' = x
      \<and> clock ?w + (8 - 0) * 104167 \<le> clock w' \<and> clock w' \<le> clock ?w + (8 - 0) * 104167 + (8 - 0) * jit"
    by (rule recv_bits_reads [OF p lev i(2)]) (use c h in simp_all)
  then obtain w2 where w2: "recv_bits hal [0..<8] 0 ?w = (Ok b, w2)" "env w2 = x"
    "clock ?w + 833336 \<le> clock w2" "clock w2 \<le> clock ?w + 833336 + 8 * jit"
    by (auto simp: sampled_bits simp del: upt_rec_numeral)
  have bounds: "s + 989586 \<le> clock w2" "clock w2 < s + 989586 + unat interval + 10 * jit" "9 * T \<le> 989586"
    "clock w2 < s + 10 * T"
    using w2(3,4) c(1,2) h(3,4) i(2) by (simp_all add: in_budget_def)
  have stop: "lev x u" if "clock w2 \<le> u" "u < s + 10 * T" for u
  proof -
    have u: "(u - s) div T = 9" "u - s < 10 * T" "s + (u - s) = u"
      using that bounds(1,3) by (auto intro!: div_nat_eqI)
    have "lev x (s + (u - s)) = frame_level b ((u - s) div T)"
      using lev u(2) by blast
    then show ?thesis
      unfolding u(1,3) by (simp add: frame_level_def)
  qed
  then have "carries T (lev x) (clock w2) sched" "lev x (clock w2)"
    using carries_earlier [OF car'(3), of "clock w2"] bounds(4) by simp_all
  moreover have "e \<le> clock w2 + (unat poll - unat attempts1 - 1) * unat interval"
    using h(5) w2(3) c(1) by linarith
  ultimately show ?thesis
    using h(1) w2(1,2) bounds(1,2) paced_simps(2) [OF p, of w2] by simp
qed

lemma softuart_loop_receives:
  assumes p: "paced hal clock env lev jit" and i: "0 < unat interval" "in_budget T (unat interval + 10 * jit)"
  shows "\<lbrakk>env w = x; carries T (lev x) (clock w) sched; map snd sched = bs @ [b]; \<forall>y \<in> set sched. fst y \<le> e;
      e \<le> clock w + (unat poll - unat attempts - 1) * unat interval;
      feed sc (bs @ [b]) rsp = (rs @ [Done n], sc', rsp'); \<forall>r \<in> set rs. \<not> is_done r; unat junk + babble rs < unat limit\<rbrakk>
    \<Longrightarrow> \<exists>w'. softuart_loop hal poll interval limit sc attempts junk rsp w = (Ok n, rsp', w') \<and> env w' = x
      \<and> fst (last sched) + 989586 \<le> clock w' \<and> clock w' < fst (last sched) + 989586 + unat interval + 10 * jit"
proof (induction sched arbitrary: bs sc rsp rs junk attempts w)
  case (Cons y sched)
  obtain s c where y: "y = (s, c)"
    by fastforce
  have car: "carries T (lev x) (clock w) ((s, c) # sched)" "s \<le> e"
    using Cons.prems(2,4) y by simp_all
  from softuart_receives_byte [OF p i Cons.prems(1) car Cons.prems(5)] obtain attempts1 w1 w2 where
    r: "hunt hal poll interval attempts w = (Ok attempts1, w1)"
      "recv_bits hal [0..<8] 0 (su_delay_ns hal BIT_1_5_NS w1) = (Ok c, w2)" "rx_is_low hal w2 = (Ok False, w2)"
      "env w2 = x" "carries T (lev x) (clock w2) sched" "e \<le> clock w2 + (unat poll - unat attempts1 - 1) * unat interval"
    and times: "s + 989586 \<le> clock w2" "clock w2 < s + 989586 + unat interval + 10 * jit"
    by blast
  obtain res sc1 rsp1 where push: "push sc c rsp = (res, sc1, rsp1)"
    using prod_cases3 by blast
  note turn = softuart_turn [OF r(1,2,3) push, of limit junk]
  show ?case
  proof (cases bs)
    case Nil
    then have "res = Done n" "rsp1 = rsp'" "sched = []"
      using Cons.prems(3,6) y push by (auto split: prod.splits)
    then show ?thesis
      using turn r(4) times y by simp
  next
    case bs: (Cons c' bs')
    then have snd: "c' = c" "map snd sched = bs' @ [b]"
      using Cons.prems(3) y by simp_all
    obtain rs1 where rs: "feed sc1 (bs' @ [b]) rsp1 = (rs1, sc', rsp')" "rs @ [Done n] = res # rs1"
      using Cons.prems(6) bs snd(1) push by (auto split: prod.splits)
    have "rs1 \<noteq> []" "sched \<noteq> []"
      using length_feed [OF rs(1)] snd(2) by auto
    then obtain rs2 where rs2: "rs = res # rs2" "rs1 = rs2 @ [Done n]"
      using rs(2) by (cases rs) auto
    have IH: "\<exists>w'. softuart_loop hal poll interval limit sc1 attempts1 junk' rsp1 w2 = (Ok n, rsp', w') \<and> env w' = x
        \<and> fst (last (y # sched)) + 989586 \<le> clock w' \<and> clock w' < fst (last (y # sched)) + 989586 + unat interval + 10 * jit"
      if "unat junk' + babble rs2 < unat limit" for junk'
      using Cons.IH [OF r(4,5) snd(2) _ r(6) rs(1) [unfolded rs2(2)] _ that] Cons.prems(4,7) rs2(1) \<open>sched \<noteq> []\<close> by simp
    show ?thesis
    proof (cases "res = Frame")
      case True
      then show ?thesis
        using turn IH [of junk] Cons.prems(8) rs2(1) by simp
    next
      case False
      then have "unat junk + 1 < unat limit"
        using Cons.prems(8) rs2(1) by simp
      then have j: "unat (junk + 1) = Suc (unat junk)" "\<not> limit \<le> junk + 1"
        using word_succ_unat [of junk limit] by (simp_all add: word_less_nat_alt word_le_nat_alt not_le)
      moreover have "\<not> is_done res"
        using Cons.prems(7) rs2(1) by simp
      ultimately show ?thesis
        using turn IH [of "junk + 1"] Cons.prems(8) rs2(1) False by (cases res) (auto simp: is_done_def)
    qed
  qed
qed simp

text \<open>A response behind noise, with the times between which its last byte is read.\<close>

lemma softuart_reads_response:
  assumes "paced hal clock env lev jit" and "0 < unat interval" and "in_budget T (unat interval + 10 * jit)"
    and x: "env w = x" and "carries T (lev x) (clock w) sched" and sched: "map snd sched = g @ SYNC # wire c pl" and "SYNC \<notin> set g"
    and "\<forall>y \<in> set sched. fst y \<le> clock w + (unat poll - 1) * unat interval"
    and "length g < unat limit" and "length pl \<le> 252" and "length pl + 3 \<le> length rsp"
  shows "\<exists>w'. softuart_loop hal poll interval limit scanner_new 0 0 rsp w =
       (Ok (length pl + 3), wire c pl @ drop (length pl + 3) rsp, w') \<and> env w' = x
     \<and> fst (last sched) + 989586 \<le> clock w' \<and> clock w' < fst (last sched) + 989586 + unat interval + 10 * jit"
proof -
  let ?rs = "replicate (length g) Hunt @ replicate (length pl + 3) Frame"
  have w: "wire c pl = butlast (wire c pl) @ [last (wire c pl)]"
    by (metis append_butlast_last_id length_wire list.size(3) add_is_0 zero_neq_numeral)
  have bytes: "map snd sched = (g @ SYNC # butlast (wire c pl)) @ [last (wire c pl)]"
    using sched w by (metis append.assoc append_Cons)
  have feed: "feed scanner_new ((g @ SYNC # butlast (wire c pl)) @ [last (wire c pl)]) rsp =
      (?rs @ [Done (length pl + 3)], scanner_new, wire c pl @ drop (length pl + 3) rsp)"
    using feed_found [OF assms(7,10,11), of c] w by simp
  show ?thesis
    by (rule softuart_loop_receives [OF assms(1-5) bytes assms(8) _ feed]) (use assms(9) in \<open>auto simp: is_done_def\<close>)
qed

text \<open>Sending: one bit of mark, and the bytes.\<close>

lemma softuart_sends:
  assumes "drives hal clock env lev"
  shows "\<exists>w'. softuart_send hal req w = (Ok (), w') \<and> clock w' = clock w + 104167 + 1041670 * Suc (length req)
     \<and> env w' = env w \<and> (\<forall>u < clock w. lev w' u = lev w u) \<and> (\<forall>u \<ge> clock w'. lev w' u)
     \<and> carries 104167 (lev w') (clock w) (back_to_back 104167 (clock w + 104167) (SYNC # req))"
proof -
  from holds_bit [OF assms, of True w] obtain w1 where w1: "tx_high hal w = (Ok (), w1)"
    "holds 104167 clock env lev w [True] (su_delay_ns hal SOFTUART_BIT_NS w1)" by auto
  let ?w = "su_delay_ns hal SOFTUART_BIT_NS w1"
  from send_bytes_carries [OF assms, of "SYNC # req" ?w] obtain w' where
    w': "send_bytes hal (SYNC # req) ?w = (Ok (), w')" "carried 104167 clock env lev ?w (SYNC # req) w'"
    by auto
  have c: "clock ?w = clock w + 104167" "env ?w = env w" "\<forall>u < clock w. lev ?w u = lev w u" "\<forall>u < 104167. lev ?w (clock w + u)"
    using w1(2) by (simp_all add: holds_def)
  note cw = w'(2) [unfolded carried_def]
  have mark: "lev w' u" if "clock w \<le> u" "u < clock ?w" for u
    using c(4) [rule_format, of "u - clock w"] cw that c(1) by simp
  have "carries 104167 (lev w') (clock w) (back_to_back 104167 (clock ?w) (SYNC # req))"
    by (rule carries_earlier [of _ _ "clock ?w"]) (use cw c mark in auto)
  moreover have "softuart_send hal req w = send_bytes hal (SYNC # req) ?w"
    using w1(1) by (simp add: softuart_send_def)
  moreover have "\<forall>u < clock w. lev w' u = lev w u"
    using cw c(1,3) by simp
  ultimately show ?thesis
    using w'(1) cw c(1,2) by (simp add: algebra_simps)
qed

section \<open>Properties\<close>

text \<open>
  C33: the bit-banged receiver keeps its timing budget. On a line that carries 8N1 bytes
  with arbitrary pauses, from a sender whose bit time \<open>T\<close> may be off, sampled through delays
  that may each run late by up to \<open>jit\<close> nanoseconds, the receive loop finds the response
  frame behind sync-free noise bytes, provided the poll interval and ten times \<open>jit\<close> leave
  the first and the last sample within their bits, the last start edge lies within attempts
  times interval, and the noise within the scan limit. With the default interval and exact
  delays \<open>T\<close> may be between 99159 and 109954 nanoseconds, 4.8% short to 5.5% long.
\<close>

theorem softuart_receives_response:
  assumes "paced hal clock env lev jit" and "0 < unat interval"
    and "9 * T \<le> 989586" and "unat interval + 10 * jit + 989586 \<le> 10 * T" and "unat interval + 10 * jit + 156250 \<le> 2 * T"
    and "carries T (lev (env w)) (clock w) sched" and "map snd sched = g @ SYNC # wire c pl" and "SYNC \<notin> set g"
    and "\<forall>x \<in> set sched. fst x \<le> clock w + (unat poll - 1) * unat interval"
    and "length g < unat limit" and "length pl \<le> 252" and "length pl + 3 \<le> length rsp"
  shows "\<exists>w'. softuart_loop hal poll interval limit scanner_new 0 0 rsp w =
     (Ok (length pl + 3), wire c pl @ drop (length pl + 3) rsp, w')"
proof -
  have "in_budget T (unat interval + 10 * jit)"
    using assms(3-5) by (simp add: in_budget_def)
  from softuart_reads_response [OF assms(1,2) this refl assms(6-12)] show ?thesis by blast
qed

text \<open>Ideal pins: a transmitter that records the line it drives, and a receiver on a given line.\<close>

definition ideal_tx :: "(nat \<times> (nat \<Rightarrow> bool), unit, unit) softuart_hal" where
  "ideal_tx = \<lparr>su_set_high = (\<lambda>(t, l). (Ok (), (t, \<lambda>u. if u < t then l u else True))),
     su_set_low = (\<lambda>(t, l). (Ok (), (t, \<lambda>u. if u < t then l u else False))),
     su_is_high = (\<lambda>(t, l). (Ok (l t), (t, l))), su_is_low = (\<lambda>(t, l). (Ok (\<not> l t), (t, l))),
     su_delay_ns = (\<lambda>ns (t, l). (t + unat ns, l))\<rparr>"

definition ideal_rx :: "(nat \<Rightarrow> bool) \<Rightarrow> (nat, unit, unit) softuart_hal" where
  "ideal_rx lev = \<lparr>su_set_high = (\<lambda>t. (Ok (), t)), su_set_low = (\<lambda>t. (Ok (), t)),
     su_is_high = (\<lambda>t. (Ok (lev t), t)), su_is_low = (\<lambda>t. (Ok (\<not> lev t), t)),
     su_delay_ns = (\<lambda>ns t. t + unat ns)\<rparr>"

lemma ideal_tx_drives: "drives ideal_tx fst (\<lambda>_. ()) snd"
  by (auto simp: drives_def ideal_tx_def)

lemma ideal_rx_paced: "paced (ideal_rx lev) id (\<lambda>_. ()) (\<lambda>_. lev) 0"
  by (simp add: paced_def ideal_rx_def)

text \<open>The line after the ideal transmitter has sent some bytes from time 0.\<close>

definition sent_line :: "bytes \<Rightarrow> nat \<Rightarrow> bool" where
  "sent_line bs = snd (snd (send_bytes ideal_tx bs (0, \<lambda>_. True)))"

lemma sent_line_carries: "carries 104167 (sent_line bs) 0 (back_to_back 104167 0 bs)"
  using send_bytes_carries [OF ideal_tx_drives, of bs "(0, \<lambda>_. True)"] by (auto simp: sent_line_def carried_def)

theorem softuart_receives_response_witness:
  "\<exists>w'. softuart_loop (ideal_rx (sent_line (0x55 # SYNC # wire 0x86 [0]))) DEFAULT_SOFTUART_POLL_ATTEMPTS
       DEFAULT_SOFTUART_POLL_INTERVAL_NS DEFAULT_SCAN_LIMIT scanner_new 0 0 [1, 2, 3, 4, 5] 0 =
     (Ok 4, wire 0x86 [0] @ [5], w')"
proof -
  let ?bs = "[0x55] @ SYNC # wire 0x86 [0]"
  have car: "carries 104167 ((\<lambda>_. sent_line ?bs) ((\<lambda>_. ()) 0)) (id 0) (back_to_back 104167 0 ?bs)"
    using sent_line_carries [of ?bs] by (simp only: id_apply)
  have starts: "fst x \<le> 5208350" if "x \<in> set (back_to_back 104167 0 ?bs)" for x
    using back_to_back_starts [OF that] by simp
  have "\<exists>w'. softuart_loop (ideal_rx (sent_line ?bs)) DEFAULT_SOFTUART_POLL_ATTEMPTS
       DEFAULT_SOFTUART_POLL_INTERVAL_NS DEFAULT_SCAN_LIMIT scanner_new 0 0 [1, 2, 3, 4, 5] 0 =
     (Ok (length [0 :: u8] + 3), wire 0x86 [0] @ drop (length [0 :: u8] + 3) [1, 2, 3, 4, 5], w')"
    by (rule softuart_receives_response [OF ideal_rx_paced _ _ _ _ car, where g = "[0x55]"])
      (use starts in \<open>fastforce simp: DEFAULT_SOFTUART_POLL_ATTEMPTS_def DEFAULT_SOFTUART_POLL_INTERVAL_NS_def
         DEFAULT_SCAN_LIMIT_def SYNC_def\<close>)+
  then show ?thesis by simp
qed

text \<open>
  The transmitter drives a clean 8N1 signal. On a line whose pin never fails and whose
  delays are exact, the sending half of \<open>request\<close> leaves the line at mark for one bit time
  and then carries the sync byte and every byte of the frame back to back, ten bit times
  each; it ends at mark and leaves alone what was on the line before.
\<close>

lemma softuart_send_waveform:
  assumes "drives hal clock env lev"
  shows "\<exists>w'. softuart_send hal req w = (Ok (), w') \<and> clock w' = clock w + 104167 + 1041670 * Suc (length req)
     \<and> carries 104167 (lev w') (clock w) (back_to_back 104167 (clock w + 104167) (SYNC # req))
     \<and> (\<forall>u < clock w. lev w' u = lev w u) \<and> (\<forall>u \<ge> clock w'. lev w' u)"
  using softuart_sends [OF assms, of req w] by blast

end
