(* ===== verification/Device_Core.thy ===== *)
theory Device_Core
  imports Image
begin

text \<open>
  The device core in C: \<^verbatim>\<open>device/core/crc8.c\<close>, \<^verbatim>\<open>crc32.c\<close>,
  \<^verbatim>\<open>proto.c\<close> and \<^verbatim>\<open>update.c\<close>. The nine port functions are
  parameters; those the core calls are the fields of a record over the state \<open>'w\<close> of
  the device. Buffers that C passes as pointer and length are lists; a pointer into a
  buffer is the rest of the list.
\<close>

section \<open>The port\<close>

record port_info =
  pi_page_size :: u16
  pi_app_pages :: u16
  pi_device_id :: bytes
  pi_bl_version :: u8

record 'w port =
  port_info_of :: port_info
  port_flash_erase_page :: "u16 \<Rightarrow> 'w \<Rightarrow> 'w"
  port_flash_write_page :: "u16 \<Rightarrow> bytes \<Rightarrow> 'w \<Rightarrow> 'w"
  port_flash_read_byte :: "u32 \<Rightarrow> 'w \<Rightarrow> u8 \<times> 'w"
  port_jump_to_app :: "'w \<Rightarrow> 'w"

section \<open>CRCs\<close>

text \<open>\<open>unsigned\<close> is taken at 32 bits; the values in it stay below \<open>2 ^ 9\<close>.\<close>

definition upd_crc8_bit :: "u8 \<Rightarrow> u8" where
  "upd_crc8_bit crc =
     (let v = push_bit 1 (ucast crc :: u32);
          v = (if crc AND 0x80 \<noteq> 0 then v XOR 0x07 else v)
      in ucast (v AND 0xFF))"

fun upd_crc8_bits :: "nat \<Rightarrow> u8 \<Rightarrow> u8" where
  "upd_crc8_bits 0 crc = crc"
| "upd_crc8_bits (Suc b) crc = upd_crc8_bits b (upd_crc8_bit crc)"

definition upd_crc8 :: "bytes \<Rightarrow> u8 \<Rightarrow> u8" where
  "upd_crc8 p n = foldl (\<lambda>crc b. upd_crc8_bits 8 (crc XOR b)) 0 (take (unat n) p)"

definition upd_crc32_init :: u32 where
  "upd_crc32_init = 0xFFFFFFFF"

fun upd_crc32_bits :: "nat \<Rightarrow> u32 \<Rightarrow> u32" where
  "upd_crc32_bits 0 crc = crc"
| "upd_crc32_bits (Suc b) crc =
     upd_crc32_bits b (if crc AND 1 \<noteq> 0 then drop_bit 1 crc XOR 0xEDB88320 else drop_bit 1 crc)"

definition upd_crc32_update :: "u32 \<Rightarrow> u8 \<Rightarrow> u32" where
  "upd_crc32_update crc byte = upd_crc32_bits 8 (crc XOR ucast byte)"

definition upd_crc32_final :: "u32 \<Rightarrow> u32" where
  "upd_crc32_final crc = crc XOR 0xFFFFFFFF"

section \<open>The frame codec of the device\<close>

record upd_frame =
  uf_cmd :: u8
  uf_len :: u8
  uf_payload :: bytes

definition UPD_FRAME_OVERHEAD :: nat where "UPD_FRAME_OVERHEAD = 3"

definition upd_frame_parse :: "bytes \<Rightarrow> u8 \<Rightarrow> upd_frame option" where
  "upd_frame_parse buf buflen =
     (if unat buflen < UPD_FRAME_OVERHEAD then None
      else
        let len = buf ! 1 in
        if unat len + UPD_FRAME_OVERHEAD \<noteq> unat buflen then None
        else if upd_crc8 buf (buflen - 1) \<noteq> buf ! (unat buflen - 1) then None
        else Some \<lparr>uf_cmd = buf ! 0, uf_len = len, uf_payload = drop 2 buf\<rparr>)"

definition upd_frame_build :: "bytes \<Rightarrow> u8 \<Rightarrow> u8 \<Rightarrow> bytes \<Rightarrow> u8 \<Rightarrow> u8 \<times> bytes" where
  "upd_frame_build buf cap c pl len =
     (let total' = unat len + UPD_FRAME_OVERHEAD in
      if total' > 255 \<or> unat cap < total' then (0, buf)
      else
        let buf = buf[0 := c];
            buf = buf[1 := len];
            buf = foldl (\<lambda>buf i. buf[2 + i := pl ! i]) buf [0..<unat len];
            buf = buf[total' - 1 := upd_crc8 buf (word_of_nat (total' - 1))]
        in (word_of_nat total', buf))"

section \<open>The session\<close>

record upd_session =
  us_info :: port_info
  us_erased :: bool
  us_boot_pending :: bool

definition region_bytes :: "port_info \<Rightarrow> u32" where
  "region_bytes i = ucast (pi_page_size i) * ucast (pi_app_pages i)"

text \<open>The loop of \<open>flash_crc\<close>: \<open>k\<close> bytes to go from offset \<open>off\<close>.\<close>

fun flash_crc_loop :: "'w port \<Rightarrow> nat \<Rightarrow> u32 \<Rightarrow> u32 \<Rightarrow> 'w \<Rightarrow> u32 \<times> 'w" where
  "flash_crc_loop port 0 off c w = (c, w)"
| "flash_crc_loop port (Suc k) off c w =
     (let (b, w) = port_flash_read_byte port off w in flash_crc_loop port k (off + 1) (upd_crc32_update c b) w)"

definition flash_crc :: "'w port \<Rightarrow> u32 \<Rightarrow> 'w \<Rightarrow> u32 \<times> 'w" where
  "flash_crc port len w =
     (let (c, w) = flash_crc_loop port (unat len) 0 upd_crc32_init w in (upd_crc32_final c, w))"

text \<open>The chain of \<open>||\<close> on the magic bytes: reading stops at the first mismatch.\<close>

fun flash_matches :: "'w port \<Rightarrow> u32 \<Rightarrow> bytes \<Rightarrow> 'w \<Rightarrow> bool \<times> 'w" where
  "flash_matches port off [] w = (True, w)"
| "flash_matches port off (m # ms) w =
     (let (b, w) = port_flash_read_byte port off w in
      if b \<noteq> m then (False, w) else flash_matches port (off + 1) ms w)"

text \<open>The loop that assembles length and CRC of the footer: indices \<open>i\<close> to 3.\<close>

fun footer_words :: "'w port \<Rightarrow> u32 \<Rightarrow> nat \<Rightarrow> nat \<Rightarrow> u32 \<Rightarrow> u32 \<Rightarrow> 'w \<Rightarrow> u32 \<times> u32 \<times> 'w" where
  "footer_words port base i 0 len crc w = (len, crc, w)"
| "footer_words port base i (Suc k) len crc w =
     (let (b, w) = port_flash_read_byte port (base + 4 + word_of_nat i) w;
          len = len OR push_bit (8 * i) (ucast b);
          (b, w) = port_flash_read_byte port (base + 8 + word_of_nat i) w;
          crc = crc OR push_bit (8 * i) (ucast b)
      in footer_words port base (Suc i) k len crc w)"

definition upd_app_valid :: "'w port \<Rightarrow> port_info \<Rightarrow> 'w \<Rightarrow> bool \<times> 'w" where
  "upd_app_valid port info w =
     (if region_bytes info < 16 then (False, w)
      else
        let base = region_bytes info - 16;
            (magic, w) = flash_matches port base [0x4F, 0x54, 0x41, 0x55] w
        in if \<not> magic then (False, w)
           else
             let (len, crc, w) = footer_words port base 0 4 0 0 w in
             if len > region_bytes info - 16 then (False, w)
             else let (c, w) = flash_crc port len w in (c = crc, w))"

definition upd_boot_if_valid :: "'w port \<Rightarrow> port_info \<Rightarrow> 'w \<Rightarrow> bool \<times> 'w" where
  "upd_boot_if_valid port info w =
     (let (valid, w) = upd_app_valid port info w in
      if \<not> valid then (False, w) else (True, port_jump_to_app port w))"

definition upd_init :: "'w port \<Rightarrow> upd_session" where
  "upd_init port = \<lparr>us_info = port_info_of port, us_erased = False, us_boot_pending = False\<rparr>"

section \<open>Command handlers\<close>

text \<open>
  A handler returns the length of the response payload, the response buffer, and what it
  changes of session and device.
\<close>

definition handle_info :: "'w port \<Rightarrow> upd_session \<Rightarrow> bytes \<Rightarrow> u8 \<Rightarrow> 'w \<Rightarrow> u8 \<times> bytes \<times> 'w" where
  "handle_info port s rsp rsp_cap w =
     (if rsp_cap < 12 then (1, put_at 0 [ST_BAD_FRAME] rsp, w)
      else
        let i = us_info s;
            (valid, w) = upd_app_valid port i w
        in (12, put_at 0 ([ST_OK, PROTO_VERSION, pi_bl_version i,
              pi_device_id i ! 0, pi_device_id i ! 1, pi_device_id i ! 2, pi_device_id i ! 3,
              ucast (pi_page_size i AND 0xFF), ucast (drop_bit 8 (pi_page_size i) AND 0xFF),
              ucast (pi_app_pages i AND 0xFF), ucast (drop_bit 8 (pi_app_pages i) AND 0xFF),
              if valid then 1 else 0]) rsp, w))"

fun erase_loop :: "'w port \<Rightarrow> nat \<Rightarrow> u16 \<Rightarrow> 'w \<Rightarrow> 'w" where
  "erase_loop port 0 p w = w"
| "erase_loop port (Suc k) p w = erase_loop port k (p + 1) (port_flash_erase_page port p w)"

definition handle_erase ::
  "'w port \<Rightarrow> upd_session \<Rightarrow> upd_frame \<Rightarrow> bytes \<Rightarrow> 'w \<Rightarrow> u8 \<times> bytes \<times> upd_session \<times> 'w"
where
  "handle_erase port s req rsp w =
     (if uf_len req \<noteq> 4 \<or> uf_payload req ! 0 \<noteq> 0x45 \<or> uf_payload req ! 1 \<noteq> 0x52
         \<or> uf_payload req ! 2 \<noteq> 0x41 \<or> uf_payload req ! 3 \<noteq> 0x53
      then (1, put_at 0 [ST_BAD_MAGIC] rsp, s, w)
      else (1, put_at 0 [ST_OK] rsp, s\<lparr>us_erased := True\<rparr>,
            erase_loop port (unat (pi_app_pages (us_info s))) 0 w))"

definition handle_write ::
  "'w port \<Rightarrow> upd_session \<Rightarrow> upd_frame \<Rightarrow> bytes \<Rightarrow> 'w \<Rightarrow> u8 \<times> bytes \<times> 'w"
where
  "handle_write port s req rsp w =
     (if \<not> us_erased s then (1, put_at 0 [ST_NOT_ERASED] rsp, w)
      else if (ucast (uf_len req) :: u32) \<noteq> ucast (pi_page_size (us_info s)) + 2
      then (1, put_at 0 [ST_BAD_FRAME] rsp, w)
      else
        let idxw = (ucast (uf_payload req ! 0) :: u32) OR push_bit 8 (ucast (uf_payload req ! 1));
            idx = (ucast (idxw AND 0xFFFF) :: u16)
        in if idx \<ge> pi_app_pages (us_info s) then (1, put_at 0 [ST_OUT_OF_RANGE] rsp, w)
           else (1, put_at 0 [ST_OK] rsp, port_flash_write_page port idx (drop 2 (uf_payload req)) w))"

definition wire_u32 :: "bytes \<Rightarrow> nat \<Rightarrow> u32" where
  "wire_u32 p at = foldl (\<lambda>v i. v OR push_bit (8 * i) (ucast (p ! (at + i)))) 0 [0..<4]"

definition handle_verify ::
  "'w port \<Rightarrow> upd_session \<Rightarrow> upd_frame \<Rightarrow> bytes \<Rightarrow> 'w \<Rightarrow> u8 \<times> bytes \<times> 'w"
where
  "handle_verify port s req rsp w =
     (if uf_len req \<noteq> 8 then (1, put_at 0 [ST_BAD_FRAME] rsp, w)
      else
        let len = wire_u32 (uf_payload req) 0;
            crc = wire_u32 (uf_payload req) 4
        in if region_bytes (us_info s) < 16 \<or> len > region_bytes (us_info s) - 16
           then (1, put_at 0 [ST_OUT_OF_RANGE] rsp, w)
           else let (c, w) = flash_crc port len w in
                (1, put_at 0 [if c = crc then ST_OK else ST_BAD_CRC] rsp, w))"

definition handle_echo :: "upd_frame \<Rightarrow> bytes \<Rightarrow> u8 \<Rightarrow> u8 \<times> bytes" where
  "handle_echo req rsp rsp_cap =
     (let len = uf_len req in
      if unat len > ECHO_MAX \<or> unat len + 1 > unat rsp_cap then (1, put_at 0 [ST_BAD_FRAME] rsp)
      else (len + 1, put_at 0 (ST_OK # take (unat len) (uf_payload req)) rsp))"

definition upd_handle ::
  "'w port \<Rightarrow> upd_session \<Rightarrow> upd_frame \<Rightarrow> bytes \<Rightarrow> u8 \<Rightarrow> 'w \<Rightarrow> u8 \<times> bytes \<times> upd_session \<times> 'w"
where
  "upd_handle port s req rsp rsp_cap w =
     (if rsp_cap = 0 then (0, rsp, s, w)
      else if uf_cmd req = CMD_INFO then
        let (n, rsp, w) = handle_info port s rsp rsp_cap w in (n, rsp, s, w)
      else if uf_cmd req = CMD_ERASE_APP then handle_erase port s req rsp w
      else if uf_cmd req = CMD_WRITE_PAGE then
        let (n, rsp, w) = handle_write port s req rsp w in (n, rsp, s, w)
      else if uf_cmd req = CMD_VERIFY then
        let (n, rsp, w) = handle_verify port s req rsp w in (n, rsp, s, w)
      else if uf_cmd req = CMD_BOOT then
        let (valid, w) = upd_app_valid port (us_info s) w in
        if valid then (1, put_at 0 [ST_OK] rsp, s\<lparr>us_boot_pending := True\<rparr>, w)
        else (1, put_at 0 [ST_NO_APP] rsp, s, w)
      else if uf_cmd req = CMD_ECHO then
        let (n, rsp) = handle_echo req rsp rsp_cap in (n, rsp, s, w)
      else (1, put_at 0 [ST_BAD_CMD] rsp, s, w))"

section \<open>The two codecs agree\<close>

lemma upd_crc8_bit_eq: "upd_crc8_bit c = crc8_bit c"
proof (rule bit_word_eqI)
  fix n :: nat
  assume n: "n < LENGTH(8)"
  have "bit (mask 3 :: u32) n \<longleftrightarrow> n < 3" "bit (mask 8 :: u32) n" "bit (mask 3 :: u8) n \<longleftrightarrow> n < 3"
    using n by (auto simp only: bit_mask_iff) simp_all
  then have "bit (7 :: u32) n \<longleftrightarrow> n < 3" "bit (0xFF :: u32) n" "bit (7 :: u8) n \<longleftrightarrow> n < 3"
    by (simp_all add: mask_eq_exp_minus_1)
  then show "bit (upd_crc8_bit c) n = bit (crc8_bit c) n"
    using n bit_crc8_bit [of n c] and_exp_eq_0_iff_not_bit [of c 7]
    by (auto simp: upd_crc8_bit_def Let_def bit_simps bit_double_iff mult.commute [of "ucast c :: u32" 2])
qed

lemma upd_crc8_bits_eq: "upd_crc8_bits k c = crc8_loop k c"
  by (induction k arbitrary: c) (simp_all add: upd_crc8_bit_eq)

lemma upd_crc8_eq: "upd_crc8 p n = crc8 (take (unat n) p)"
  by (simp add: upd_crc8_def crc8_def upd_crc8_bits_eq crc8_step_def [abs_def])

lemma upd_crc32_bits_eq: "upd_crc32_bits k c = crc32_loop k c"
  by (induction k arbitrary: c) (simp_all add: crc32_bit_def)

lemma upd_crc32_update_eq: "upd_crc32_update c b = crc32_step c b"
  by (simp add: upd_crc32_update_def crc32_step_def upd_crc32_bits_eq)

lemma wire_parts:
  assumes "length raw = l + 3"
  shows "raw = raw ! 0 # raw ! 1 # take l (drop 2 raw) @ [raw ! (l + 2)]"
proof (rule nth_equalityI)
  show "length raw = length (raw ! 0 # raw ! 1 # take l (drop 2 raw) @ [raw ! (l + 2)])"
    using assms by simp
next
  fix i
  assume "i < length raw"
  with assms show "raw ! i = (raw ! 0 # raw ! 1 # take l (drop 2 raw) @ [raw ! (l + 2)]) ! i"
    by (cases i; cases "i - 1") (auto simp: nth_append less_Suc_eq)
qed

lemma upd_frame_parse_decode:
  assumes "n \<le> length buf" and "n \<le> 255"
  shows "upd_frame_parse buf (word_of_nat n) =
     (case decode (take n buf) of
        Ok f \<Rightarrow> Some \<lparr>uf_cmd = cmd f, uf_len = word_of_nat (length (payload f)), uf_payload = drop 2 buf\<rparr>
      | Err _ \<Rightarrow> None)"
proof (cases "n < 3")
  case True
  have "\<not> is_ok (decode (take n buf))"
  proof
    assume "is_ok (decode (take n buf))"
    then obtain f :: frame where "decode (take n buf) = Ok f"
      by (auto simp: is_ok_iff)
    then have "length (take n buf) = length (payload f) + 3"
      by (simp add: decode_iff)
    with True show False by simp
  qed
  with True assms show ?thesis
    by (cases "decode (take n buf)") (simp_all add: upd_frame_parse_def UPD_FRAME_OVERHEAD_def)
next
  case False
  let ?raw = "take n buf" and ?l = "unat (buf ! 1)"
  have at: "?raw ! 0 = buf ! 0" "?raw ! 1 = buf ! 1"
    using False by simp_all
  show ?thesis
  proof (cases "?l + 3 = n")
    case len: True
    then have l: "?l \<le> 252" using assms by simp
    let ?pl = "take ?l (drop 2 ?raw)"
    have raw: "?raw = buf ! 0 # buf ! 1 # ?pl @ [?raw ! (?l + 2)]"
      using wire_parts [of ?raw ?l] len assms at by simp
    have pl: "length ?pl = ?l" using len assms by simp
    have n1: "unat (word_of_nat n - 1 :: u8) = n - 1"
      using False assms by (simp add: unat_sub word_le_nat_alt)
    have hd: "take (n - 1) buf = buf ! 0 # buf ! 1 # ?pl"
    proof -
      have "take (n - 1) buf = take (n - 1) ?raw" by simp
      also have "\<dots> = take (n - 1) (buf ! 0 # buf ! 1 # ?pl @ [?raw ! (?l + 2)])"
        using raw by simp
      also have "\<dots> = buf ! 0 # buf ! 1 # ?pl"
        using len pl by (simp add: len [symmetric])
      finally show ?thesis .
    qed
    have last: "?raw ! (?l + 2) = buf ! (n - 1)"
      using len by (simp add: len [symmetric])
    have "decode ?raw = (if crc8 (buf ! 0 # buf ! 1 # ?pl) = buf ! (n - 1)
        then Ok \<lparr>cmd = buf ! 0, payload = ?pl\<rparr> else Err BadFrame)"
      by (subst raw) (use l pl last in \<open>simp add: decode_def crc8_def usize_simps Let_def\<close>)
    then show ?thesis
      using False assms len pl hd by (simp add: upd_frame_parse_def UPD_FRAME_OVERHEAD_def upd_crc8_eq n1 Let_def)
  next
    case len: False
    have "\<not> is_ok (decode ?raw)"
    proof
      assume "is_ok (decode ?raw)"
      then obtain f :: frame where f: "length (payload f) \<le> 252" "?raw = wire (cmd f) (payload f)"
        by (auto simp: is_ok_iff decode_iff)
      then have "n = length (payload f) + 3"
        using assms by (metis length_take length_wire min.absorb2)
      moreover have "buf ! 1 = word_of_nat (length (payload f))"
        using f(2) at(2) by (simp add: wire_crc)
      ultimately show False using len f(1) by simp
    qed
    with False assms len show ?thesis
      by (cases "decode ?raw") (simp_all add: upd_frame_parse_def UPD_FRAME_OVERHEAD_def)
  qed
qed

lemma copy_loop:
  "k \<le> length pl \<Longrightarrow> k + 2 \<le> length buf \<Longrightarrow>
     foldl (\<lambda>buf i. buf[2 + i := pl ! i]) buf [0..<k] = take 2 buf @ take k pl @ drop (k + 2) buf"
proof (induction k)
  case (Suc k)
  then have "foldl (\<lambda>buf i. buf[2 + i := pl ! i]) buf [0..<Suc k] = (take 2 buf @ take k pl @ drop (k + 2) buf)[k + 2 := pl ! k]"
    by (simp add: add.commute)
  also have "\<dots> = take 2 buf @ (take k pl @ [pl ! k]) @ drop (Suc k + 2) buf"
    using Suc.prems by (simp add: list_update_append min_def Cons_nth_drop_Suc [symmetric] numeral_2_eq_2)
  finally show ?case
    using Suc.prems by (simp add: take_Suc_conv_app_nth)
qed (simp add: numeral_2_eq_2)

lemma upd_frame_build_wire:
  assumes "length pl \<le> 252" and "length pl + 3 \<le> length buf" and "length pl + 3 \<le> unat cap"
    and "pl' = pl @ junk"
  shows "upd_frame_build buf cap c pl' (word_of_nat (length pl)) =
     (word_of_nat (length pl + 3), wire c pl @ drop (length pl + 3) buf)"
proof -
  let ?l = "word_of_nat (length pl) :: u8"
  obtain b0 b1 r where buf: "buf = b0 # b1 # r" and r: "Suc (length pl) \<le> length r"
    using assms(2) by (cases buf; cases "tl buf") auto
  have copy: "foldl (\<lambda>buf i. buf[2 + i := pl' ! i]) (c # ?l # r) [0..<length pl] = c # ?l # pl @ drop (length pl) r"
    using copy_loop [of "length pl" pl' "c # ?l # r"] r assms(4) by (simp add: numeral_2_eq_2)
  have n: "unat (word_of_nat (length pl + 2) :: u8) = length pl + 2"
    using assms(1) by (simp only: unat_of_nat) simp
  have crc: "upd_crc8 (c # ?l # pl @ drop (length pl) r) (word_of_nat (length pl + 2)) = crc8 (c # ?l # pl)"
    unfolding upd_crc8_eq n by simp
  have tot: "length pl + 3 - 1 = length pl + 2" "unat ?l = length pl"
    using assms(1) by simp_all
  show ?thesis
    unfolding upd_frame_build_def UPD_FRAME_OVERHEAD_def Let_def buf tot
    using assms r crc copy
    by (simp add: wire_def list_update_append tot numeral_3_eq_3 Cons_nth_drop_Suc [symmetric] del: of_nat_add)
qed

end
