(* ===== verification/Device_Spec.thy ===== *)
theory Device_Spec
  imports Device_Core
begin

text \<open>
  What the device core promises, as a transition function on the contents of the app
  region and the erased flag, and the refinement: over a port that behaves as
  \<^verbatim>\<open>port.h\<close> demands, \<open>upd_handle\<close> answers and changes the region exactly as that
  function says, and touches flash only inside the region.
\<close>

section \<open>The abstract device\<close>

text \<open>The boot gate as a property of the region: magic, length in range, CRC over the data.\<close>

definition region_valid :: "bytes \<Rightarrow> bool" where
  "region_valid r \<longleftrightarrow>
     16 \<le> length r \<and>
     (let f = drop (length r - 16) r;
          len = u32_from_le_bytes (f ! 4) (f ! 5) (f ! 6) (f ! 7);
          crc = u32_from_le_bytes (f ! 8) (f ! 9) (f ! 10) (f ! 11)
      in take 4 f = FOOTER_MAGIC \<and> unat len \<le> length r - 16 \<and> crc32 (take (unat len) r) = crc)"

record device =
  dev_flash :: bytes
  dev_erased :: bool

definition info_payload :: "port_info \<Rightarrow> bool \<Rightarrow> bytes" where
  "info_payload i valid = [ST_OK, PROTO_VERSION, pi_bl_version i] @ take 4 (pi_device_id i)
     @ u16_to_le_bytes (pi_page_size i) @ u16_to_le_bytes (pi_app_pages i) @ [if valid then 1 else 0]"

definition dev_step :: "port_info \<Rightarrow> device \<Rightarrow> u8 \<Rightarrow> bytes \<Rightarrow> bytes \<times> device" where
  "dev_step i d c pl =
     (if c = CMD_INFO then (info_payload i (region_valid (dev_flash d)), d)
      else if c = CMD_ERASE_APP then
        if pl = ERASE_MAGIC
        then ([ST_OK], d\<lparr>dev_flash := replicate (length (dev_flash d)) 0xFF, dev_erased := True\<rparr>)
        else ([ST_BAD_MAGIC], d)
      else if c = CMD_WRITE_PAGE then
        if \<not> dev_erased d then ([ST_NOT_ERASED], d)
        else if length pl \<noteq> unat (pi_page_size i) + 2 then ([ST_BAD_FRAME], d)
        else
          let idx = unat (u16_from_le_bytes (pl ! 0) (pl ! 1)) in
          if unat (pi_app_pages i) \<le> idx then ([ST_OUT_OF_RANGE], d)
          else ([ST_OK], d\<lparr>dev_flash := put_at (idx * unat (pi_page_size i)) (drop 2 pl) (dev_flash d)\<rparr>)
      else if c = CMD_VERIFY then
        if length pl \<noteq> 8 then ([ST_BAD_FRAME], d)
        else
          let len = unat (u32_from_le_bytes (pl ! 0) (pl ! 1) (pl ! 2) (pl ! 3)) in
          if length (dev_flash d) < len + 16 then ([ST_OUT_OF_RANGE], d)
          else ([if crc32 (take len (dev_flash d)) = u32_from_le_bytes (pl ! 4) (pl ! 5) (pl ! 6) (pl ! 7)
                 then ST_OK else ST_BAD_CRC], d)
      else if c = CMD_BOOT then
        ([if region_valid (dev_flash d) then ST_OK else ST_NO_APP], d)
      else if c = CMD_ECHO then
        (if length pl > 16 then [ST_BAD_FRAME] else ST_OK # pl, d)
      else ([ST_BAD_CMD], d))"

section \<open>Bytes and words of the handlers\<close>

lemma low_byte: "(ucast (w AND 0xFF) :: u8) = ucast w" for w :: u16
proof (rule bit_word_eqI)
  fix n :: nat
  assume n: "n < LENGTH(8)"
  then have "bit (mask 8 :: u16) n"
    by (simp only: bit_mask_iff) simp
  then have "bit (0xFF :: u16) n"
    by (simp add: mask_eq_exp_minus_1)
  with n show "bit (ucast (w AND 0xFF) :: u8) n = bit (ucast w :: u8) n"
    by (simp add: bit_simps)
qed

lemma index_word:
  "(ucast (((ucast b0 :: u32) OR push_bit 8 (ucast b1)) AND 0xFFFF) :: u16) = u16_from_le_bytes b0 b1"
proof (rule bit_word_eqI)
  fix n :: nat
  assume n: "n < LENGTH(16)"
  then have "bit (mask 16 :: u32) n"
    by (simp only: bit_mask_iff) simp
  then have "bit (0xFFFF :: u32) n"
    by (simp add: mask_eq_exp_minus_1)
  with n show "bit (ucast (((ucast b0 :: u32) OR push_bit 8 (ucast b1)) AND 0xFFFF) :: u16) n =
      bit (u16_from_le_bytes b0 b1) n"
    by (auto simp: u16_from_le_bytes_def bit_simps)
qed

lemma wire_u32_eq: "wire_u32 p at = u32_from_le_bytes (p ! at) (p ! (at + 1)) (p ! (at + 2)) (p ! (at + 3))"
  by (simp add: wire_u32_def u32_from_le_bytes_def upt_rec numeral_2_eq_2 numeral_3_eq_3 or.assoc)

lemma length_word_eq:
  "length pl \<le> 252 \<Longrightarrow> (ucast (word_of_nat (length pl) :: u8) :: u32) = ucast p + 2 \<longleftrightarrow> length pl = unat p + 2"
  for p :: u16
proof -
  assume pl: "length pl \<le> 252"
  have "unat (ucast p + 2 :: u32) = unat p + 2"
    using unat_u16_lt [of p] by (simp add: unat_word_ariths)
  moreover have "unat (ucast (word_of_nat (length pl) :: u8) :: u32) = length pl"
    using pl by (simp add: unsigned_ucast_eq take_bit_nat_eq_self)
  ultimately show ?thesis
    by (metis word_unat_eq_iff)
qed

lemma length_byte_eq: "length pl \<le> 252 \<Longrightarrow> (word_of_nat (length pl) :: u8) = numeral k \<longleftrightarrow> length pl = unat (numeral k :: u8)"
  by (simp add: word_unat_eq_iff)

section \<open>Ports that behave\<close>

text \<open>
  The laws of \<^verbatim>\<open>port.h\<close> while the device is \<open>ok\<close>. Reading: reads inside the region
  return the byte a boot would see, and a jump leaves the flash alone. Writing adds: an
  erase leaves one page at \<open>0xFF\<close>, a write stores one page. A device that may lose power
  keeps only the first half.
\<close>

locale flash_reader =
  fixes port :: "'w port" and ok :: "'w \<Rightarrow> bool" and flash_of :: "'w \<Rightarrow> bytes" and ps ap :: nat
  assumes geometry: "ps = unat (pi_page_size (port_info_of port))" "ap = unat (pi_app_pages (port_info_of port))"
    and geometry_ok: "16 \<le> ps" "ps \<le> 250" "1 \<le> ap"
    and device_id: "length (pi_device_id (port_info_of port)) = 4"
    and flash_length: "ok w \<Longrightarrow> length (flash_of w) = ps * ap"
    and flash_read: "ok w \<Longrightarrow> unat off < ps * ap \<Longrightarrow> port_flash_read_byte port off w = (flash_of w ! unat off, w)"
    and jump_flash: "flash_of (port_jump_to_app port w) = flash_of w"
begin

lemma region_small: "ps * ap < 4294967296" "16 \<le> ps * ap"
proof -
  show "ps * ap < 4294967296"
    using geometry_bound [OF geometry_ok(2)] by (simp add: geometry(2))
  show "16 \<le> ps * ap"
    using mult_le_mono [OF geometry_ok(1) geometry_ok(3)] by simp
qed

lemma unat_region_bytes: "unat (region_bytes (port_info_of port)) = ps * ap"
  using region_small(1) unfolding region_bytes_def geometry by (simp add: unat_word_ariths)

lemma unat_base: "unat (region_bytes (port_info_of port) - 16) = ps * ap - 16"
  using region_small unat_region_bytes by (simp add: unat_sub word_le_nat_alt)

lemma region_not_small: "\<not> region_bytes (port_info_of port) < 16"
  using region_small unat_region_bytes by (simp add: word_less_nat_alt)

lemma flash_crc_loop_eq:
  assumes "ok w" and "unat off + k \<le> ps * ap"
  shows "flash_crc_loop port k off c w = (foldl crc32_step c (take k (drop (unat off) (flash_of w))), w)"
  using assms(2)
proof (induction k arbitrary: off c)
  case (Suc k)
  then have lt: "unat off < ps * ap" by simp
  then have "unat off + 1 < 2 ^ LENGTH(32)"
    using region_small(1) by simp
  then have off: "unat (off + 1) = Suc (unat off)"
    by (metis Suc_eq_plus1 One_nat_def unat_1 unat_add_lem)
  have "drop (unat off) (flash_of w) = flash_of w ! unat off # drop (Suc (unat off)) (flash_of w)"
    using lt flash_length [OF assms(1)] by (simp add: Cons_nth_drop_Suc)
  then show ?case
    using Suc off lt flash_read [OF assms(1) lt] by (simp add: upd_crc32_update_eq)
qed simp

lemma flash_crc_eq:
  "ok w \<Longrightarrow> unat len \<le> ps * ap \<Longrightarrow> flash_crc port len w = (crc32 (take (unat len) (flash_of w)), w)"
  by (simp add: flash_crc_def flash_crc_loop_eq crc32_def upd_crc32_init_def upd_crc32_final_def)

lemma unat_offset:
  fixes base :: u32
  assumes "unat base = ps * ap - 16" and "k < 16"
  shows "unat (base + word_of_nat k) = ps * ap - 16 + k"
proof -
  have "unat base + unat (word_of_nat k :: u32) < 2 ^ LENGTH(32)"
    using assms region_small by simp
  then have "unat (base + word_of_nat k) = unat base + unat (word_of_nat k :: u32)"
    by (rule unat_add_lem [THEN iffD1])
  then show ?thesis
    using assms by simp
qed

lemma flash_matches_eq:
  assumes "ok w" and "unat off + length ms \<le> ps * ap"
  shows "flash_matches port off ms w = (take (length ms) (drop (unat off) (flash_of w)) = ms, w)"
  using assms(2)
proof (induction ms arbitrary: off)
  case (Cons m ms)
  then have lt: "unat off < ps * ap" by simp
  then have "unat off + 1 < 2 ^ LENGTH(32)"
    using region_small(1) by simp
  then have off: "unat (off + 1) = Suc (unat off)"
    by (metis Suc_eq_plus1 One_nat_def unat_1 unat_add_lem)
  have "drop (unat off) (flash_of w) = flash_of w ! unat off # drop (Suc (unat off)) (flash_of w)"
    using lt flash_length [OF assms(1)] by (simp add: Cons_nth_drop_Suc)
  then show ?case
    using Cons off flash_read [OF assms(1) lt] by simp
qed simp

lemma footer_words_eq:
  assumes "ok w" and base: "unat base = ps * ap - 16"
  shows "footer_words port base 0 4 0 0 w =
     (let f = drop (ps * ap - 16) (flash_of w) in
      (u32_from_le_bytes (f ! 4) (f ! 5) (f ! 6) (f ! 7), u32_from_le_bytes (f ! 8) (f ! 9) (f ! 10) (f ! 11), w))"
proof -
  have read: "port_flash_read_byte port (base + word_of_nat k) w = (drop (ps * ap - 16) (flash_of w) ! k, w)" if "k < 16" for k
    using flash_read [OF assms(1), of "base + word_of_nat k"] unat_offset [OF base that] that region_small
      flash_length [OF assms(1)]
    by simp
  have r: "port_flash_read_byte port (base + 4) w = (drop (ps * ap - 16) (flash_of w) ! 4, w)"
    "port_flash_read_byte port (base + 5) w = (drop (ps * ap - 16) (flash_of w) ! 5, w)"
    "port_flash_read_byte port (base + 6) w = (drop (ps * ap - 16) (flash_of w) ! 6, w)"
    "port_flash_read_byte port (base + 7) w = (drop (ps * ap - 16) (flash_of w) ! 7, w)"
    "port_flash_read_byte port (base + 8) w = (drop (ps * ap - 16) (flash_of w) ! 8, w)"
    "port_flash_read_byte port (base + 9) w = (drop (ps * ap - 16) (flash_of w) ! 9, w)"
    "port_flash_read_byte port (base + 10) w = (drop (ps * ap - 16) (flash_of w) ! 10, w)"
    "port_flash_read_byte port (base + 11) w = (drop (ps * ap - 16) (flash_of w) ! 11, w)"
    using read [of 4] read [of 5] read [of 6] read [of 7] read [of 8] read [of 9] read [of 10] read [of 11]
    by simp_all
  have four: "footer_words port base 0 4 0 0 w = footer_words port base 0 (Suc (Suc (Suc (Suc 0)))) 0 0 w"
    by (simp only: numeral_eq_Suc pred_numeral_simps BitM.simps)
  show ?thesis
    unfolding four footer_words.simps Let_def
    by (simp add: r add.assoc u32_from_le_bytes_def or.assoc flip: numeral_eq_Suc)
qed

lemma app_valid_eq:
  assumes w: "ok w"
  shows "upd_app_valid port (port_info_of port) w = (region_valid (flash_of w), w)"
proof -
  have length_magic: "length FOOTER_MAGIC = 4"
    by (simp add: FOOTER_MAGIC_def)
  let ?base = "region_bytes (port_info_of port) - 16" and ?f = "drop (ps * ap - 16) (flash_of w)"
  let ?len = "u32_from_le_bytes (?f ! 4) (?f ! 5) (?f ! 6) (?f ! 7)"
  have magic: "flash_matches port ?base [0x4F, 0x54, 0x41, 0x55] w = (take 4 ?f = FOOTER_MAGIC, w)"
    using flash_matches_eq [OF w, of ?base FOOTER_MAGIC] region_small unat_base length_magic
    unfolding FOOTER_MAGIC_def [symmetric] by simp
  have gt: "?base < ?len \<longleftrightarrow> \<not> unat ?len \<le> ps * ap - 16"
    by (simp add: word_less_nat_alt unat_base not_le)
  have crc: "flash_crc port ?len w = (crc32 (take (unat ?len) (flash_of w)), w)" if "unat ?len \<le> ps * ap - 16"
    using that by (intro flash_crc_eq [OF w]) simp
  show ?thesis
    unfolding upd_app_valid_def Let_def magic prod.case footer_words_eq [OF w unat_base] gt
    using region_not_small region_small crc flash_length [OF w]
    by (auto simp: region_valid_def Let_def)
qed

lemma take_put_at_front: "length xs \<le> length rsp \<Longrightarrow> take (length xs) (put_at 0 xs rsp) = xs"
  by (simp add: put_at_def)

lemma handle_info_eq:
  assumes "ok w" and "us_info s = port_info_of port" and "12 \<le> rsp_cap" and "12 \<le> length rsp"
  shows "handle_info port s rsp rsp_cap w =
     (12, put_at 0 (info_payload (port_info_of port) (region_valid (flash_of w))) rsp, w)"
proof -
  have "take 4 (pi_device_id (port_info_of port)) = [pi_device_id (port_info_of port) ! 0,
      pi_device_id (port_info_of port) ! 1, pi_device_id (port_info_of port) ! 2, pi_device_id (port_info_of port) ! 3]"
    using device_id by (intro nth_equalityI) (auto simp: less_Suc_eq numeral_eq_Suc)
  then show ?thesis
    using assms app_valid_eq [OF assms(1)]
    by (simp add: handle_info_def info_payload_def u16_to_le_bytes_def low_byte not_less Let_def)
qed

text \<open>The refinement, over the session and frame that carry an abstract request.\<close>

definition abs_dev :: "upd_session \<Rightarrow> 'w \<Rightarrow> device" where
  "abs_dev s w = \<lparr>dev_flash = flash_of w, dev_erased = us_erased s\<rparr>"

definition refines :: "upd_session \<Rightarrow> u8 \<Rightarrow> bytes \<Rightarrow> bytes \<Rightarrow> 'w \<Rightarrow> u8 \<times> bytes \<times> upd_session \<times> 'w \<Rightarrow> bool" where
  "refines s c pl rsp w res \<longleftrightarrow>
     (case res of (n, rsp', s', w') \<Rightarrow>
        (case dev_step (port_info_of port) (abs_dev s w) c pl of (out, d') \<Rightarrow>
           take (unat n) rsp' = out \<and> 1 \<le> length out \<and> length out \<le> 17 \<and> unat n = length out \<and>
           length rsp' = length rsp \<and> ok w' \<and> abs_dev s' w' = d' \<and> us_info s' = us_info s \<and>
           us_boot_pending s' = (us_boot_pending s \<or> (c = CMD_BOOT \<and> region_valid (flash_of w)))))"

lemma abs_dev_simps [simp]:
  "dev_flash (abs_dev s w) = flash_of w" "dev_erased (abs_dev s w) = us_erased s"
  by (simp_all add: abs_dev_def)

lemmas cmd_defs = CMD_INFO_def CMD_ERASE_APP_def CMD_WRITE_PAGE_def CMD_VERIFY_def CMD_BOOT_def CMD_ECHO_def

lemma status_only:
  assumes "1 \<le> length rsp"
  shows "take (unat (1 :: u8)) (put_at 0 [st] rsp) = [st]" "length (put_at 0 [st] rsp) = length rsp"
  using assms by (simp_all add: put_at_def)

text \<open>A request that arrives with the session initialised, and a response buffer of the size the core asks for.\<close>

definition ready :: "upd_session \<Rightarrow> bytes \<Rightarrow> bytes \<Rightarrow> u8 \<Rightarrow> 'w \<Rightarrow> bool" where
  "ready s pl rsp cap w \<longleftrightarrow> ok w \<and> us_info s = port_info_of port \<and> length pl \<le> 252
     \<and> 17 \<le> unat cap \<and> unat cap \<le> length rsp"

lemma readyD:
  assumes "ready s pl rsp cap w"
  shows "ok w" "us_info s = port_info_of port" "length pl \<le> 252" "17 \<le> unat cap"
    "unat cap \<le> length rsp" "cap \<noteq> 0" "12 \<le> cap" "17 \<le> length rsp"
  using assms by (auto simp: ready_def word_le_nat_alt)

abbreviation request :: "u8 \<Rightarrow> bytes \<Rightarrow> bytes \<Rightarrow> upd_frame" where
  "request c pl junk \<equiv> \<lparr>uf_cmd = c, uf_len = word_of_nat (length pl), uf_payload = pl @ junk\<rparr>"

lemma refines_info:
  assumes r: "ready s pl rsp cap w" and c: "c = CMD_INFO"
  shows "refines s c pl rsp w (upd_handle port s (request c pl junk) rsp cap w)"
proof -
  let ?rq = "request c pl junk"
  note w = readyD(1) [OF r] and i = readyD(2) [OF r] and pl = readyD(3) [OF r] and cap = readyD(4,5) [OF r]
    and cap0 = readyD(6) [OF r] and cap12 = readyD(7) [OF r] and rsp = readyD(8) [OF r]
  note st = status_only [of rsp]
  have len: "length (info_payload (port_info_of port) v) = 12" for v
    by (simp add: info_payload_def device_id)
  have "upd_handle port s ?rq rsp cap w =
      (12, put_at 0 (info_payload (port_info_of port) (region_valid (flash_of w))) rsp, s, w)"
    using c cap0 handle_info_eq [OF w i cap12] rsp by (simp add: upd_handle_def)
  with c len rsp w show ?thesis
    using take_put_at_front [of "info_payload (port_info_of port) (region_valid (flash_of w))" rsp]
    by (simp add: refines_def dev_step_def cmd_defs)
qed

text \<open>What the two writing handlers do, before any law about writes is used.\<close>

lemma handle_erase_eq:
  assumes r: "ready s pl rsp cap w" and c: "c = CMD_ERASE_APP"
  shows "upd_handle port s (request c pl junk) rsp cap w =
      (if pl \<noteq> ERASE_MAGIC then (1, put_at 0 [ST_BAD_MAGIC] rsp, s, w)
       else (1, put_at 0 [ST_OK] rsp, s\<lparr>us_erased := True\<rparr>, erase_loop port ap 0 w))"
proof -
  let ?rq = "request c pl junk"
  note i = readyD(2) [OF r] and pl = readyD(3) [OF r] and cap0 = readyD(6) [OF r]
  have magic: "(uf_len ?rq \<noteq> 4 \<or> uf_payload ?rq ! 0 \<noteq> 0x45 \<or> uf_payload ?rq ! 1 \<noteq> 0x52
       \<or> uf_payload ?rq ! 2 \<noteq> 0x41 \<or> uf_payload ?rq ! 3 \<noteq> 0x53) \<longleftrightarrow> pl \<noteq> ERASE_MAGIC"
  proof (cases "length pl = 4")
    case True
    then obtain a b d e where "pl = [a, b, d, e]"
      by (auto simp: numeral_eq_Suc length_Suc_conv)
    then show ?thesis by (simp add: ERASE_MAGIC_def)
  next
    case False
    then show ?thesis
      using length_byte_eq [OF pl, of "num.Bit0 (num.Bit0 num.One)"] by (auto simp: ERASE_MAGIC_def)
  qed
  show ?thesis
    unfolding upd_handle_def handle_erase_def magic using c cap0 by (simp add: cmd_defs i geometry(2))
qed

lemma handle_write_eq:
  assumes r: "ready s pl rsp cap w" and c: "c = CMD_WRITE_PAGE"
  shows "upd_handle port s (request c pl junk) rsp cap w =
     (if \<not> us_erased s then (1, put_at 0 [ST_NOT_ERASED] rsp, s, w)
      else if length pl \<noteq> ps + 2 then (1, put_at 0 [ST_BAD_FRAME] rsp, s, w)
      else let idx = u16_from_le_bytes (pl ! 0) (pl ! 1) in
        if ap \<le> unat idx then (1, put_at 0 [ST_OUT_OF_RANGE] rsp, s, w)
        else (1, put_at 0 [ST_OK] rsp, s, port_flash_write_page port idx (drop 2 (pl @ junk)) w))"
proof -
  note i = readyD(2) [OF r] and pl = readyD(3) [OF r] and cap0 = readyD(6) [OF r]
  have two: "length pl = ps + 2 \<Longrightarrow> (pl @ junk) ! 0 = pl ! 0 \<and> (pl @ junk) ! 1 = pl ! 1"
    by (auto simp: nth_append)
  show ?thesis
    using c cap0 two length_word_eq [OF pl, of "pi_page_size (port_info_of port)"]
    by (auto simp: upd_handle_def handle_write_def index_word cmd_defs i geometry word_le_nat_alt Let_def)
qed

lemma refines_verify:
  assumes r: "ready s pl rsp cap w" and c: "c = CMD_VERIFY"
  shows "refines s c pl rsp w (upd_handle port s (request c pl junk) rsp cap w)"
proof -
  let ?rq = "request c pl junk"
  note w = readyD(1) [OF r] and i = readyD(2) [OF r] and pl = readyD(3) [OF r] and cap = readyD(4,5) [OF r]
    and cap0 = readyD(6) [OF r] and cap12 = readyD(7) [OF r] and rsp = readyD(8) [OF r]
  note st = status_only [of rsp]
  let ?len = "u32_from_le_bytes (pl ! 0) (pl ! 1) (pl ! 2) (pl ! 3)"
  let ?st = "if length pl \<noteq> 8 then ST_BAD_FRAME else if ps * ap < unat ?len + 16 then ST_OUT_OF_RANGE
     else if crc32 (take (unat ?len) (flash_of w)) = u32_from_le_bytes (pl ! 4) (pl ! 5) (pl ! 6) (pl ! 7)
     then ST_OK else ST_BAD_CRC"
  have len8: "uf_len ?rq = 8 \<longleftrightarrow> length pl = 8"
    using length_byte_eq [OF pl, of "num.Bit0 (num.Bit0 (num.Bit0 num.One))"] by simp
  have words: "length pl = 8 \<Longrightarrow> wire_u32 (pl @ junk) 0 = ?len \<and>
      wire_u32 (pl @ junk) 4 = u32_from_le_bytes (pl ! 4) (pl ! 5) (pl ! 6) (pl ! 7)"
    by (simp add: wire_u32_eq nth_append numeral_2_eq_2)
  have big: "region_bytes (port_info_of port) - 16 < ?len \<longleftrightarrow> ps * ap < unat ?len + 16"
    using region_small(2) by (simp add: word_less_nat_alt unat_base; linarith)
  have crc: "\<not> ps * ap < unat ?len + 16 \<Longrightarrow> flash_crc port ?len w = (crc32 (take (unat ?len) (flash_of w)), w)"
    by (rule flash_crc_eq [OF w]) simp
  have "upd_handle port s ?rq rsp cap w = (1, put_at 0 [?st] rsp, s, w)"
    using c cap0 len8 words big crc region_not_small
    by (auto simp: upd_handle_def handle_verify_def cmd_defs i Let_def)
  with c st rsp w flash_length [OF w] show ?thesis
    by (auto simp: refines_def dev_step_def cmd_defs abs_dev_def Let_def)
qed

lemma refines_boot:
  assumes r: "ready s pl rsp cap w" and c: "c = CMD_BOOT"
  shows "refines s c pl rsp w (upd_handle port s (request c pl junk) rsp cap w)"
proof -
  let ?rq = "request c pl junk"
  note w = readyD(1) [OF r] and i = readyD(2) [OF r] and pl = readyD(3) [OF r] and cap = readyD(4,5) [OF r]
    and cap0 = readyD(6) [OF r] and cap12 = readyD(7) [OF r] and rsp = readyD(8) [OF r]
  note st = status_only [of rsp]
  show ?thesis
    using c cap0 w i st rsp by (auto simp: refines_def dev_step_def upd_handle_def cmd_defs app_valid_eq abs_dev_def)
qed

lemma refines_echo:
  assumes r: "ready s pl rsp cap w" and c: "c = CMD_ECHO"
  shows "refines s c pl rsp w (upd_handle port s (request c pl junk) rsp cap w)"
proof -
  let ?rq = "request c pl junk"
  note w = readyD(1) [OF r] and i = readyD(2) [OF r] and pl = readyD(3) [OF r] and cap = readyD(4,5) [OF r]
    and cap0 = readyD(6) [OF r] and cap12 = readyD(7) [OF r] and rsp = readyD(8) [OF r]
  note st = status_only [of rsp]
  have len: "unat (word_of_nat (length pl) :: u8) = length pl"
    using pl by simp
  have succ: "length pl \<le> 16 \<Longrightarrow> unat (word_of_nat (length pl) + 1 :: u8) = length pl + 1"
    by (simp add: unat_word_ariths)
  show ?thesis
  proof (cases "length pl \<le> 16")
    case True
    have "upd_handle port s ?rq rsp cap w = (word_of_nat (length pl) + 1, put_at 0 (ST_OK # pl) rsp, s, w)"
      using c True cap cap0 len by (simp add: upd_handle_def handle_echo_def ECHO_MAX_def cmd_defs)
    with c True succ rsp w take_put_at_front [of "ST_OK # pl" rsp] show ?thesis
      by (simp add: refines_def dev_step_def cmd_defs abs_dev_def)
  next
    case False
    have "upd_handle port s ?rq rsp cap w = (1, put_at 0 [ST_BAD_FRAME] rsp, s, w)"
      using c False cap0 len by (simp add: upd_handle_def handle_echo_def ECHO_MAX_def cmd_defs)
    with c False st rsp w show ?thesis
      by (simp add: refines_def dev_step_def cmd_defs abs_dev_def)
  qed
qed

lemma refines_other:
  assumes r: "ready s pl rsp cap w" and c: "c \<notin> {CMD_INFO, CMD_ERASE_APP, CMD_WRITE_PAGE, CMD_VERIFY, CMD_BOOT, CMD_ECHO}"
  shows "refines s c pl rsp w (upd_handle port s (request c pl junk) rsp cap w)"
proof -
  let ?rq = "request c pl junk"
  note w = readyD(1) [OF r] and i = readyD(2) [OF r] and pl = readyD(3) [OF r] and cap = readyD(4,5) [OF r]
    and cap0 = readyD(6) [OF r] and cap12 = readyD(7) [OF r] and rsp = readyD(8) [OF r]
  note st = status_only [of rsp]
  show ?thesis
    using c cap0 w st rsp by (simp add: refines_def dev_step_def upd_handle_def abs_dev_def)
qed

lemma handle_reads:
  assumes r: "ready s pl rsp cap w" and c: "c \<noteq> CMD_ERASE_APP" "c \<noteq> CMD_WRITE_PAGE"
  shows "refines s c pl rsp w (upd_handle port s (request c pl junk) rsp cap w)"
proof -
  consider "c = CMD_INFO" | "c = CMD_VERIFY" | "c = CMD_BOOT" | "c = CMD_ECHO"
    | "c \<notin> {CMD_INFO, CMD_ERASE_APP, CMD_WRITE_PAGE, CMD_VERIFY, CMD_BOOT, CMD_ECHO}"
    using c by blast
  then show ?thesis
    by cases (rule refines_info [OF r] refines_verify [OF r] refines_boot [OF r] refines_echo [OF r] refines_other [OF r],
        assumption)+
qed

end

locale flash_port = flash_reader port ok flash_of ps ap
  for port :: "'w port" and ok :: "'w \<Rightarrow> bool" and flash_of :: "'w \<Rightarrow> bytes" and ps ap :: nat +
  assumes flash_erase: "ok w \<Longrightarrow> unat p < ap \<Longrightarrow> ok (port_flash_erase_page port p w)
      \<and> flash_of (port_flash_erase_page port p w) = put_at (unat p * ps) (replicate ps 0xFF) (flash_of w)"
    and flash_write: "ok w \<Longrightarrow> unat p < ap \<Longrightarrow> ps \<le> length data \<Longrightarrow> ok (port_flash_write_page port p data w)
      \<and> flash_of (port_flash_write_page port p data w) = put_at (unat p * ps) (take ps data) (flash_of w)"
begin

lemma erase_loop_eq:
  assumes "ok w" and "unat p + k = ap"
  shows "ok (erase_loop port k p w) \<and>
     flash_of (erase_loop port k p w) = take (unat p * ps) (flash_of w) @ replicate (k * ps) 0xFF"
  using assms
proof (induction k arbitrary: p w)
  case 0
  then show ?case
    using flash_length [of w] by (simp add: mult.commute)
next
  case (Suc k)
  let ?w = "port_flash_erase_page port p w"
  have lt: "unat p < ap" using Suc.prems by simp
  have er: "ok ?w" "flash_of ?w = put_at (unat p * ps) (replicate ps 0xFF) (flash_of w)"
    using flash_erase [OF Suc.prems(1) lt] by auto
  have "unat p + 1 < 2 ^ LENGTH(16) \<or> k = 0"
    using Suc.prems(2) unat_u16_lt [of "pi_app_pages (port_info_of port)"] by (simp add: geometry(2) [symmetric]; linarith)
  then show ?case
  proof
    assume "unat p + 1 < 2 ^ LENGTH(16)"
    then have p: "unat (p + 1) = Suc (unat p)"
      by (metis Suc_eq_plus1 One_nat_def unat_1 unat_add_lem)
    have le: "unat p * ps + ps \<le> length (flash_of w)"
      using page_bound [OF lt, of ps] flash_length [OF Suc.prems(1)] by simp
    have "take (Suc (unat p) * ps) (flash_of ?w) = take (unat p * ps) (flash_of w) @ replicate ps 0xFF"
      using le unfolding er(2) by (simp add: put_at_def add.commute)
    with Suc.IH [OF er(1), of "p + 1"] p Suc.prems(2) show ?thesis
      by (simp add: replicate_add)
  next
    assume k: "k = 0"
    have "length (flash_of w) = unat p * ps + ps"
      using flash_length [OF Suc.prems(1)] Suc.prems(2) k by (simp add: Suc.prems(2) [symmetric] algebra_simps)
    with er k show ?thesis
      by (simp add: put_at_def)
  qed
qed

lemma erase_all:
  assumes "ok w"
  shows "ok (erase_loop port ap 0 w) \<and> flash_of (erase_loop port ap 0 w) = replicate (length (flash_of w)) 0xFF"
  using erase_loop_eq [OF assms, of 0 ap] flash_length [OF assms] by (simp add: mult.commute)

lemma refines_erase:
  assumes r: "ready s pl rsp cap w" and c: "c = CMD_ERASE_APP"
  shows "refines s c pl rsp w (upd_handle port s (request c pl junk) rsp cap w)"
  using handle_erase_eq [OF r c] c readyD(1,8) [OF r] status_only [of rsp] erase_all [OF readyD(1) [OF r]]
  by (auto simp: refines_def dev_step_def cmd_defs abs_dev_def)

lemma refines_write:
  assumes r: "ready s pl rsp cap w" and c: "c = CMD_WRITE_PAGE"
  shows "refines s c pl rsp w (upd_handle port s (request c pl junk) rsp cap w)"
proof -
  let ?idx = "u16_from_le_bytes (pl ! 0) (pl ! 1)"
  note w = readyD(1) [OF r] and rsp = readyD(8) [OF r]
  have "take ps (drop 2 (pl @ junk)) = drop 2 pl" "ps \<le> length (drop 2 (pl @ junk))" if "length pl = ps + 2"
    using that by simp_all
  then show ?thesis
    using handle_write_eq [OF r c] c w rsp status_only [of rsp] flash_write [OF w, of ?idx "drop 2 (pl @ junk)"]
    by (auto simp: refines_def dev_step_def cmd_defs abs_dev_def geometry [symmetric] not_le Let_def)
qed

lemma handle_refines:
  assumes "ready s pl rsp cap w"
  shows "refines s c pl rsp w (upd_handle port s (request c pl junk) rsp cap w)"
  using refines_erase [OF assms] refines_write [OF assms] handle_reads [OF assms]
  by (cases "c = CMD_ERASE_APP"; cases "c = CMD_WRITE_PAGE") simp_all

end

end
