(* ===== verification/Link_Stream.thy ===== *)
theory Link_Stream
  imports Device_Core Stream_Scanner
begin

text \<open>
  The device's stream receiver \<^verbatim>\<open>device/core/link_stream.c\<close>, and the proof that it
  and the host's scanner are the same machine. The bytes that \<open>get_byte\<close> has to offer
  before it reports an empty FIFO are a list; \<open>link_poll\<close> returns with what it left.
\<close>

section \<open>The receiver\<close>

definition UPD_LINK_SYNC :: u8 where "UPD_LINK_SYNC = 0x7E"

record link =
  lk_buf :: bytes
  lk_n :: u8
  lk_in_frame :: bool

definition link_init :: "bytes \<Rightarrow> link" where
  "link_init buf = \<lparr>lk_buf = buf, lk_n = 0, lk_in_frame = False\<rparr>"

text \<open>One turn of the loop: a frame to return, or \<open>None\<close> to go on. \<open>buf_len\<close> is the buffer's length.\<close>

definition link_step :: "link \<Rightarrow> u8 \<Rightarrow> upd_frame option \<times> link" where
  "link_step l b =
     (if \<not> lk_in_frame l then
        (None, if b = UPD_LINK_SYNC \<and> length (lk_buf l) \<ge> UPD_FRAME_OVERHEAD
               then l\<lparr>lk_in_frame := True, lk_n := 0\<rparr> else l)
      else
        let l = l\<lparr>lk_buf := (lk_buf l)[unat (lk_n l) := b]\<rparr>;
            l = l\<lparr>lk_n := lk_n l + 1\<rparr>
        in if lk_n l < 2 then (None, l)
           else
             let total' = unat (lk_buf l ! 1) + UPD_FRAME_OVERHEAD in
             if total' > length (lk_buf l) then (None, l\<lparr>lk_in_frame := False\<rparr>)
             else if unat (lk_n l) < total' then (None, l)
             else
               let l = l\<lparr>lk_in_frame := False\<rparr> in
               (upd_frame_parse (lk_buf l) (lk_n l), l))"

fun link_poll :: "link \<Rightarrow> bytes \<Rightarrow> upd_frame option \<times> link \<times> bytes" where
  "link_poll l [] = (None, l, [])"
| "link_poll l (b # fifo) =
     (case link_step l b of
        (Some req, l) \<Rightarrow> (Some req, l, fifo)
      | (None, l) \<Rightarrow> link_poll l fifo)"

text \<open>\<open>link_send\<close>: the bytes handed to \<open>put_byte\<close>, in order.\<close>

definition link_send :: "bytes \<Rightarrow> u8 \<Rightarrow> bytes" where
  "link_send fr n = UPD_LINK_SYNC # take (unat n) fr"

lemma length_link_poll: "link_poll l fifo = (Some req, l', fifo') \<Longrightarrow> length fifo' < length fifo"
  by (induction l fifo rule: link_poll.induct) (auto split: option.splits prod.splits)

text \<open>More bytes in the FIFO change nothing before they are reached.\<close>

lemma link_poll_append:
  "link_poll l (a @ b) =
     (case link_poll l a of (None, l', _) \<Rightarrow> link_poll l' b | (Some req, l', rest) \<Rightarrow> (Some req, l', rest @ b))"
  by (induction l a rule: link_poll.induct) (auto split: prod.splits option.splits)

section \<open>The receiver is the host's scanner\<close>

text \<open>The host's view of a link.\<close>

definition scanner_of :: "link \<Rightarrow> rx_scanner" where
  "scanner_of l = \<lparr>sc_n = (if lk_in_frame l then unat (lk_n l) else 0), sc_in_frame = lk_in_frame l\<rparr>"

definition link_inv :: "link \<Rightarrow> bool" where
  "link_inv l \<longleftrightarrow> length (lk_buf l) \<le> 255 \<and> scanner_inv (scanner_of l) (lk_buf l)"

lemma link_init_inv [simp]: "length buf \<le> 255 \<Longrightarrow> link_inv (link_init buf)"
  by (simp add: link_inv_def link_init_def scanner_of_def scanner_inv_def)

text \<open>
  One byte: the scanner says \<open>Done\<close> exactly when the receiver returns, with the same
  frame, and buffer and state go on alike.
\<close>

definition same_step :: "upd_frame option \<times> link \<Rightarrow> scan \<times> rx_scanner \<times> bytes \<Rightarrow> bool" where
  "same_step dev host \<longleftrightarrow>
     (case (dev, host) of ((q, l'), (r, sc', buf')) \<Rightarrow>
        lk_buf l' = buf' \<and> scanner_of l' = sc' \<and> (q \<noteq> None \<longleftrightarrow> is_done r) \<and>
        (\<forall>n. r = Done n \<longrightarrow> (\<exists>f. decode (take n buf') = Ok f \<and> n = length (payload f) + 3 \<and>
           q = Some \<lparr>uf_cmd = cmd f, uf_len = word_of_nat (length (payload f)), uf_payload = drop 2 buf'\<rparr>)))"

lemma link_step_hunting:
  assumes "\<not> lk_in_frame l"
  shows "same_step (link_step l b) (push (scanner_of l) b (lk_buf l))"
  using assms
  by (auto simp: same_step_def link_step_def scanner_of_def push_hunting UPD_LINK_SYNC_def SYNC_def
      UPD_FRAME_OVERHEAD_def is_done_def)

lemma link_step_in_frame:
  assumes inv: "link_inv l" and fr: "lk_in_frame l"
  shows "same_step (link_step l b) (push (scanner_of l) b (lk_buf l))"
proof -
  define n where "n = unat (lk_n l)"
  define buf where "buf = (lk_buf l)[n := b]"
  define len where "len = unat (buf ! Suc 0)"
  have sc: "scanner_of l = \<lparr>sc_n = n, sc_in_frame = True\<rparr>"
    using fr by (simp add: scanner_of_def n_def)
  have si: "scanner_inv (scanner_of l) (lk_buf l)" and le: "length buf \<le> 255"
    using inv by (simp_all add: link_inv_def buf_def)
  then have n: "n < length buf" "n < 255" and two: "2 \<le> n \<Longrightarrow> n < unat (lk_buf l ! 1) + 3"
    using sc by (simp_all add: scanner_inv_def buf_def)
  have "unat (lk_n l) + 1 < 2 ^ LENGTH(8)" using n(2) by (simp add: n_def)
  then have n1: "unat (lk_n l + 1) = Suc n"
    unfolding n_def by (metis Suc_eq_plus1 One_nat_def unat_1 unat_add_lem)
  have lt2: "lk_n l + 1 < 2 \<longleftrightarrow> n = 0"
    by (simp add: word_less_nat_alt n1)
  have full: "Suc n = len + 3" if "n \<noteq> 0" "\<not> Suc n < len + 3"
    using that two by (cases "n = 1") (simp_all add: len_def buf_def)
  have parse: "upd_frame_parse buf (lk_n l + 1) = (case decode (take (len + 3) buf) of
      Ok f \<Rightarrow> Some \<lparr>uf_cmd = cmd f, uf_len = word_of_nat (length (payload f)), uf_payload = drop 2 buf\<rparr>
    | Err _ \<Rightarrow> None)" if "n \<noteq> 0" "\<not> Suc n < len + 3" "\<not> length buf < len + 3"
  proof -
    have "unat (word_of_nat (len + 3) :: u8) = len + 3"
      using that le by (simp only: unat_of_nat) simp
    then have eq: "lk_n l + 1 = word_of_nat (len + 3)"
      using full [OF that(1,2)] n1 by (metis word_unat_eq_iff)
    show ?thesis
      unfolding eq by (rule upd_frame_parse_decode) (use that le in simp_all)
  qed
  have dec: "len = length (payload f)" if "decode (take (len + 3) buf) = Ok f" "\<not> length buf < len + 3" for f :: frame
    using that by (simp add: decode_iff) (metis add_right_cancel length_take length_wire min.absorb2 not_less)
  have dev: "link_step l b =
      (let l1 = l\<lparr>lk_buf := buf, lk_n := lk_n l + 1\<rparr> in
       if n = 0 then (None, l1)
       else if length buf < len + 3 then (None, l1\<lparr>lk_in_frame := False\<rparr>)
       else if Suc n < len + 3 then (None, l1)
       else (upd_frame_parse buf (lk_n l + 1), l1\<lparr>lk_in_frame := False\<rparr>))"
    unfolding link_step_def Let_def n_def [symmetric] buf_def [symmetric]
    using fr lt2 by (simp add: UPD_FRAME_OVERHEAD_def len_def [symmetric] buf_def [symmetric] n_def [symmetric] n1 del: buf_def)
  have host: "push (scanner_of l) b (lk_buf l) =
      (if n = 0 then (Frame, \<lparr>sc_n = 1, sc_in_frame = True\<rparr>, buf)
       else if length buf < len + 3 then (Dropped, \<lparr>sc_n = 0, sc_in_frame = False\<rparr>, buf)
       else if Suc n < len + 3 then (Frame, \<lparr>sc_n = Suc n, sc_in_frame = True\<rparr>, buf)
       else if is_ok (decode (take (len + 3) buf)) then (Done (len + 3), \<lparr>sc_n = 0, sc_in_frame = False\<rparr>, buf)
       else (Dropped, \<lparr>sc_n = 0, sc_in_frame = False\<rparr>, buf))"
  proof -
    have "252 < len \<Longrightarrow> length buf < len + 3" using le by simp
    moreover have "length (lk_buf l) = length buf" by (simp add: buf_def)
    moreover have "buf ! 1 = buf ! Suc 0" by simp
    moreover have "n = 0 \<Longrightarrow> (lk_buf l)[0 := b] = buf" by (simp add: buf_def)
    ultimately show ?thesis
      using push_in_frame [OF si, of b] unfolding sc
      by (simp add: Let_def buf_def [symmetric] len_def [symmetric] scanner_reset_def split: if_splits)
  qed
  show ?thesis
    unfolding dev host same_step_def Let_def
    using fr n1 parse dec
    by (cases "decode (take (len + 3) buf)") (simp_all add: scanner_of_def is_done_def)
qed

lemma link_step_same:
  "link_inv l \<Longrightarrow> same_step (link_step l b) (push (scanner_of l) b (lk_buf l))"
  using link_step_hunting link_step_in_frame by blast

lemma link_step_inv:
  assumes "link_inv l" and "link_step l b = (q, l')"
  shows "link_inv l'"
proof -
  obtain r sc' buf' where p: "push (scanner_of l) b (lk_buf l) = (r, sc', buf')"
    using prod_cases3 by blast
  have "lk_buf l' = buf'" "scanner_of l' = sc'"
    using link_step_same [OF assms(1), of b] by (simp_all add: same_step_def assms(2) p)
  with assms(1) push_inv [OF _ p] length_push [OF p] show ?thesis
    by (simp add: link_inv_def)
qed

text \<open>A whole poll: the receiver stops at the first \<open>Done\<close> of the scanner's run.\<close>

lemma link_poll_drains:
  assumes "link_inv l" and "feed (scanner_of l) bs (lk_buf l) = (rs, sc', buf')" and "\<forall>r \<in> set rs. \<not> is_done r"
  shows "\<exists>l'. link_poll l bs = (None, l', []) \<and> link_inv l' \<and> scanner_of l' = sc' \<and> lk_buf l' = buf'"
  using assms
proof (induction bs arbitrary: l rs)
  case (Cons b bs)
  obtain r sc1 buf1 where p: "push (scanner_of l) b (lk_buf l) = (r, sc1, buf1)"
    using prod_cases3 by blast
  obtain q l1 where st: "link_step l b = (q, l1)"
    using prod.exhaust by blast
  obtain rs1 where f: "feed sc1 bs buf1 = (rs1, sc', buf')" and rs: "rs = r # rs1"
    using Cons.prems(2) p by (auto split: prod.splits)
  have "lk_buf l1 = buf1" "scanner_of l1 = sc1" "q = None"
    using link_step_same [OF Cons.prems(1), of b] Cons.prems(3) rs by (auto simp: same_step_def st p)
  with Cons.IH [of l1 rs1] link_step_inv [OF Cons.prems(1) st] f Cons.prems(3) rs st show ?case
    by simp
qed simp

lemma link_poll_returns:
  assumes "link_inv l" and "feed (scanner_of l) bs (lk_buf l) = (rs @ [Done n], sc', buf')"
    and "\<forall>r \<in> set rs. \<not> is_done r"
  shows "\<exists>l' f. link_poll l (bs @ rest) = (Some \<lparr>uf_cmd = cmd f, uf_len = word_of_nat (length (payload f)),
            uf_payload = drop 2 buf'\<rparr>, l', rest)
        \<and> decode (take n buf') = Ok f \<and> n = length (payload f) + 3 \<and> link_inv l' \<and> scanner_of l' = sc' \<and> lk_buf l' = buf'"
  using assms
proof (induction bs arbitrary: l rs)
  case (Cons b bs)
  obtain r sc1 buf1 where p: "push (scanner_of l) b (lk_buf l) = (r, sc1, buf1)"
    using prod_cases3 by blast
  obtain q l1 where st: "link_step l b = (q, l1)"
    using prod.exhaust by blast
  obtain rs1 where f: "feed sc1 bs buf1 = (rs1, sc', buf')" and rs: "rs @ [Done n] = r # rs1"
    using Cons.prems(2) p by (auto split: prod.splits)
  note same = link_step_same [OF Cons.prems(1), of b, unfolded same_step_def st p prod.case]
  note inv = link_step_inv [OF Cons.prems(1) st]
  show ?case
  proof (cases rs)
    case Nil
    with rs have "r = Done n" "rs1 = []" by auto
    moreover from this f have "bs = []" using length_feed [OF f] by simp
    ultimately show ?thesis
      using same st f inv by auto
  next
    case (Cons x rs2)
    with rs have "r = x" "rs1 = rs2 @ [Done n]" by auto
    with Cons.IH [of l1 rs2] same st f inv Cons Cons.prems(3) show ?thesis
      by auto
  qed
qed simp

section \<open>Properties\<close>

text \<open>
  C39: the device's receiver and the host's scanner are one machine. Started on a buffer of
  at most 255 bytes and fed any byte sequence, \<open>link_poll\<close> runs dry exactly when the
  scanner over the same buffer reports no frame, and otherwise returns at the scanner's
  first \<open>Done\<close>, with the command and payload that the host's \<open>decode\<close> sees there and
  the later bytes untouched in the FIFO.
\<close>

theorem link_poll_is_scanner:
  assumes "length buf \<le> 255" and "feed scanner_new bs buf = (rs, sc', buf')"
  shows "((\<forall>r \<in> set rs. \<not> is_done r) \<longrightarrow> (\<exists>l'. link_poll (link_init buf) bs = (None, l', []))) \<and>
     (\<forall>pre n. rs = pre @ [Done n] \<longrightarrow> (\<forall>r \<in> set pre. \<not> is_done r) \<longrightarrow>
        (\<exists>l' f. link_poll (link_init buf) (bs @ rest) = (Some \<lparr>uf_cmd = cmd f, uf_len = word_of_nat (length (payload f)),
            uf_payload = drop 2 buf'\<rparr>, l', rest) \<and> decode (take n buf') = Ok f))"
proof -
  have init: "link_inv (link_init buf)" "scanner_of (link_init buf) = scanner_new" "lk_buf (link_init buf) = buf"
    using assms(1) by (simp_all, simp_all add: link_init_def scanner_of_def scanner_new_def)
  show ?thesis
    using link_poll_drains [OF init(1), of bs rs sc' buf'] link_poll_returns [OF init(1), of bs _ _ sc' buf' rest] assms(2)
    unfolding init(2,3) by blast
qed

theorem link_poll_is_scanner_witness:
  "\<exists>l' f. link_poll (link_init (replicate 8 0)) ([0] @ SYNC # wire 6 [0x7E] @ [1, 2]) =
     (Some \<lparr>uf_cmd = cmd f, uf_len = word_of_nat (length (payload f)), uf_payload = drop 2 (wire 6 [0x7E] @ replicate 4 0)\<rparr>, l', [1, 2])
     \<and> decode (take 4 (wire 6 [0x7E] @ replicate 4 0)) = Ok f"
proof -
  let ?pre = "replicate 1 Hunt @ replicate 4 Frame"
  have "feed scanner_new ([0] @ SYNC # wire 6 [0x7E]) (replicate 8 0) =
      (?pre @ [Done 4], scanner_new, wire 6 [0x7E] @ replicate 4 0)"
    using feed_found [of "[0]" "[0x7E]" "replicate 8 0" 6] by (simp add: SYNC_def)
  moreover have "\<forall>r \<in> set ?pre. \<not> is_done r"
    by (auto simp: is_done_def)
  ultimately show ?thesis
    using link_poll_is_scanner [of "replicate 8 0" "[0] @ SYNC # wire 6 [0x7E]" "?pre @ [Done 4]" scanner_new
        "wire 6 [0x7E] @ replicate 4 0" "[1, 2]"]
    by simp
qed

end
