(* ===== verification/Sim_Device.thy ===== *)
theory Sim_Device
  imports Device_Spec Link_Stream Polling
begin

text \<open>
  The simulated device of the conformance harness: \<^verbatim>\<open>conformance/sim/sim_port.c\<close>
  with its flash, power-cut injection and request cycles, and the Rust wrappers and
  loopback transports of \<^verbatim>\<open>conformance/src/lib.rs\<close>. \<open>abort()\<close> and a Rust
  panic both end the test process: they set the flag \<open>hw_aborted\<close>.
\<close>

section \<open>The port\<close>

definition SIM_PAGE_SIZE :: nat where "SIM_PAGE_SIZE = 128"

definition SIM_APP_PAGES :: nat where "SIM_APP_PAGES = 32"

definition SIM_REGION :: nat where "SIM_REGION = SIM_PAGE_SIZE * SIM_APP_PAGES"

record sim_hw =
  hw_flash :: bytes
  hw_ops :: u32
  hw_cut_at :: u32
  hw_cut_hit :: bool
  hw_dead :: bool
  hw_jumped :: bool
  hw_aborted :: bool

definition sim_port_info :: port_info where
  "sim_port_info = \<lparr>pi_page_size = word_of_nat SIM_PAGE_SIZE, pi_app_pages = word_of_nat SIM_APP_PAGES,
     pi_device_id = [0x53, 0x49, 0x4D, 0x30], pi_bl_version = 1\<rparr>"

definition op_tears :: "sim_hw \<Rightarrow> bool \<times> sim_hw" where
  "op_tears w =
     (let w = w\<lparr>hw_ops := hw_ops w + 1\<rparr> in
      if hw_cut_at w \<noteq> 0 \<and> hw_ops w = hw_cut_at w
      then (True, w\<lparr>hw_cut_hit := True, hw_dead := True\<rparr>)
      else (False, w))"

definition sim_erase_page :: "u16 \<Rightarrow> sim_hw \<Rightarrow> sim_hw" where
  "sim_erase_page page w =
     (if unat page \<ge> SIM_APP_PAGES then w\<lparr>hw_aborted := True\<rparr>
      else if hw_dead w then w
      else
        let at = unat page * SIM_PAGE_SIZE;
            (tears, w) = op_tears w
        in if tears then w\<lparr>hw_flash := put_at at (replicate (SIM_PAGE_SIZE div 2) 0xFF) (hw_flash w)\<rparr>
           else w\<lparr>hw_flash := put_at at (replicate SIM_PAGE_SIZE 0xFF) (hw_flash w)\<rparr>)"

definition sim_write_page :: "u16 \<Rightarrow> bytes \<Rightarrow> sim_hw \<Rightarrow> sim_hw" where
  "sim_write_page page data w =
     (if unat page \<ge> SIM_APP_PAGES then w\<lparr>hw_aborted := True\<rparr>
      else if hw_dead w then w
      else
        let at = unat page * SIM_PAGE_SIZE;
            (tears, w) = op_tears w
        in if tears then w\<lparr>hw_flash := put_at at (take (SIM_PAGE_SIZE div 2) data) (hw_flash w)\<rparr>
           else w\<lparr>hw_flash := put_at at (take SIM_PAGE_SIZE data) (hw_flash w)\<rparr>)"

definition sim_read_byte :: "u32 \<Rightarrow> sim_hw \<Rightarrow> u8 \<times> sim_hw" where
  "sim_read_byte off w =
     (if unat off \<ge> SIM_REGION then (0, w\<lparr>hw_aborted := True\<rparr>) else (hw_flash w ! unat off, w))"

definition sim_jump_to_app :: "sim_hw \<Rightarrow> sim_hw" where
  "sim_jump_to_app w = w\<lparr>hw_jumped := True\<rparr>"

definition sim_port :: "sim_hw port" where
  "sim_port = \<lparr>port_info_of = sim_port_info, port_flash_erase_page = sim_erase_page,
     port_flash_write_page = sim_write_page, port_flash_read_byte = sim_read_byte,
     port_jump_to_app = sim_jump_to_app\<rparr>"

section \<open>The request cycles\<close>

record sim =
  sim_hw :: sim_hw
  sim_session :: upd_session
  sim_link :: link

definition sim_reset :: "bool \<Rightarrow> sim \<Rightarrow> sim" where
  "sim_reset preserve_flash s =
     \<lparr>sim_hw = \<lparr>hw_flash = (if preserve_flash then hw_flash (sim_hw s) else replicate SIM_REGION 0xFF),
        hw_ops = 0, hw_cut_at = 0, hw_cut_hit = False, hw_dead = False, hw_jumped = False,
        hw_aborted = hw_aborted (sim_hw s)\<rparr>,
      sim_session = upd_init sim_port, sim_link = link_init (lk_buf (sim_link s))\<rparr>"

definition sim_powercut_after :: "u32 \<Rightarrow> sim \<Rightarrow> sim" where
  "sim_powercut_after flash_ops s =
     s\<lparr>sim_hw := (sim_hw s)\<lparr>hw_cut_at := (if flash_ops = 0 then 0 else hw_ops (sim_hw s) + flash_ops)\<rparr>\<rparr>"

text \<open>The BOOT ordering at the end of a cycle: clear the flag, then take the gate.\<close>

definition take_gate :: "sim \<Rightarrow> sim" where
  "take_gate s =
     (if us_boot_pending (sim_session s) then
        let ses = (sim_session s)\<lparr>us_boot_pending := False\<rparr>;
            (_, w) = upd_boot_if_valid sim_port (us_info ses) (sim_hw s)
        in s\<lparr>sim_session := ses, sim_hw := w\<rparr>
      else s)"

text \<open>
  The local buffers of C are not initialised; only bytes that were written are read, so
  zeros stand for their contents. \<open>resp\<close> is the caller's buffer.
\<close>

definition sim_request :: "bytes \<Rightarrow> u16 \<Rightarrow> bytes \<Rightarrow> sim \<Rightarrow> u16 \<times> bytes \<times> sim" where
  "sim_request fr len resp s =
     (if hw_dead (sim_hw s) \<or> hw_jumped (sim_hw s) then (0, resp, s)
      else
        let (c, pl, plen, s) =
          (case (if len \<le> 255 then upd_frame_parse fr (ucast len) else None) of
             Some req \<Rightarrow>
               let (plen, pl, ses, w) = upd_handle sim_port (sim_session s) req (replicate 252 0) 252 (sim_hw s)
               in (uf_cmd req, pl, plen, s\<lparr>sim_session := ses, sim_hw := w\<rparr>)
           | None \<Rightarrow>
               (if len \<ge> 1 then fr ! 0 else 0, put_at 0 [ST_BAD_FRAME] (replicate 252 0), 1, s));
            (n, resp) = upd_frame_build resp 255 (c OR RSP_FLAG) pl plen
        in if hw_dead (sim_hw s) then (0, resp, s) else (ucast n, resp, take_gate s))"

text \<open>\<open>stream_put\<close> for every byte of a reply, with the cap of the caller's buffer.\<close>

definition stream_put_all :: "nat \<Rightarrow> bytes \<Rightarrow> bytes \<Rightarrow> sim \<Rightarrow> bytes \<times> sim" where
  "stream_put_all cap bs out s =
     (if length out + length bs > cap
      then (out @ take (cap - length out) bs, s\<lparr>sim_hw := (sim_hw s)\<lparr>hw_aborted := True\<rparr>\<rparr>)
      else (out @ bs, s))"

function stream_loop :: "nat \<Rightarrow> bytes \<Rightarrow> bytes \<Rightarrow> sim \<Rightarrow> bytes \<times> sim" where
  "stream_loop cap fifo out s =
     (case link_poll (sim_link s) fifo of
        (None, l, _) \<Rightarrow> (out, s\<lparr>sim_link := l\<rparr>)
      | (Some req, l, rest) \<Rightarrow>
          let (plen, pl, ses, w) = upd_handle sim_port (sim_session s) req (replicate 252 0) 252 (sim_hw s);
              s = s\<lparr>sim_link := l, sim_session := ses, sim_hw := w\<rparr>;
              (n, fr) = upd_frame_build (replicate 255 0) 255 (uf_cmd req OR RSP_FLAG) pl plen
          in if hw_dead (sim_hw s) then (out, s)
             else
               let (out, s) = stream_put_all cap (link_send fr n) out s;
                   gated = us_boot_pending (sim_session s);
                   s = take_gate s
               in if gated \<and> hw_jumped (sim_hw s) then (out, s) else stream_loop cap rest out s)"
  by pat_completeness auto
termination
  by (relation "measure (\<lambda>(cap, fifo, out, s). length fifo)") (auto dest: length_link_poll [OF sym])

declare stream_loop.simps [simp del]

definition sim_request_stream :: "bytes \<Rightarrow> nat \<Rightarrow> sim \<Rightarrow> bytes \<times> sim" where
  "sim_request_stream bs cap s =
     (if hw_dead (sim_hw s) \<or> hw_jumped (sim_hw s) then ([], s) else stream_loop cap bs [] s)"

section \<open>The Rust wrappers\<close>

definition RESP_CAP :: nat where "RESP_CAP = 259"

definition STREAM_RESP_CAP :: nat where "STREAM_RESP_CAP = 512"

definition sim_abort :: "sim \<Rightarrow> sim" where
  "sim_abort s = s\<lparr>sim_hw := (sim_hw s)\<lparr>hw_aborted := True\<rparr>\<rparr>"

definition sim_acquire :: "sim \<Rightarrow> sim" where
  "sim_acquire s = sim_reset False s"

definition sim_rust_request :: "bytes \<Rightarrow> sim \<Rightarrow> bytes \<times> sim" where
  "sim_rust_request fr s =
     (let resp = replicate RESP_CAP 0 in
      case u16_try_from (length fr) of
        None \<Rightarrow> ([], sim_abort s)
      | Some len \<Rightarrow> let (n, resp, s) = sim_request fr len resp s in (take (unat n) resp, s))"

definition flash_snapshot :: "sim \<Rightarrow> bytes" where
  "flash_snapshot s = take SIM_REGION (hw_flash (sim_hw s))"

definition flash_xor :: "nat \<Rightarrow> u8 \<Rightarrow> sim \<Rightarrow> sim" where
  "flash_xor offset m s =
     (if \<not> offset < SIM_REGION then sim_abort s
      else let f = hw_flash (sim_hw s) in
           s\<lparr>sim_hw := (sim_hw s)\<lparr>hw_flash := f[offset := f ! offset XOR m]\<rparr>\<rparr>)"

definition sim_rust_request_stream :: "bytes \<Rightarrow> sim \<Rightarrow> bytes \<times> sim" where
  "sim_rust_request_stream bs s =
     (case u16_try_from (length bs) of
        None \<Rightarrow> ([], sim_abort s)
      | Some _ \<Rightarrow> sim_request_stream bs STREAM_RESP_CAP s)"

definition sim_transport_request :: "(sim, 'e) request_fn" where
  "sim_transport_request s req rsp =
     (let (raw, s) = sim_rust_request req s;
          n = min (length raw) (length rsp)
      in (Ok (length rsp), s, take n raw @ replicate (length rsp - n) 0xFF))"

datatype stream_error = StreamError

record sim_stream =
  st_sim :: sim
  st_lag :: nat

fun lag_pushes :: "nat \<Rightarrow> rx_scanner \<Rightarrow> bytes \<Rightarrow> rx_scanner \<times> bytes" where
  "lag_pushes 0 sc rsp = (sc, rsp)"
| "lag_pushes (Suc k) sc rsp = (let (_, sc, rsp) = push sc 0 rsp in lag_pushes k sc rsp)"

fun stream_scan :: "bytes \<Rightarrow> rx_scanner \<Rightarrow> bytes \<Rightarrow> (stream_error + usize) \<times> bytes" where
  "stream_scan [] sc rsp = (Err StreamError, rsp)"
| "stream_scan (b # raw) sc rsp =
     (case push sc b rsp of
        (Done len, _, rsp) \<Rightarrow> (Ok len, rsp)
      | (_, sc, rsp) \<Rightarrow> stream_scan raw sc rsp)"

definition sim_stream_request :: "(sim_stream, stream_error) request_fn" where
  "sim_stream_request t req rsp =
     (let tx = SYNC # req;
          (raw, s) = sim_rust_request_stream tx (st_sim t);
          (sc, rsp) = lag_pushes (st_lag t) scanner_new rsp;
          (r, rsp) = stream_scan raw sc rsp
      in (r, t\<lparr>st_sim := s\<rparr>, rsp))"

section \<open>The port honours the contract\<close>

definition healthy :: "sim_hw \<Rightarrow> bool" where
  "healthy w \<longleftrightarrow> \<not> hw_dead w \<and> \<not> hw_jumped w \<and> \<not> hw_aborted w \<and> hw_cut_at w = 0 \<and> length (hw_flash w) = 4096"

lemma sim_consts [simp]: "SIM_PAGE_SIZE = 128" "SIM_APP_PAGES = 32" "SIM_REGION = 4096"
  by (simp_all add: SIM_PAGE_SIZE_def SIM_APP_PAGES_def SIM_REGION_def)

interpretation sim_flash: flash_port sim_port healthy hw_flash 128 32
proof unfold_locales
  fix w :: sim_hw and p :: u16 and data :: bytes
  assume w: "healthy w" and p: "unat p < 32"
  then have "unat p * 128 + 128 \<le> length (hw_flash w)"
    using page_bound [OF p, of 128] by (simp add: healthy_def)
  then show "healthy (port_flash_erase_page sim_port p w) \<and>
      hw_flash (port_flash_erase_page sim_port p w) = put_at (unat p * 128) (replicate 128 255) (hw_flash w)"
    and "128 \<le> length data \<Longrightarrow> healthy (port_flash_write_page sim_port p data w) \<and>
      hw_flash (port_flash_write_page sim_port p data w) = put_at (unat p * 128) (take 128 data) (hw_flash w)"
    using w p by (simp_all add: sim_port_def sim_erase_page_def sim_write_page_def op_tears_def healthy_def Let_def)
qed (simp_all add: sim_port_def sim_port_info_def healthy_def sim_read_byte_def sim_jump_to_app_def)

section \<open>A request cycle is a step of the abstract device\<close>

definition sim_up :: "sim \<Rightarrow> bool" where
  "sim_up s \<longleftrightarrow> healthy (sim_hw s) \<and> us_info (sim_session s) = sim_port_info
     \<and> \<not> us_boot_pending (sim_session s)"

definition sim_dev :: "sim \<Rightarrow> device" where
  "sim_dev s = \<lparr>dev_flash = hw_flash (sim_hw s), dev_erased = us_erased (sim_session s)\<rparr>"

lemma sim_port_simps [simp]: "port_info_of sim_port = sim_port_info"
  by (simp add: sim_port_def)

lemma sim_handle:
  assumes "sim_up s" and "length pl \<le> 252" and "dev_step sim_port_info (sim_dev s) c pl = (out, d')"
  shows "\<exists>rsp' ses w. upd_handle sim_port (sim_session s)
       \<lparr>uf_cmd = c, uf_len = word_of_nat (length pl), uf_payload = pl @ junk\<rparr> (replicate 252 0) 252 (sim_hw s)
       = (word_of_nat (length out), rsp', ses, w)
     \<and> rsp' = out @ drop (length out) rsp' \<and> 1 \<le> length out \<and> length out \<le> 17 \<and> healthy w
     \<and> hw_flash w = dev_flash d' \<and> us_erased ses = dev_erased d' \<and> us_info ses = sim_port_info
     \<and> us_boot_pending ses = (c = CMD_BOOT \<and> region_valid (hw_flash (sim_hw s)))"
proof -
  obtain n rsp' ses w where h: "upd_handle sim_port (sim_session s)
      \<lparr>uf_cmd = c, uf_len = word_of_nat (length pl), uf_payload = pl @ junk\<rparr> (replicate 252 0) 252 (sim_hw s) = (n, rsp', ses, w)"
    by (metis prod_cases4)
  have "sim_flash.ready (sim_session s) pl (replicate 252 0) 252 (sim_hw s)"
    using assms by (simp add: sim_flash.ready_def sim_up_def)
  from sim_flash.handle_refines [OF this, of c junk]
  have r: "take (unat n) rsp' = out" "1 \<le> length out" "length out \<le> 17" "unat n = length out" "healthy w"
    "hw_flash w = dev_flash d'" "us_erased ses = dev_erased d'" "us_info ses = us_info (sim_session s)"
    "us_boot_pending ses = (us_boot_pending (sim_session s) \<or> (c = CMD_BOOT \<and> region_valid (hw_flash (sim_hw s))))"
    using assms(3) unfolding h sim_flash.refines_def sim_flash.abs_dev_def sim_dev_def by auto
  have "n = word_of_nat (length out)"
    using r(4) by (metis unat_word_of_nat_u8 word_unat_eq_iff unat_u8_lt)
  moreover have "rsp' = out @ drop (length out) rsp'"
    using r(1,4) by (metis append_take_drop_id)
  ultimately show ?thesis
    using h r assms(1) by (simp add: sim_up_def)
qed

lemma take_gate_idle: "\<not> us_boot_pending (sim_session s) \<Longrightarrow> take_gate s = s"
  by (simp add: take_gate_def)

lemma take_gate_fires:
  assumes "us_boot_pending (sim_session s)" and "healthy (sim_hw s)" and "us_info (sim_session s) = sim_port_info"
  shows "take_gate s = s\<lparr>sim_session := (sim_session s)\<lparr>us_boot_pending := False\<rparr>,
     sim_hw := (if region_valid (hw_flash (sim_hw s)) then sim_jump_to_app (sim_hw s) else sim_hw s)\<rparr>"
  using assms sim_flash.app_valid_eq [OF assms(2)]
  by (simp add: take_gate_def upd_boot_if_valid_def Let_def sim_port_def)

text \<open>What the gate leaves: a jump exactly when it was asked for and the region passes.\<close>

lemma after_gate:
  assumes "healthy (sim_hw s)" and "us_info (sim_session s) = sim_port_info"
  shows "sim_dev (take_gate s) = sim_dev s \<and> sim_link (take_gate s) = sim_link s
     \<and> us_info (sim_session (take_gate s)) = sim_port_info \<and> \<not> us_boot_pending (sim_session (take_gate s))
     \<and> (if us_boot_pending (sim_session s) \<and> region_valid (hw_flash (sim_hw s))
        then hw_jumped (sim_hw (take_gate s)) \<and> \<not> hw_aborted (sim_hw (take_gate s)) else sim_up (take_gate s))"
proof (cases "us_boot_pending (sim_session s)")
  case True
  then show ?thesis
    using take_gate_fires [OF True assms] assms by (auto simp: sim_dev_def sim_up_def healthy_def sim_jump_to_app_def)
next
  case False
  then show ?thesis
    using take_gate_idle [of s] assms by (simp add: sim_up_def)
qed

lemma dev_step_boot: "dev_step i d CMD_BOOT pl = ([if region_valid (dev_flash d) then ST_OK else ST_NO_APP], d)"
  by (simp add: dev_step_def CMD_INFO_def CMD_ERASE_APP_def CMD_WRITE_PAGE_def CMD_VERIFY_def CMD_BOOT_def)

lemma drop_2_wire:
  "drop 2 (wire c pl) = pl @ [foldl crc8_step (crc8_step (crc8_step 0 c) (word_of_nat (length pl))) pl]"
  by (simp add: wire_crc numeral_2_eq_2)

lemma parse_wire:
  assumes "length pl \<le> 252"
  shows "upd_frame_parse (wire c pl) (word_of_nat (length pl + 3)) =
     Some \<lparr>uf_cmd = c, uf_len = word_of_nat (length pl),
       uf_payload = pl @ [foldl crc8_step (crc8_step (crc8_step 0 c) (word_of_nat (length pl))) pl]\<rparr>"
  using assms upd_frame_parse_decode [of "length pl + 3" "wire c pl"]
  by (simp add: drop_2_wire del: of_nat_add)

text \<open>The cycle around the handler: parse, handle, answer unless the power went, take the gate.\<close>

lemma sim_request_plumb:
  assumes alive: "\<not> hw_dead (sim_hw s)" "\<not> hw_jumped (sim_hw s)" and pl: "length pl \<le> 252"
    and h: "upd_handle sim_port (sim_session s) \<lparr>uf_cmd = c, uf_len = word_of_nat (length pl),
        uf_payload = pl @ [foldl crc8_step (crc8_step (crc8_step 0 c) (word_of_nat (length pl))) pl]\<rparr>
       (replicate 252 0) 252 (sim_hw s) = (word_of_nat (length out), rsp', ses, w)"
    and out: "rsp' = out @ drop (length out) rsp'" "1 \<le> length out" "length out \<le> 17"
  shows "sim_rust_request (wire c pl) s =
     (let s1 = s\<lparr>sim_session := ses, sim_hw := w\<rparr>
      in if hw_dead w then ([], s1) else (wire (c OR RSP_FLAG) out, take_gate s1))"
proof -
  let ?len = "word_of_nat (length pl + 3) :: u16"
  have unat_len: "unat ?len = length pl + 3"
    using pl by (simp only: unat_of_nat) simp
  have len: "?len \<le> 255" "ucast ?len = (word_of_nat (length pl + 3) :: u8)"
    using pl unat_len
    by (simp_all add: word_le_nat_alt word_unat_eq_iff unsigned_ucast_eq unat_of_nat take_bit_eq_mod del: of_nat_add)
  have build: "upd_frame_build (replicate 259 0) 255 (c OR RSP_FLAG) rsp' (word_of_nat (length out)) =
      (word_of_nat (length out + 3), wire (c OR RSP_FLAG) out @ drop (length out + 3) (replicate 259 0))"
    by (rule upd_frame_build_wire [OF _ _ _ out(1)]) (use out in simp_all)
  have n: "unat (ucast (word_of_nat (length out + 3) :: u8) :: u16) = length out + 3"
    using out(3) by (simp add: unsigned_ucast_eq take_bit_nat_eq_self unat_of_nat del: of_nat_add)
  show ?thesis
    using alive pl h build n
    by (simp add: sim_rust_request_def sim_request_def len parse_wire RESP_CAP_def Let_def del: of_nat_add)
qed

lemma sim_cycle:
  assumes up: "sim_up s" and pl: "length pl \<le> 252" and step: "dev_step sim_port_info (sim_dev s) c pl = (out, d')"
  shows "\<exists>s'. sim_rust_request (wire c pl) s = (wire (c OR RSP_FLAG) out, s') \<and> sim_dev s' = d' \<and> 1 \<le> length out \<and> length out \<le> 17
     \<and> us_info (sim_session s') = sim_port_info \<and> \<not> us_boot_pending (sim_session s') \<and> sim_link s' = sim_link s
     \<and> (if c = CMD_BOOT \<and> region_valid (hw_flash (sim_hw s))
        then hw_jumped (sim_hw s') \<and> \<not> hw_aborted (sim_hw s') else healthy (sim_hw s'))"
proof -
  let ?junk = "[foldl crc8_step (crc8_step (crc8_step 0 c) (word_of_nat (length pl))) pl]"
  obtain rsp' ses w where h: "upd_handle sim_port (sim_session s)
       \<lparr>uf_cmd = c, uf_len = word_of_nat (length pl), uf_payload = pl @ ?junk\<rparr> (replicate 252 0) 252 (sim_hw s)
       = (word_of_nat (length out), rsp', ses, w)"
    and out: "rsp' = out @ drop (length out) rsp'" "1 \<le> length out" "length out \<le> 17"
    and w: "healthy w" "hw_flash w = dev_flash d'" "us_erased ses = dev_erased d'" "us_info ses = sim_port_info"
      "us_boot_pending ses = (c = CMD_BOOT \<and> region_valid (hw_flash (sim_hw s)))"
    using sim_handle [OF up pl step, of ?junk] by blast
  define s1 where "s1 = s\<lparr>sim_session := ses, sim_hw := w\<rparr>"
  have req: "sim_rust_request (wire c pl) s = (wire (c OR RSP_FLAG) out, take_gate s1)"
    using sim_request_plumb [OF _ _ pl h out] up w(1) by (simp add: sim_up_def healthy_def s1_def Let_def)
  have s1: "healthy (sim_hw s1)" "us_info (sim_session s1) = sim_port_info" "sim_link s1 = sim_link s"
    "sim_dev s1 = d'" "us_boot_pending (sim_session s1) = us_boot_pending ses"
    using w by (simp_all add: s1_def sim_dev_def)
  have "c = CMD_BOOT \<Longrightarrow> hw_flash (sim_hw s1) = hw_flash (sim_hw s)"
    using step s1(4) by (auto simp: dev_step_boot sim_dev_def)
  with req after_gate [OF s1(1,2)] s1(3-5) w(5) out(2,3) show ?thesis
    by (auto simp: sim_up_def)
qed

text \<open>What the host reads of an answer, and of silence.\<close>

lemma sim_transport_answers:
  assumes "sim_rust_request req s = (wire c out, s')" and "length out + 3 \<le> length rsp" and "length out \<le> 252"
  shows "\<exists>rsp'. sim_transport_request s req rsp = (Ok (length rsp) :: 'e + usize, s', rsp') \<and> length rsp' = length rsp
     \<and> decode_padded rsp' = Ok \<lparr>cmd = c, payload = out\<rparr>"
  using assms by (simp add: sim_transport_request_def Let_def min_def)

lemma sim_transport_silent:
  "sim_rust_request req s = ([], s') \<Longrightarrow> sim_transport_request s req rsp = (Ok (length rsp), s', replicate (length rsp) 0xFF)"
  by (simp add: sim_transport_request_def)

lemma sim_request_serves:
  assumes "sim_up s" and "length pl \<le> 252" and "dev_step sim_port_info (sim_dev s) c pl = (out, d')"
    and "length out + 3 \<le> length rsp" and "c \<noteq> CMD_BOOT"
  shows "\<exists>n s' rsp'. sim_transport_request s (wire c pl) rsp = (Ok n :: 'e + usize, s', rsp') \<and> n \<le> length rsp'
     \<and> decode_padded (take n rsp') = Ok \<lparr>cmd = c OR RSP_FLAG, payload = out\<rparr> \<and> sim_up s' \<and> sim_dev s' = d'"
proof -
  obtain s' where s': "sim_rust_request (wire c pl) s = (wire (c OR RSP_FLAG) out, s')" "sim_dev s' = d'"
    "1 \<le> length out" "length out \<le> 17" "us_info (sim_session s') = sim_port_info"
    "\<not> us_boot_pending (sim_session s')" "healthy (sim_hw s')"
    using sim_cycle [OF assms(1-3)] assms(5) by auto
  from sim_transport_answers [OF s'(1), of rsp] s'(4) assms(4) obtain rsp' where
    "sim_transport_request s (wire c pl) rsp = (Ok (length rsp) :: 'e + usize, s', rsp')" "length rsp' = length rsp"
    "decode_padded rsp' = Ok \<lparr>cmd = c OR RSP_FLAG, payload = out\<rparr>"
    by auto
  with s' show ?thesis
    by (auto simp: sim_up_def)
qed

interpretation sim_transport: transport sim_transport_request
  by unfold_locales (auto simp: sim_transport_request_def Let_def min_def split: prod.splits)

section \<open>The same over the byte stream\<close>

definition link_idle :: "link \<Rightarrow> bool" where
  "link_idle l \<longleftrightarrow> link_inv l \<and> \<not> lk_in_frame l \<and> length (lk_buf l) = 255"

lemma link_poll_wire:
  assumes "link_idle l" and "length pl \<le> 252"
  shows "\<exists>l' junk. link_poll l (SYNC # wire c pl) =
     (Some \<lparr>uf_cmd = c, uf_len = word_of_nat (length pl), uf_payload = pl @ junk\<rparr>, l', []) \<and> link_idle l'"
proof -
  let ?buf' = "wire c pl @ drop (length pl + 3) (lk_buf l)" and ?rs = "replicate (length pl + 3) Frame"
  have sc: "scanner_of l = scanner_new" and inv: "link_inv l" and len: "length (lk_buf l) = 255"
    using assms(1) by (simp_all add: link_idle_def scanner_of_def scanner_new_def)
  have "feed (scanner_of l) (SYNC # wire c pl) (lk_buf l) = (?rs @ [Done (length pl + 3)], scanner_new, ?buf')"
    using feed_found [of "[]" pl "lk_buf l" c] assms(2) len sc by simp
  moreover have "\<forall>r \<in> set ?rs. \<not> is_done r"
    by (simp add: is_done_def)
  ultimately obtain l' f where l': "link_poll l (SYNC # wire c pl) = (Some \<lparr>uf_cmd = cmd f,
      uf_len = word_of_nat (length (payload f)), uf_payload = drop 2 ?buf'\<rparr>, l', [])"
    "decode (take (length pl + 3) ?buf') = Ok f" "link_inv l'" "scanner_of l' = scanner_new" "lk_buf l' = ?buf'"
    using link_poll_returns [OF inv, where rest = "[]"] by (metis append_Nil2)
  have "f = \<lparr>cmd = c, payload = pl\<rparr>"
    using l'(2) assms(2) by simp
  moreover have "link_idle l'"
    using l'(3-5) len assms(2) by (simp add: link_idle_def scanner_of_def scanner_new_def split: if_splits)
  moreover have "drop 2 ?buf' = pl @ drop (length pl) (drop 2 ?buf')"
  proof -
    have "take (length pl) (drop 2 ?buf') = pl"
      by (simp add: drop_2_wire)
    then show ?thesis by (metis append_take_drop_id)
  qed
  ultimately show ?thesis
    using l'(1) by auto
qed

text \<open>
  What a cycle of the device depends on beside its link, and the handler on a request of it:
  the payload it leaves in the buffer; \<open>handled\<close> is the case that does not ask for the jump.
  What follows the payload in the device's buffer is \<open>junk\<close>.
\<close>

definition core_of :: "sim \<Rightarrow> upd_session \<times> sim_hw" where
  "core_of s = (sim_session s, sim_hw s)"

definition answered :: "upd_session \<times> sim_hw \<Rightarrow> u8 \<Rightarrow> bytes \<Rightarrow> bytes \<Rightarrow> bytes \<Rightarrow> upd_session \<times> sim_hw \<Rightarrow> bool" where
  "answered x c pl junk out y \<longleftrightarrow>
     (\<exists>rest. upd_handle sim_port (fst x) \<lparr>uf_cmd = c, uf_len = word_of_nat (length pl), uf_payload = pl @ junk\<rparr>
        (replicate 252 0) 252 (snd x) = (word_of_nat (length out), out @ rest, y))
     \<and> 1 \<le> length out \<and> length out \<le> 17"

definition handled :: "upd_session \<times> sim_hw \<Rightarrow> u8 \<Rightarrow> bytes \<Rightarrow> bytes \<Rightarrow> bytes \<Rightarrow> upd_session \<times> sim_hw \<Rightarrow> bool" where
  "handled x c pl junk out y \<longleftrightarrow> answered x c pl junk out y \<and> \<not> us_boot_pending (fst y)"

lemmas handled_iff = handled_def answered_def

text \<open>The cycle around the handler over the byte stream: answer unless the power went, take the gate.\<close>

lemma sim_stream_gate:
  assumes alive: "\<not> hw_dead (sim_hw s)" "\<not> hw_jumped (sim_hw s)" and idle: "link_idle (sim_link s)" and pl: "length pl \<le> 252"
  shows "\<exists>l' junk. link_idle l' \<and> (\<forall>out ses w. answered (core_of s) c pl junk out (ses, w) \<longrightarrow>
       sim_rust_request_stream (SYNC # wire c pl) s =
         (let s1 = s\<lparr>sim_link := l', sim_session := ses, sim_hw := w\<rparr>
          in if hw_dead w then ([], s1) else (SYNC # wire (c OR RSP_FLAG) out, take_gate s1)))"
proof -
  obtain l' junk where lp: "link_poll (sim_link s) (SYNC # wire c pl) =
      (Some \<lparr>uf_cmd = c, uf_len = word_of_nat (length pl), uf_payload = pl @ junk\<rparr>, l', [])" and idle': "link_idle l'"
    using link_poll_wire [OF idle pl] by blast
  show ?thesis
  proof (intro exI conjI allI impI)
    fix out ses w
    assume "answered (core_of s) c pl junk out (ses, w)"
    then obtain rest where h: "upd_handle sim_port (sim_session s) \<lparr>uf_cmd = c, uf_len = word_of_nat (length pl), uf_payload = pl @ junk\<rparr>
         (replicate 252 0) 252 (sim_hw s) = (word_of_nat (length out), out @ rest, ses, w)"
      and out: "1 \<le> length out" "length out \<le> 17"
      by (auto simp: answered_def core_of_def)
    define s1 where "s1 = s\<lparr>sim_link := l', sim_session := ses, sim_hw := w\<rparr>"
    have build: "upd_frame_build (replicate 255 0) 255 (c OR RSP_FLAG) (out @ rest) (word_of_nat (length out)) =
        (word_of_nat (length out + 3), wire (c OR RSP_FLAG) out @ drop (length out + 3) (replicate 255 0))"
      by (rule upd_frame_build_wire [where junk = rest]) (use out in simp_all)
    have n: "unat (word_of_nat (length out + 3) :: u8) = length out + 3"
      using out(2) by (simp add: unat_of_nat del: of_nat_add)
    have send: "link_send (wire (c OR RSP_FLAG) out @ more) (word_of_nat (length out + 3)) = SYNC # wire (c OR RSP_FLAG) out" for more
      by (simp add: link_send_def n UPD_LINK_SYNC_def SYNC_def del: of_nat_add)
    have fin: "stream_loop 512 [] os (take_gate s1) = (os, take_gate s1)" for os
      by (subst stream_loop.simps) simp
    have "stream_loop 512 (SYNC # wire c pl) [] s =
        (if hw_dead w then ([], s1) else (SYNC # wire (c OR RSP_FLAG) out, take_gate s1))"
      using out(2) fin
      by (subst stream_loop.simps)
        (simp add: lp h build send stream_put_all_def s1_def [symmetric] Let_def del: of_nat_add link_poll.simps)
    then show "sim_rust_request_stream (SYNC # wire c pl) s =
        (let s1 = s\<lparr>sim_link := l', sim_session := ses, sim_hw := w\<rparr>
         in if hw_dead w then ([], s1) else (SYNC # wire (c OR RSP_FLAG) out, take_gate s1))"
      using alive pl by (simp add: sim_rust_request_stream_def sim_request_stream_def STREAM_RESP_CAP_def s1_def)
  qed (rule idle')
qed

lemma sim_stream_plumb:
  assumes alive: "\<not> hw_dead (sim_hw s)" "\<not> hw_jumped (sim_hw s)" and idle: "link_idle (sim_link s)" and pl: "length pl \<le> 252"
  shows "\<exists>l' junk. link_idle l' \<and> (\<forall>out ses w. handled (core_of s) c pl junk out (ses, w) \<longrightarrow>
       sim_rust_request_stream (SYNC # wire c pl) s =
         (if hw_dead w then [] else SYNC # wire (c OR RSP_FLAG) out, s\<lparr>sim_link := l', sim_session := ses, sim_hw := w\<rparr>))"
proof -
  from sim_stream_gate [OF assms, of c] obtain l' junk where idle': "link_idle l'"
    and gate: "\<forall>out ses w. answered (core_of s) c pl junk out (ses, w) \<longrightarrow> sim_rust_request_stream (SYNC # wire c pl) s =
         (let s1 = s\<lparr>sim_link := l', sim_session := ses, sim_hw := w\<rparr>
          in if hw_dead w then ([], s1) else (SYNC # wire (c OR RSP_FLAG) out, take_gate s1))"
    by (elim exE conjE)
  have "sim_rust_request_stream (SYNC # wire c pl) s =
      (if hw_dead w then [] else SYNC # wire (c OR RSP_FLAG) out, s\<lparr>sim_link := l', sim_session := ses, sim_hw := w\<rparr>)"
    if "handled (core_of s) c pl junk out (ses, w)" for out ses w
    using that gate by (auto simp: handled_def take_gate_idle Let_def)
  with idle' show ?thesis
    by blast
qed

lemma sim_stream_cycle_boot:
  assumes up: "sim_up s" and idle: "link_idle (sim_link s)" and pl: "length pl \<le> 252"
    and step: "dev_step sim_port_info (sim_dev s) c pl = (out, d')"
  shows "\<exists>s'. sim_rust_request_stream (SYNC # wire c pl) s = (SYNC # wire (c OR RSP_FLAG) out, s') \<and> sim_dev s' = d'
     \<and> link_idle (sim_link s') \<and> 1 \<le> length out \<and> length out \<le> 17
     \<and> (if c = CMD_BOOT \<and> region_valid (hw_flash (sim_hw s))
        then hw_jumped (sim_hw s') \<and> \<not> hw_aborted (sim_hw s') else sim_up s')"
proof -
  have alive: "\<not> hw_dead (sim_hw s)" "\<not> hw_jumped (sim_hw s)"
    using up by (simp_all add: sim_up_def healthy_def)
  from sim_stream_gate [OF alive idle pl, of c] obtain l' junk where idle': "link_idle l'"
    and plumb: "\<forall>out ses w. answered (core_of s) c pl junk out (ses, w) \<longrightarrow> sim_rust_request_stream (SYNC # wire c pl) s =
         (let s1 = s\<lparr>sim_link := l', sim_session := ses, sim_hw := w\<rparr>
          in if hw_dead w then ([], s1) else (SYNC # wire (c OR RSP_FLAG) out, take_gate s1))"
    by (elim exE conjE)
  obtain rsp' ses w where h: "upd_handle sim_port (sim_session s)
       \<lparr>uf_cmd = c, uf_len = word_of_nat (length pl), uf_payload = pl @ junk\<rparr> (replicate 252 0) 252 (sim_hw s)
       = (word_of_nat (length out), rsp', ses, w)"
    and out: "rsp' = out @ drop (length out) rsp'" "1 \<le> length out" "length out \<le> 17"
    and w: "healthy w" "hw_flash w = dev_flash d'" "us_erased ses = dev_erased d'" "us_info ses = sim_port_info"
      "us_boot_pending ses = (c = CMD_BOOT \<and> region_valid (hw_flash (sim_hw s)))"
    using sim_handle [OF up pl step, of junk] by blast
  define s1 where "s1 = s\<lparr>sim_link := l', sim_session := ses, sim_hw := w\<rparr>"
  have "answered (core_of s) c pl junk out (ses, w)"
    unfolding answered_def core_of_def fst_conv snd_conv h using out by blast
  with plumb have "sim_rust_request_stream (SYNC # wire c pl) s =
      (let s1 = s\<lparr>sim_link := l', sim_session := ses, sim_hw := w\<rparr>
       in if hw_dead w then ([], s1) else (SYNC # wire (c OR RSP_FLAG) out, take_gate s1))"
    by (elim allE impE)
  then have req: "sim_rust_request_stream (SYNC # wire c pl) s = (SYNC # wire (c OR RSP_FLAG) out, take_gate s1)"
    using w(1) by (simp add: s1_def healthy_def Let_def)
  have s1: "healthy (sim_hw s1)" "us_info (sim_session s1) = sim_port_info" "sim_link s1 = l'"
    "sim_dev s1 = d'" "us_boot_pending (sim_session s1) = us_boot_pending ses"
    using w by (simp_all add: s1_def sim_dev_def)
  have "c = CMD_BOOT \<Longrightarrow> hw_flash (sim_hw s1) = hw_flash (sim_hw s)"
    using step s1(4) by (auto simp: dev_step_boot sim_dev_def)
  with req after_gate [OF s1(1,2)] s1(3-5) w(5) out(2,3) idle' show ?thesis
    by auto
qed

lemma sim_stream_cycle:
  assumes up: "sim_up s" and idle: "link_idle (sim_link s)" and pl: "length pl \<le> 252"
    and step: "dev_step sim_port_info (sim_dev s) c pl = (out, d')" and c: "c \<noteq> CMD_BOOT"
  shows "\<exists>s'. sim_rust_request_stream (SYNC # wire c pl) s = (SYNC # wire (c OR RSP_FLAG) out, s') \<and> sim_dev s' = d'
     \<and> sim_up s' \<and> link_idle (sim_link s') \<and> 1 \<le> length out \<and> length out \<le> 17"
  using sim_stream_cycle_boot [OF up idle pl step] c by auto

lemma lag_pushes_hunt: "lag_pushes k scanner_new rsp = (scanner_new, rsp)"
  by (induction k) (simp_all add: push_hunting scanner_new_def SYNC_def)

lemma stream_scan_feed:
  assumes "feed sc bs rsp = (rs @ [Done n], sc', rsp')" and "\<forall>r \<in> set rs. \<not> is_done r"
  shows "stream_scan bs sc rsp = (Ok n, rsp')"
  using assms
proof (induction bs arbitrary: sc rsp rs)
  case (Cons b bs)
  obtain r sc1 rsp1 where p: "push sc b rsp = (r, sc1, rsp1)"
    using prod_cases3 by blast
  obtain rs1 where f: "feed sc1 bs rsp1 = (rs1, sc', rsp')" and rs: "rs @ [Done n] = r # rs1"
    using Cons.prems(1) p by (auto split: prod.splits)
  show ?case
  proof (cases rs)
    case Nil
    with rs f show ?thesis
      using length_feed [OF f] p by auto
  next
    case (Cons x rs2)
    with rs have "r = x" "rs1 = rs2 @ [Done n]" by auto
    with Cons.IH [of sc1 rsp1 rs2] f p Cons Cons.prems(2) show ?thesis
      by (cases r) (auto simp: is_done_def)
  qed
qed simp

lemma stream_scan_answer:
  assumes "length out \<le> 252" and "length out + 3 \<le> length rsp"
  shows "stream_scan (SYNC # wire c out) scanner_new rsp = (Ok (length out + 3), wire c out @ drop (length out + 3) rsp)"
proof -
  have "feed scanner_new (SYNC # wire c out) rsp =
      (replicate (length out + 3) Frame @ [Done (length out + 3)], scanner_new, wire c out @ drop (length out + 3) rsp)"
    using feed_found [of "[]" out rsp c] assms by simp
  then show ?thesis
    by (rule stream_scan_feed) (simp add: is_done_def)
qed

lemma stream_scan_framed:
  "stream_scan bs sc rsp = (r, rsp') \<Longrightarrow>
     length rsp' = length rsp \<and> (\<forall>n. r = Ok n \<longrightarrow> n \<le> length rsp \<and> is_ok (decode (take n rsp')))"
proof (induction bs arbitrary: sc rsp)
  case (Cons b bs)
  obtain q sc1 rsp1 where p: "push sc b rsp = (q, sc1, rsp1)"
    using prod_cases3 by blast
  note len = length_push [OF p]
  show ?case
  proof (cases q)
    case (Done n)
    with push_Done [of sc b rsp n sc1 rsp1] p len Cons.prems show ?thesis by auto
  qed (use Cons.prems Cons.IH [of sc1 rsp1] p len in auto)
qed auto

lemma length_lag_pushes: "lag_pushes k sc rsp = (sc', rsp') \<Longrightarrow> length rsp' = length rsp"
  by (induction k arbitrary: sc rsp) (auto split: prod.splits dest: length_push)

interpretation sim_stream: stream_transport sim_stream_request
  by unfold_locales
    (auto simp: sim_stream_request_def Let_def split: prod.splits dest!: stream_scan_framed length_lag_pushes)

lemma sim_stream_serves:
  assumes "sim_up (st_sim t)" and "link_idle (sim_link (st_sim t))" and "length pl \<le> 252"
    and "dev_step sim_port_info (sim_dev (st_sim t)) c pl = (out, d')" and "length out + 3 \<le> length rsp" and "c \<noteq> CMD_BOOT"
  shows "\<exists>n t' rsp'. sim_stream_request t (wire c pl) rsp = (Ok n, t', rsp') \<and> n \<le> length rsp'
     \<and> decode_padded (take n rsp') = Ok \<lparr>cmd = c OR RSP_FLAG, payload = out\<rparr>
     \<and> (sim_up (st_sim t') \<and> link_idle (sim_link (st_sim t'))) \<and> sim_dev (st_sim t') = d'"
proof -
  obtain s' where s': "sim_rust_request_stream (SYNC # wire c pl) (st_sim t) = (SYNC # wire (c OR RSP_FLAG) out, s')"
    "sim_dev s' = d'" "sim_up s'" "link_idle (sim_link s')" "length out \<le> 17"
    using sim_stream_cycle [OF assms(1-4,6)] by blast
  have "stream_scan (SYNC # wire (c OR RSP_FLAG) out) scanner_new rsp =
      (Ok (length out + 3), wire (c OR RSP_FLAG) out @ drop (length out + 3) rsp)"
    using assms(5) s'(5) by (intro stream_scan_answer) simp_all
  then have "sim_stream_request t (wire c pl) rsp = (Ok (length out + 3), t\<lparr>st_sim := s'\<rparr>,
      wire (c OR RSP_FLAG) out @ drop (length out + 3) rsp)"
    by (simp add: sim_stream_request_def s'(1) lag_pushes_hunt del: stream_scan.simps)
  with s' show ?thesis by simp
qed

end
