(* ===== verification/End_To_End.thy ===== *)
theory End_To_End
  imports Session Sim_Device
begin

text \<open>
  The host against the device. The contract between them is a locale: a transport that
  carries each request to the abstract device and its answer back. Inside it the session's
  commands are steps of that device, and a flash of a valid image ends with the region the
  image stands for. Both loopback transports of the conformance harness, with the C device
  behind them, are instances.
\<close>

section \<open>The commands of an update on the abstract device\<close>

definition matches :: "image \<Rightarrow> port_info \<Rightarrow> bool" where
  "matches img pinfo \<longleftrightarrow> pi_page_size pinfo = img_page_size img \<and> pi_app_pages pinfo = img_app_pages img"

lemma dev_erase:
  "dev_step pinfo d CMD_ERASE_APP ERASE_MAGIC =
     ([ST_OK], d\<lparr>dev_flash := replicate (length (dev_flash d)) 0xFF, dev_erased := True\<rparr>)"
  by (simp add: dev_step_def CMD_INFO_def CMD_ERASE_APP_def)

lemma dev_write:
  assumes "valid_image img" and "matches img pinfo" and "unat i < img_ap img" and "dev_erased d"
  shows "dev_step pinfo d CMD_WRITE_PAGE (write_payload img i) =
     ([ST_OK], d\<lparr>dev_flash := put_at (unat i * img_ps img) (page_image img (unat i)) (dev_flash d)\<rparr>)"
proof -
  have len: "length (write_payload img i) = img_ps img + 2"
    using assms by (simp add: length_write_payload)
  have idx: "u16_from_le_bytes (write_payload img i ! 0) (write_payload img i ! 1) = i"
    by (simp add: write_payload_def u16_to_le_bytes_def)
  have data: "drop 2 (write_payload img i) = page_image img (unat i)"
    by (simp add: write_payload_def u16_to_le_bytes_def)
  show ?thesis
    using assms len idx data
    by (simp add: dev_step_def CMD_INFO_def CMD_ERASE_APP_def CMD_WRITE_PAGE_def matches_def img_ps_def img_ap_def not_le
        Let_def)
qed

lemma take_data: "valid_image img \<Longrightarrow> take (length (img_data img)) (region_image img) = img_data img"
  by (simp add: region_image_def)

lemma unat_img_len: "valid_image img \<Longrightarrow> unat (img_len img) = length (img_data img)"
  using geometry_bound [of "img_ps img" "img_app_pages img"]
  by (auto simp: valid_image_def img_ap_def unat_of_nat)

text \<open>VERIFY of an image's own length and CRC.\<close>

lemma dev_verify_step:
  assumes v: "valid_image img" and f: "length (dev_flash d) = img_ps img * img_ap img"
  shows "dev_step pinfo d CMD_VERIFY (verify_payload img) =
     ([if crc32 (take (length (img_data img)) (dev_flash d)) = img_crc img then ST_OK else ST_BAD_CRC], d)"
proof -
  have "length (verify_payload img) = 8"
    by (simp add: verify_payload_def)
  moreover have "u32_from_le_bytes (verify_payload img ! 0) (verify_payload img ! 1) (verify_payload img ! 2) (verify_payload img ! 3) = img_len img"
    "u32_from_le_bytes (verify_payload img ! 4) (verify_payload img ! 5) (verify_payload img ! 6) (verify_payload img ! 7) = img_crc img"
    by (simp_all add: verify_payload_def u32_to_le_bytes_def)
  moreover have "length (img_data img) + 16 \<le> length (dev_flash d)"
    using v f by (simp add: valid_image_def)
  ultimately show ?thesis
    using unat_img_len [OF v]
    by (simp add: dev_step_def CMD_INFO_def CMD_ERASE_APP_def CMD_WRITE_PAGE_def CMD_VERIFY_def Let_def)
qed

lemma dev_verify:
  assumes v: "valid_image img" and f: "dev_flash d = region_image img"
  shows "dev_step pinfo d CMD_VERIFY (verify_payload img) = ([ST_OK], d)"
  using dev_verify_step [OF v, of d pinfo] v f take_data [OF v] by (simp add: valid_image_def)

lemma region_image_valid:
  assumes v: "valid_image img"
  shows "region_valid (region_image img)"
proof -
  have len: "length (region_image img) = img_ps img * img_ap img" and ge: "length (img_data img) + 16 \<le> img_ps img * img_ap img"
    using v by (simp_all add: valid_image_def)
  have f: "drop (img_ps img * img_ap img - 16) (region_image img) = footer img"
    using ge by (simp add: region_image_def)
  have "take 4 (footer img) = FOOTER_MAGIC"
    by (simp add: footer_def FOOTER_MAGIC_def)
  moreover have "u32_from_le_bytes (footer img ! 4) (footer img ! 5) (footer img ! 6) (footer img ! 7) = img_len img"
    "u32_from_le_bytes (footer img ! 8) (footer img ! 9) (footer img ! 10) (footer img ! 11) = img_crc img"
    by (simp_all add: footer_def FOOTER_MAGIC_def u32_to_le_bytes_def)
  moreover have "img_crc img = crc32 (img_data img)"
    using v by (simp add: valid_image_def)
  ultimately show ?thesis
    unfolding region_valid_def len f Let_def using ge unat_img_len [OF v] take_data [OF v] by simp
qed

text \<open>A blank first byte of the footer closes the boot gate.\<close>

lemma blank_footer_invalid:
  assumes "16 \<le> length r" and "r ! (length r - 16) = 0xFF"
  shows "\<not> region_valid r"
proof
  assume "region_valid r"
  then have "take 4 (drop (length r - 16) r) = FOOTER_MAGIC"
    by (simp add: region_valid_def Let_def)
  then have "take 4 (drop (length r - 16) r) ! 0 = 0x4F"
    by (simp add: FOOTER_MAGIC_def)
  with assms show False by simp
qed

lemma dev_info:
  "dev_step i d CMD_INFO [] = (ST_OK # tl (info_payload i (region_valid (dev_flash d))), d)"
  by (simp add: dev_step_def info_payload_def)

lemma length_info: "length (pi_device_id i) = 4 \<Longrightarrow> length (tl (info_payload i v)) = 11"
  by (simp add: info_payload_def)

lemma parse_info_payload:
  assumes "length (pi_device_id i) = 4"
  shows "parse_info (tl (info_payload i v)) = Ok \<lparr>di_proto = PROTO_VERSION, di_bl_version = pi_bl_version i,
     di_device_id = pi_device_id i, di_page_size = pi_page_size i, di_app_pages = pi_app_pages i, di_app_valid = v\<rparr>"
proof -
  obtain a b c e where "pi_device_id i = [a, b, c, e]"
    using assms by (auto simp: numeral_eq_Suc length_Suc_conv)
  then show ?thesis
    by (simp add: info_payload_def u16_to_le_bytes_def parse_info_def)
qed

section \<open>Transports with a device behind them\<close>

text \<open>
  A device as the session sees it: an exchange, however many requests it takes, is one step
  of the abstract device.
\<close>

locale session_device = transport request
  for request :: "('t, 'e) request_fn" +
  fixes dev :: "'t \<Rightarrow> device" and up :: "'t \<Rightarrow> bool" and pinfo :: port_info
  assumes exchanges: "up t \<Longrightarrow> length pl \<le> 252 \<Longrightarrow> dev_step pinfo (dev t) c pl = (st # rest, d') \<Longrightarrow>
      length rest + 4 \<le> length rx \<Longrightarrow> c \<noteq> CMD_BOOT \<Longrightarrow> st \<noteq> ST_BAD_FRAME \<Longrightarrow>
      \<exists>n t' rx'. exchange request t (wire c pl) rx (c OR RSP_FLAG) = (if st = ST_OK then Ok n else Err (Core (Device st)), t', rx')
        \<and> decode_padded (take n rx') = Ok \<lparr>cmd = c OR RSP_FLAG, payload = st # rest\<rparr> \<and> up t' \<and> dev t' = d'"
    and device_id: "length (pi_device_id pinfo) = 4"
begin

lemma transact_step:
  assumes up: "up (s_transport s)" and pl: "length pl \<le> 252" and cap: "cap \<le> 252"
    and step: "dev_step pinfo (dev (s_transport s)) c pl = (st # rest, d')" and fits: "length rest + 1 \<le> cap"
    and buf: "length pl + cap + 6 \<le> length (s_buf s)" and c: "c \<noteq> CMD_BOOT" and st: "st \<noteq> ST_BAD_FRAME"
  shows "\<exists>s'. transact request s c pl cap = (if st = ST_OK then Ok rest else Err (Core (Device st)), s')
     \<and> up (s_transport s') \<and> dev (s_transport s') = d' \<and> length (s_buf s') = length (s_buf s)"
proof -
  let ?rx = "take (cap + 3) (drop (length pl + 3) (s_buf s))"
  have "length rest + 4 \<le> length ?rx"
    using fits buf by simp
  from exchanges [OF up pl step this c st] obtain n t' rx' where
    ex: "exchange request (s_transport s) (wire c pl) ?rx (c OR RSP_FLAG) = (if st = ST_OK then Ok n else Err (Core (Device st)), t', rx')"
      "decode_padded (take n rx') = Ok \<lparr>cmd = c OR RSP_FLAG, payload = st # rest\<rparr>"
    and t': "up t'" "dev t' = d'"
    by blast
  show ?thesis
    using transact_exchanged [OF ex pl cap buf] t' by auto
qed

lemma status_step:
  assumes "up (s_transport s)" and "length pl \<le> 252" and "dev_step pinfo (dev (s_transport s)) c pl = ([ST_OK], d')"
    and "length pl + 7 \<le> length (s_buf s)" and "c \<noteq> CMD_BOOT"
  shows "\<exists>s'. transact request s c pl ST_RSP_PAYLOAD = (Ok [], s')
     \<and> up (s_transport s') \<and> dev (s_transport s') = d' \<and> length (s_buf s') = length (s_buf s)"
  using transact_step [OF assms(1,2) _ assms(3) _ _ assms(5), of ST_RSP_PAYLOAD] assms(4)
  by (simp add: ST_RSP_PAYLOAD_def ST_OK_def ST_BAD_FRAME_def)

lemma run_writes:
  assumes v: "valid_image img" and m: "matches img pinfo" and idx: "\<forall>i \<in> set idxs. unat i < img_ap img"
    and "up (s_transport s)" and "dev_erased (dev (s_transport s))" and "img_ps img + 9 \<le> length (s_buf s)"
  shows "\<exists>s'. run_script request s (map (\<lambda>i. (CMD_WRITE_PAGE, write_payload img i)) idxs) = (Ok (), s')
     \<and> up (s_transport s') \<and> length (s_buf s') = length (s_buf s)
     \<and> dev (s_transport s') = (dev (s_transport s))\<lparr>dev_flash := write_pages img (map unat idxs) (dev_flash (dev (s_transport s)))\<rparr>"
  using idx assms(4-6)
proof (induction idxs arbitrary: s)
  case (Cons i idxs)
  let ?d = "dev (s_transport s)"
  have i: "unat i < img_ap img" and ps: "img_ps img \<le> 250"
    using Cons.prems(1) v by (simp_all add: valid_image_def)
  have len: "length (write_payload img i) = img_ps img + 2"
    using v i by (rule length_write_payload)
  from status_step [OF Cons.prems(2) _ dev_write [OF v m i Cons.prems(3)]] len ps Cons.prems(4)
  obtain s1 where s1: "transact request s CMD_WRITE_PAGE (write_payload img i) ST_RSP_PAYLOAD = (Ok [], s1)"
    "up (s_transport s1)" "length (s_buf s1) = length (s_buf s)"
    "dev (s_transport s1) = ?d\<lparr>dev_flash := put_at (unat i * img_ps img) (page_image img (unat i)) (dev_flash ?d)\<rparr>"
    by (auto simp: CMD_WRITE_PAGE_def CMD_BOOT_def)
  with Cons.IH [of s1] Cons.prems show ?case
    by auto
qed simp

lemma flash_succeeds:
  assumes v: "valid_image img" and m: "matches img pinfo" and up: "up (s_transport s)"
    and len: "length (dev_flash (dev (s_transport s))) = img_ps img * img_ap img"
    and buf: "img_ps img + 9 \<le> length (s_buf s)"
  shows "\<exists>s' prog. flash request s img = (Ok (), s', prog) \<and> up (s_transport s')
     \<and> dev (s_transport s') = \<lparr>dev_flash = region_image img, dev_erased = True\<rparr>"
proof -
  let ?d = "dev (s_transport s)" and ?e = "replicate (img_ps img * img_ap img) 0xFF"
  have ps: "16 \<le> img_ps img" using v by (simp add: valid_image_def)
  let ?rest = "tl (info_payload pinfo (region_valid (dev_flash ?d)))"
  from transact_step [OF up _ _ dev_info, of INFO_RSP_PAYLOAD] length_info [OF device_id] ps buf
  obtain s1 where s1: "transact request s CMD_INFO [] INFO_RSP_PAYLOAD = (Ok ?rest, s1)" "up (s_transport s1)"
    "dev (s_transport s1) = ?d" "length (s_buf s1) = length (s_buf s)"
    by (auto simp: INFO_RSP_PAYLOAD_def CMD_INFO_def CMD_BOOT_def ST_OK_def ST_BAD_FRAME_def)
  then obtain di where di: "info request s = (Ok di, s1)" "gates img di"
    using m by (auto simp: info_def gates_def matches_def parse_info_payload [OF device_id])
  from status_step [OF s1(2) _ dev_erase] s1(3,4) ps buf len
  obtain s2 where s2: "transact request s1 CMD_ERASE_APP ERASE_MAGIC ST_RSP_PAYLOAD = (Ok [], s2)" "up (s_transport s2)"
    "dev (s_transport s2) = \<lparr>dev_flash = ?e, dev_erased = True\<rparr>" "length (s_buf s2) = length (s_buf s)"
    by (auto simp: ERASE_MAGIC_def CMD_ERASE_APP_def CMD_BOOT_def)
  from run_writes [OF v m _ s2(2), of "pages_list (pages img)"] pages_in_region s2 buf
  obtain s3 where s3: "run_script request s2 (write_script img) = (Ok (), s3)" "up (s_transport s3)"
    "length (s_buf s3) = length (s_buf s)" "dev (s_transport s3) = \<lparr>dev_flash = region_image img, dev_erased = True\<rparr>"
    unfolding write_script_def using write_all_pages [OF v] by auto
  from status_step [OF s3(2) _ dev_verify [OF v]] s3(3,4) ps buf
  obtain s4 where s4: "transact request s3 CMD_VERIFY (verify_payload img) ST_RSP_PAYLOAD = (Ok [], s4)" "up (s_transport s4)"
    "dev (s_transport s4) = \<lparr>dev_flash = region_image img, dev_erased = True\<rparr>"
    by (auto simp: verify_payload_def CMD_VERIFY_def CMD_BOOT_def)
  have "run_script request s1 (update_script img) = (Ok (), s4)"
    using s2(1) s3(1) s4(1) by (simp add: update_script_def run_script_append)
  then have "(let (r, s', prog) = flash request s img in (r, s')) = (Ok (), s4)"
    using flash_script [OF v di] by simp
  with s4 show ?thesis
    by (auto split: prod.splits)
qed

end

text \<open>The plain case: every request is carried to the device and answered.\<close>

locale device_transport = transport request
  for request :: "('t, 'e) request_fn" +
  fixes dev :: "'t \<Rightarrow> device" and up :: "'t \<Rightarrow> bool" and pinfo :: port_info
  assumes serves: "up t \<Longrightarrow> length pl \<le> 252 \<Longrightarrow> dev_step pinfo (dev t) c pl = (out, d') \<Longrightarrow>
      length out + 3 \<le> length rsp \<Longrightarrow> c \<noteq> CMD_BOOT \<Longrightarrow>
      \<exists>n t' rsp'. request t (wire c pl) rsp = (Ok n, t', rsp') \<and> n \<le> length rsp'
        \<and> decode_padded (take n rsp') = Ok \<lparr>cmd = c OR RSP_FLAG, payload = out\<rparr> \<and> up t' \<and> dev t' = d'"
    and id_length: "length (pi_device_id pinfo) = 4"

sublocale device_transport \<subseteq> session_device request dev up pinfo
proof unfold_locales
  fix t c and pl rest rx :: bytes and st d'
  assume a: "up t" "length pl \<le> 252" "dev_step pinfo (dev t) c pl = (st # rest, d')" "length rest + 4 \<le> length rx"
    "c \<noteq> CMD_BOOT" "st \<noteq> ST_BAD_FRAME"
  then have "length (st # rest) + 3 \<le> length rx"
    by simp
  from serves [OF a(1-3) this a(5)] obtain n t' rx' where r: "request t (wire c pl) rx = (Ok n, t', rx')" "n \<le> length rx'"
    "decode_padded (take n rx') = Ok \<lparr>cmd = c OR RSP_FLAG, payload = st # rest\<rparr>" "up t'" "dev t' = d'"
    by blast
  with exchange_first [of request, OF r(1-3) a(6)]
  show "\<exists>n t' rx'. exchange request t (wire c pl) rx (c OR RSP_FLAG) = (if st = ST_OK then Ok n else Err (Core (Device st)), t', rx')
      \<and> decode_padded (take n rx') = Ok \<lparr>cmd = c OR RSP_FLAG, payload = st # rest\<rparr> \<and> up t' \<and> dev t' = d'"
    by blast
qed (rule id_length)

interpretation sim_link_if: device_transport sim_transport_request sim_dev sim_up sim_port_info
  by unfold_locales (auto intro: sim_request_serves simp: sim_port_info_def)

interpretation sim_stream_if: device_transport sim_stream_request "\<lambda>t. sim_dev (st_sim t)"
  "\<lambda>t. sim_up (st_sim t) \<and> link_idle (sim_link (st_sim t))" sim_port_info
proof unfold_locales
  show "length (pi_device_id sim_port_info) = 4"
    by (simp add: sim_port_info_def)
qed (use sim_stream_serves in blast)

section \<open>Arbitrary requests\<close>

lemma sim_junk:
  assumes up: "sim_up s" and len: "length raw < 65536" and dec: "\<not> is_ok (decode raw)"
  shows "sim_rust_request raw s = (wire ((if raw = [] then 0 else hd raw) OR RSP_FLAG) [ST_BAD_FRAME], s)"
proof -
  let ?n = "word_of_nat (length raw) :: u16" and ?c = "if raw = [] then 0 else hd raw"
  have n: "unat ?n = length raw"
    using len by simp
  have "upd_frame_parse raw (ucast ?n) = None" if "?n \<le> 255"
  proof -
    have l: "length raw \<le> 255"
      using that n by (simp add: word_le_nat_alt)
    then have "(ucast ?n :: u8) = word_of_nat (length raw)"
      using n by (simp add: word_unat_eq_iff unsigned_ucast_eq take_bit_eq_mod unat_of_nat)
    with l dec upd_frame_parse_decode [of "length raw" raw] show ?thesis
      by (cases "decode raw") simp_all
  qed
  then have none: "(if ?n \<le> 255 then upd_frame_parse raw (ucast ?n) else None) = None"
    by simp
  have first: "(if ?n \<ge> 1 then raw ! 0 else 0) = ?c"
    using n by (cases raw) (auto simp: word_le_nat_alt)
  have build: "upd_frame_build (replicate 259 0) 255 (?c OR RSP_FLAG) (put_at 0 [ST_BAD_FRAME] (replicate 252 0)) 1 =
      (word_of_nat (length [ST_BAD_FRAME] + 3), wire (?c OR RSP_FLAG) [ST_BAD_FRAME] @ drop (length [ST_BAD_FRAME] + 3) (replicate 259 0))"
    using upd_frame_build_wire [of "[ST_BAD_FRAME]" "replicate 259 0" 255 _ "drop 1 (replicate 252 (0 :: u8))" "?c OR RSP_FLAG"]
    by (simp add: put_at_def)
  have "sim_request raw ?n (replicate 259 0) s = (ucast (word_of_nat 4 :: u8), wire (?c OR RSP_FLAG) [ST_BAD_FRAME] @ replicate 255 0, s)"
    unfolding sim_request_def none option.case first Let_def prod.case build
    using up by (simp add: sim_up_def healthy_def take_gate_idle)
  then show ?thesis
    using len by (simp add: sim_rust_request_def RESP_CAP_def Let_def)
qed

section \<open>Properties\<close>

text \<open>
  C2: the update works end to end. For every binary that fits the simulated device, from
  any state of the harness after \<open>acquire\<close>, with any frame buffer of at least 137 bytes,
  \<open>flash\<close> over the transactional loopback into the C device succeeds; the app region
  then holds exactly the binary, \<open>0xFF\<close> padding and the footer, the device's boot gate
  accepts it, and no port function was called outside the region.
\<close>

theorem flash_end_to_end:
  assumes "from_bin bs 128 32 = Ok img" and "137 \<le> length buf" and "\<not> hw_aborted (sim_hw s0)"
  shows "\<exists>s' prog. flash sim_transport_request (session_new (sim_acquire s0) buf) img = ((Ok () :: 'e error + unit), s', prog)
     \<and> hw_flash (sim_hw (into_transport s')) = bs @ replicate (4080 - length bs) 0xFF @ footer img
     \<and> fst (upd_app_valid sim_port sim_port_info (sim_hw (into_transport s')))
     \<and> \<not> hw_aborted (sim_hw (into_transport s'))"
proof -
  let ?s = "session_new (sim_acquire s0) buf"
  have v: "valid_image img" "img_data img = bs" "img_ps img = 128" "img_ap img = 32" "matches img sim_port_info"
    using from_bin_valid [OF assms(1)] by (simp_all add: img_ps_def img_ap_def matches_def sim_port_info_def)
  have up: "sim_up (s_transport ?s)" "length (dev_flash (sim_dev (s_transport ?s))) = img_ps img * img_ap img"
    using assms(3) v by (simp_all add: session_new_def sim_acquire_def sim_reset_def sim_up_def healthy_def upd_init_def sim_dev_def)
  obtain s' prog where s': "flash sim_transport_request ?s img = ((Ok () :: 'e error + unit), s', prog)" "sim_up (s_transport s')"
    "sim_dev (s_transport s') = \<lparr>dev_flash = region_image img, dev_erased = True\<rparr>"
    using sim_link_if.flash_succeeds [OF v(1,5) up] v(3) assms(2) by (auto simp: session_new_def)
  have h: "healthy (sim_hw (s_transport s'))" and fl: "hw_flash (sim_hw (s_transport s')) = region_image img"
    using s'(2,3) by (simp_all add: sim_up_def sim_dev_def)
  have "upd_app_valid sim_port sim_port_info (sim_hw (s_transport s')) = (True, sim_hw (s_transport s'))"
    using sim_flash.app_valid_eq [OF h] region_image_valid [OF v(1)] fl by simp
  with s' h fl v show ?thesis
    by (auto simp: into_transport_def healthy_def region_image_def)
qed

text \<open>A harness state to start from, and a small binary.\<close>

definition fresh_sim :: sim where
  "fresh_sim = \<lparr>sim_hw = \<lparr>hw_flash = replicate SIM_REGION 0xFF, hw_ops = 0, hw_cut_at = 0, hw_cut_hit = False,
       hw_dead = False, hw_jumped = False, hw_aborted = False\<rparr>,
     sim_session = upd_init sim_port, sim_link = link_init (replicate 255 0)\<rparr>"

definition blinky :: image where
  "blinky = \<lparr>img_data = [1, 2, 3], img_page_size = 128, img_app_pages = 32, img_len = 3, img_crc = crc32 [1, 2, 3]\<rparr>"

lemma blinky_from_bin: "from_bin [1, 2, 3] 128 32 = Ok blinky"
  by (simp add: from_bin_spec blinky_def)

lemma fresh_sim_alive: "\<not> hw_aborted (sim_hw fresh_sim)"
  by (simp add: fresh_sim_def)

theorem flash_end_to_end_witness:
  "\<exists>s' prog. flash sim_transport_request (session_new (sim_acquire fresh_sim) (replicate 137 0)) blinky = ((Ok () :: 'e error + unit), s', prog)
     \<and> hw_flash (sim_hw (into_transport s')) = [1, 2, 3] @ replicate 4077 0xFF @ footer blinky
     \<and> fst (upd_app_valid sim_port sim_port_info (sim_hw (into_transport s')))
     \<and> \<not> hw_aborted (sim_hw (into_transport s'))"
  using flash_end_to_end [OF blinky_from_bin _ fresh_sim_alive, of "replicate 137 0"] by simp

text \<open>
  The update works over the byte stream as well. With the sync framing in both
  directions, the device's \<open>link_poll\<close> and the host's scanner, and any number of lag
  bytes in front of each response, \<open>flash\<close> of a fitting binary succeeds and leaves the
  complete region.
\<close>

lemma flash_end_to_end_stream:
  assumes "from_bin bs 128 32 = Ok img" and "137 \<le> length buf" and "\<not> hw_aborted (sim_hw s0)"
    and "length (lk_buf (sim_link s0)) = 255"
  shows "\<exists>s' prog. flash sim_stream_request (session_new \<lparr>st_sim = sim_acquire s0, st_lag = lag\<rparr> buf) img = (Ok (), s', prog)
     \<and> hw_flash (sim_hw (st_sim (into_transport s'))) = bs @ replicate (4080 - length bs) 0xFF @ footer img
     \<and> \<not> hw_aborted (sim_hw (st_sim (into_transport s')))"
proof -
  let ?s = "session_new \<lparr>st_sim = sim_acquire s0, st_lag = lag\<rparr> buf"
  have v: "valid_image img" "img_data img = bs" "img_ps img = 128" "img_ap img = 32" "matches img sim_port_info"
    using from_bin_valid [OF assms(1)] by (simp_all add: img_ps_def img_ap_def matches_def sim_port_info_def)
  have up: "sim_up (st_sim (s_transport ?s)) \<and> link_idle (sim_link (st_sim (s_transport ?s)))"
    "length (dev_flash (sim_dev (st_sim (s_transport ?s)))) = img_ps img * img_ap img"
    using assms(3,4) v link_init_inv [of "lk_buf (sim_link s0)"]
    by (simp_all add: session_new_def sim_acquire_def sim_reset_def sim_up_def healthy_def upd_init_def sim_dev_def link_idle_def,
        simp_all add: link_init_def)
  obtain s' prog where s': "flash sim_stream_request ?s img = (Ok (), s', prog)"
    "sim_up (st_sim (s_transport s'))"
    "sim_dev (st_sim (s_transport s')) = \<lparr>dev_flash = region_image img, dev_erased = True\<rparr>"
    using sim_stream_if.flash_succeeds [OF v(1,5) up] v(3) assms(2) by (auto simp: session_new_def)
  with v show ?thesis
    by (auto simp: into_transport_def sim_up_def healthy_def sim_dev_def region_image_def)
qed

text \<open>
  C3: the device core refines its specification, for every request. Whatever bytes arrive
  at a device that is up, it answers with one frame: for a decodable request the answer
  and the new region and erased flag are those of the abstract device, and for anything
  else it is \<open>ST_BAD_FRAME\<close> with the device unchanged; it never touches flash outside
  the region, and it jumps to the application exactly on a BOOT request whose region
  passes the gate.
\<close>

theorem device_refines_spec:
  assumes "sim_up s" and "length raw < 65536" and "sim_rust_request raw s = (resp, s')"
  shows "\<not> hw_aborted (sim_hw s') \<and>
     (case decode raw of
        Ok f \<Rightarrow> (let (out, d') = dev_step sim_port_info (sim_dev s) (cmd f) (payload f) in
           resp = wire (cmd f OR RSP_FLAG) out \<and> sim_dev s' = d' \<and>
           hw_jumped (sim_hw s') = (cmd f = CMD_BOOT \<and> region_valid (hw_flash (sim_hw s))))
      | Err _ \<Rightarrow> s' = s \<and> (\<exists>c. resp = wire c [ST_BAD_FRAME]))"
proof (cases "decode raw")
  case (Inl e)
  with sim_junk [OF assms(1,2)] assms(1,3) show ?thesis
    by (auto simp: sim_up_def healthy_def)
next
  case (Inr f)
  then have f: "length (payload f) \<le> 252" "raw = wire (cmd f) (payload f)"
    by (simp_all add: decode_iff)
  obtain out d' where st: "dev_step sim_port_info (sim_dev s) (cmd f) (payload f) = (out, d')"
    using prod.exhaust by blast
  from sim_cycle [OF assms(1) f(1) st] assms(3) f(2) Inr st show ?thesis
    by (auto simp: healthy_def split: if_splits)
qed

theorem device_refines_spec_witness:
  "\<not> hw_aborted (sim_hw (snd (sim_rust_request (wire CMD_BOOT []) fresh_sim)))
     \<and> fst (sim_rust_request (wire CMD_BOOT []) fresh_sim) = wire 0x85 [ST_NO_APP]
     \<and> \<not> hw_jumped (sim_hw (snd (sim_rust_request (wire CMD_BOOT []) fresh_sim)))"
proof -
  have up: "sim_up fresh_sim"
    by (simp add: sim_up_def healthy_def fresh_sim_def upd_init_def)
  have inv: "\<not> region_valid (hw_flash (sim_hw fresh_sim))"
    by (rule blank_footer_invalid) (simp_all add: fresh_sim_def)
  have dec: "decode (wire CMD_BOOT []) = Ok \<lparr>cmd = CMD_BOOT, payload = []\<rparr>"
    by simp
  have step: "dev_step sim_port_info (sim_dev fresh_sim) CMD_BOOT [] = ([ST_NO_APP], sim_dev fresh_sim)"
    using inv by (simp add: dev_step_def CMD_INFO_def CMD_ERASE_APP_def CMD_WRITE_PAGE_def CMD_VERIFY_def CMD_BOOT_def
        sim_dev_def)
  obtain resp s' where run: "sim_rust_request (wire CMD_BOOT []) fresh_sim = (resp, s')"
    using prod.exhaust by blast
  have flag: "CMD_BOOT OR RSP_FLAG = 0x85"
    by (simp add: CMD_BOOT_def RSP_FLAG_def)
  from device_refines_spec [OF up _ run] have "\<not> hw_aborted (sim_hw s') \<and> resp = wire (CMD_BOOT OR RSP_FLAG) [ST_NO_APP] \<and> \<not> hw_jumped (sim_hw s')"
    using inv by (simp add: dec step)
  then show ?thesis
    by (simp only: run flag fst_conv snd_conv simp_thms)
qed

end
