(* ===== verification/Power_Cut.thy ===== *)
theory Power_Cut
  imports End_To_End
begin

text \<open>
  An update that loses power. The simulated device tears the flash operation the cut was
  armed for and is silent from then on. Whatever the operation, the region it leaves is
  never a half-written application with a footer: during the erase it is the old region
  with its front erased, afterwards the footer is blank, so the boot gate stays shut.
\<close>

section \<open>Flash operations with a cut ahead\<close>

text \<open>The cut tears the \<open>k\<close>-th flash operation from here.\<close>

definition armed :: "nat \<Rightarrow> sim_hw \<Rightarrow> bool" where
  "armed k w \<longleftrightarrow> \<not> hw_dead w \<and> \<not> hw_jumped w \<and> \<not> hw_aborted w \<and> length (hw_flash w) = 4096
     \<and> hw_cut_at w \<noteq> 0 \<and> 1 \<le> k \<and> unat (hw_ops w) + k = unat (hw_cut_at w)"

definition fallen :: "sim_hw \<Rightarrow> bool" where
  "fallen w \<longleftrightarrow> hw_dead w \<and> hw_cut_hit w \<and> \<not> hw_jumped w \<and> \<not> hw_aborted w \<and> length (hw_flash w) = 4096"

lemma op_tears_armed:
  assumes "armed k w"
  shows "op_tears w = (let w = w\<lparr>hw_ops := hw_ops w + 1\<rparr> in
      if k = 1 then (True, w\<lparr>hw_cut_hit := True, hw_dead := True\<rparr>) else (False, w))"
    and "k \<noteq> 1 \<Longrightarrow> unat (hw_ops w + 1) + (k - 1) = unat (hw_cut_at w)"
proof -
  have a: "unat (hw_ops w) + k = unat (hw_cut_at w)" "1 \<le> k" "hw_cut_at w \<noteq> 0"
    using assms by (simp_all add: armed_def)
  then have "unat (hw_ops w) + 1 < 4294967296"
    using unat_u32_lt [of "hw_cut_at w"] by linarith
  then have s: "unat (hw_ops w + 1) = unat (hw_ops w) + 1"
    by (simp add: unat_word_ariths)
  with a show "k \<noteq> 1 \<Longrightarrow> unat (hw_ops w + 1) + (k - 1) = unat (hw_cut_at w)"
    by simp
  have "hw_ops w + 1 = hw_cut_at w \<longleftrightarrow> k = 1"
    using a s by (auto simp: word_unat_eq_iff)
  with a show "op_tears w = (let w = w\<lparr>hw_ops := hw_ops w + 1\<rparr> in
      if k = 1 then (True, w\<lparr>hw_cut_hit := True, hw_dead := True\<rparr>) else (False, w))"
    by (simp add: op_tears_def Let_def)
qed

lemma write_armed:
  assumes "armed k w" and "unat p < 32" and "128 \<le> length data"
  shows "if k = 1 then fallen (sim_write_page p data w)
       \<and> hw_flash (sim_write_page p data w) = put_at (unat p * 128) (take 64 data) (hw_flash w)
     else armed (k - 1) (sim_write_page p data w)
       \<and> hw_flash (sim_write_page p data w) = put_at (unat p * 128) (take 128 data) (hw_flash w)"
proof -
  have "unat p * 128 + 128 \<le> length (hw_flash w)"
    using page_bound [OF assms(2), of 128] assms(1) by (simp add: armed_def)
  then show ?thesis
    using assms op_tears_armed [OF assms(1)]
    by (auto simp: sim_write_page_def armed_def fallen_def Let_def)
qed

lemma erase_armed:
  assumes "armed k w" and "unat p < 32"
  shows "if k = 1 then fallen (sim_erase_page p w)
       \<and> hw_flash (sim_erase_page p w) = put_at (unat p * 128) (replicate 64 0xFF) (hw_flash w)
     else armed (k - 1) (sim_erase_page p w)
       \<and> hw_flash (sim_erase_page p w) = put_at (unat p * 128) (replicate 128 0xFF) (hw_flash w)"
proof -
  have "unat p * 128 + 128 \<le> length (hw_flash w)"
    using page_bound [OF assms(2), of 128] assms(1) by (simp add: armed_def)
  then show ?thesis
    using assms op_tears_armed [OF assms(1)]
    by (auto simp: sim_erase_page_def armed_def fallen_def Let_def)
qed

lemma unat_next_page: "unat p < 32 \<Longrightarrow> unat (p + 1) = Suc (unat p)" for p :: u16
  by (simp add: unat_word_ariths)

lemma erase_loop_fallen: "fallen w \<Longrightarrow> unat p + j \<le> 32 \<Longrightarrow> erase_loop sim_port j p w = w"
proof (induction j arbitrary: p)
  case (Suc j)
  then have "sim_erase_page p w = w"
    by (simp add: sim_erase_page_def fallen_def)
  with Suc unat_next_page [of p] show ?case
    by (simp add: sim_port_def)
qed simp

text \<open>The erase loop from page \<open>p\<close> on: what is before stays, and at most the rest is blank.\<close>

lemma erase_loop_armed:
  assumes "armed k w" and "unat p + j = 32"
  shows "let w' = erase_loop sim_port j p w; front = take (unat p * 128) (hw_flash w) in
     if k \<le> j then fallen w' \<and> hw_flash w' = front @ replicate ((k - 1) * 128 + 64) 0xFF
         @ drop ((unat p + k - 1) * 128 + 64) (hw_flash w)
     else armed (k - j) w' \<and> hw_flash w' = front @ replicate (j * 128) 0xFF"
  using assms
proof (induction j arbitrary: k p w)
  case 0
  then show ?case by (simp add: armed_def)
next
  case (Suc j)
  let ?w = "sim_erase_page p w" and ?f = "hw_flash w"
  have p: "unat p < 32" "unat (p + 1) = Suc (unat p)" "unat (p + 1) + j = 32"
    using Suc.prems(2) unat_next_page [of p] by simp_all
  have len: "length ?f = 4096" "1 \<le> k"
    using Suc.prems(1) by (simp_all add: armed_def)
  have room: "unat p * 128 + 128 \<le> length ?f"
    using page_bound [OF p(1), of 128] len(1) by simp
  have loop: "erase_loop sim_port (Suc j) p w = erase_loop sim_port j (p + 1) ?w"
    by (simp add: sim_port_def)
  show ?case
  proof (cases "k = 1")
    case True
    then have w: "fallen ?w" "hw_flash ?w = put_at (unat p * 128) (replicate 64 0xFF) ?f"
      using erase_armed [OF Suc.prems(1) p(1)] by simp_all
    have "erase_loop sim_port j (p + 1) ?w = ?w"
      by (rule erase_loop_fallen [OF w(1)]) (use p in simp)
    with True w room show ?thesis
      unfolding loop by (simp add: put_at_def Let_def)
  next
    case False
    then have w: "armed (k - 1) ?w" "hw_flash ?w = put_at (unat p * 128) (replicate 128 0xFF) ?f"
      using erase_armed [OF Suc.prems(1) p(1)] by simp_all
    have front: "take (Suc (unat p) * 128) (hw_flash ?w) = take (unat p * 128) ?f @ replicate 128 0xFF"
      using room unfolding w(2) by (simp add: put_at_def add.commute)
    have rest: "drop (m + 128) (hw_flash ?w) = drop (m + 128) ?f" if "unat p * 128 \<le> m" for m
      using that room unfolding w(2) by (simp add: put_at_def)
    obtain i where i: "k = Suc (Suc i)"
      using False len(2) by (metis One_nat_def Suc_le_D le_SucE not_less_eq_eq)
    have "replicate 128 (0xFF :: u8) @ replicate (i * 128 + 64) 0xFF @ xs = replicate (Suc i * 128 + 64) 0xFF @ xs" for xs
      by (simp add: replicate_add [symmetric])
    moreover have "drop ((Suc (unat p) + i) * 128 + 64) (hw_flash ?w) = drop ((Suc (unat p) + i) * 128 + 64) ?f"
      using rest [of "(unat p + i) * 128 + 64"] by (simp add: algebra_simps)
    ultimately show ?thesis
      using Suc.IH [OF w(1) p(3)] unfolding loop p(2) front i
      by (auto simp: Let_def replicate_add [symmetric] add.commute split: if_splits)
  qed
qed

section \<open>Request cycles with a cut ahead\<close>

definition core_dev :: "upd_session \<times> sim_hw \<Rightarrow> device" where
  "core_dev x = \<lparr>dev_flash = hw_flash (snd x), dev_erased = us_erased (fst x)\<rparr>"

definition on_edge :: "nat \<Rightarrow> upd_session \<times> sim_hw \<Rightarrow> bool" where
  "on_edge k x \<longleftrightarrow> armed k (snd x) \<and> us_info (fst x) = sim_port_info \<and> \<not> us_boot_pending (fst x)"

interpretation edge: flash_reader sim_port "armed k" hw_flash 128 32 for k
  by unfold_locales (auto simp: sim_port_def sim_port_info_def armed_def sim_read_byte_def sim_jump_to_app_def)

lemma edge_ready: "on_edge k x \<Longrightarrow> length pl \<le> 252 \<Longrightarrow> edge.ready k (fst x) pl (replicate 252 0) 252 (snd x)"
  by (simp add: edge.ready_def on_edge_def)

lemma edge_alive: "on_edge k x \<Longrightarrow> \<not> hw_dead (snd x) \<and> \<not> hw_jumped (snd x)"
  by (simp add: on_edge_def armed_def)

text \<open>Commands that only read are not affected.\<close>

lemma edge_reads:
  assumes edge: "on_edge k x" and pl: "length pl \<le> 252" and c: "c \<noteq> CMD_ERASE_APP" "c \<noteq> CMD_WRITE_PAGE" "c \<noteq> CMD_BOOT"
    and step: "dev_step sim_port_info (core_dev x) c pl = (out, d')"
  shows "\<exists>y. handled x c pl junk out y \<and> on_edge k y \<and> core_dev y = d'"
proof -
  obtain n rsp' ses w where h: "upd_handle sim_port (fst x)
      \<lparr>uf_cmd = c, uf_len = word_of_nat (length pl), uf_payload = pl @ junk\<rparr> (replicate 252 0) 252 (snd x) = (n, rsp', ses, w)"
    by (metis prod_cases4)
  from edge.handle_reads [OF edge_ready [OF edge pl] c(1,2), of junk]
  have r: "take (unat n) rsp' = out" "1 \<le> length out" "length out \<le> 17" "unat n = length out" "armed k w"
    "\<lparr>dev_flash = hw_flash w, dev_erased = us_erased ses\<rparr> = d'" "us_info ses = us_info (fst x)" "\<not> us_boot_pending ses"
    using step edge c(3) unfolding h edge.refines_def edge.abs_dev_def core_dev_def on_edge_def by auto
  have n: "n = word_of_nat (length out)" and rsp: "rsp' = out @ drop (length out) rsp'"
    using r(1,4) by (metis unat_word_of_nat_u8 word_unat_eq_iff unat_u8_lt) (metis append_take_drop_id r(1,4))
  have "handled x c pl junk out (ses, w)"
    unfolding handled_iff h n using rsp r(2,3,8) by auto
  with r edge show ?thesis
    by (intro exI [of _ "(ses, w)"]) (simp add: on_edge_def core_dev_def)
qed

lemma handled_status:
  assumes "upd_handle sim_port (fst x) \<lparr>uf_cmd = c, uf_len = word_of_nat (length pl), uf_payload = pl @ junk\<rparr>
       (replicate 252 0) 252 (snd x) = (1, put_at 0 [st] (replicate 252 0), y)" and "\<not> us_boot_pending (fst y)"
  shows "handled x c pl junk [st] y"
  using assms by (simp add: handled_iff put_at_def)

lemma edge_erase:
  assumes edge: "on_edge k x"
  shows "\<exists>y. handled x CMD_ERASE_APP ERASE_MAGIC junk [ST_OK] y \<and>
     (if k \<le> 32 then fallen (snd y) \<and> hw_flash (snd y) =
          replicate ((k - 1) * 128 + 64) 0xFF @ drop ((k - 1) * 128 + 64) (hw_flash (snd x))
      else on_edge (k - 32) y \<and> core_dev y = \<lparr>dev_flash = replicate 4096 0xFF, dev_erased = True\<rparr>)"
proof -
  have pl: "length ERASE_MAGIC \<le> 252"
    by (simp add: ERASE_MAGIC_def)
  let ?w = "erase_loop sim_port 32 0 (snd x)"
  have "handled x CMD_ERASE_APP ERASE_MAGIC junk [ST_OK] ((fst x)\<lparr>us_erased := True\<rparr>, ?w)"
    using edge.handle_erase_eq [OF edge_ready [OF edge pl] refl] edge by (intro handled_status) (simp_all add: on_edge_def)
  moreover have "armed k (snd x)"
    using edge by (simp add: on_edge_def)
  ultimately show ?thesis
    using erase_loop_armed [of k "snd x" 0 32] edge
    by (intro exI [of _ "((fst x)\<lparr>us_erased := True\<rparr>, ?w)"]) (auto simp: Let_def on_edge_def core_dev_def split: if_splits)
qed

lemma edge_write:
  assumes edge: "on_edge k x" and er: "us_erased (fst x)" and pl: "length pl = 130"
    and idx: "unat (u16_from_le_bytes (pl ! 0) (pl ! 1)) = i" "i < 32"
  shows "\<exists>y. handled x CMD_WRITE_PAGE pl junk [ST_OK] y \<and>
     (if k = 1 then fallen (snd y) \<and> hw_flash (snd y) = put_at (i * 128) (take 64 (drop 2 pl)) (hw_flash (snd x))
      else on_edge (k - 1) y \<and> core_dev y = \<lparr>dev_flash = put_at (i * 128) (drop 2 pl) (hw_flash (snd x)), dev_erased = True\<rparr>)"
proof -
  have len: "length pl \<le> 252"
    using pl by simp
  let ?i = "u16_from_le_bytes (pl ! 0) (pl ! 1)"
  let ?w = "sim_write_page ?i (drop 2 (pl @ junk)) (snd x)"
  have "handled x CMD_WRITE_PAGE pl junk [ST_OK] (fst x, ?w)"
    using edge.handle_write_eq [OF edge_ready [OF edge len] refl, of junk] er pl idx edge
    by (intro handled_status) (simp_all add: sim_port_def on_edge_def)
  moreover have "armed k (snd x)"
    using edge by (simp add: on_edge_def)
  ultimately show ?thesis
    using write_armed [of k "snd x" ?i "drop 2 (pl @ junk)"] edge er pl idx
    by (intro exI [of _ "(fst x, ?w)"]) (auto simp: on_edge_def core_dev_def split: if_splits)
qed

section \<open>Transports to a device that may lose power\<close>

text \<open>
  A response that no exchange accepts: an error of the transport, or bytes that are no frame.
\<close>

definition rejected :: "'e + usize \<Rightarrow> bytes \<Rightarrow> bool" where
  "rejected r rsp \<longleftrightarrow> (case r of Err _ \<Rightarrow> True | Ok n \<Rightarrow> \<not> is_ok (decode_padded (take n rsp)))"

lemma rejected_verdict: "rejected r rsp \<Longrightarrow> \<exists>e. verdict r rsp ec = Inl e"
  by (auto simp: rejected_def verdict_def validate_cases is_ok_iff split: sum.splits)

lemma exchange_loop_rejected:
  assumes "\<And>t rx r t' rx'. P t \<Longrightarrow> request t tx rx = (r, t', rx') \<Longrightarrow> rejected r rx' \<and> P t'"
  shows "P t \<Longrightarrow> exchange_loop request left e0 t tx rx ec = (r, t', rx') \<Longrightarrow> P t' \<and> (\<exists>e. r = Err e)"
proof (induction left arbitrary: e0 t rx)
  case (Suc left)
  obtain q t1 rx1 where req: "request t tx rx = (q, t1, rx1)"
    using prod_cases3 by blast
  with assms Suc.prems(1) have "rejected q rx1" "P t1"
    by blast+
  with rejected_verdict [of q rx1 ec] Suc req show ?case
    by (auto simp: exchange_loop_Suc)
qed auto

text \<open>
  The contract: while the device has power, a request runs its handler and the answer comes
  back unless the power went on the way; a device without power is not heard of again.
\<close>

locale cut_transport = transport request
  for request :: "('t, 'e) request_fn" +
  fixes core :: "'t \<Rightarrow> upd_session \<times> sim_hw" and calm :: "'t \<Rightarrow> bool"
  assumes powered: "calm t \<Longrightarrow> \<not> hw_dead (snd (core t)) \<Longrightarrow> \<not> hw_jumped (snd (core t)) \<Longrightarrow> length pl \<le> 252 \<Longrightarrow>
      \<exists>junk. \<forall>out y. handled (core t) c pl junk out y \<longrightarrow> length out + 3 \<le> length rsp \<longrightarrow>
        (\<exists>r t' rsp'. request t (wire c pl) rsp = (r, t', rsp') \<and> core t' = y \<and> calm t'
          \<and> (if hw_dead (snd y) then rejected r rsp'
             else \<exists>n. r = Ok n \<and> n \<le> length rsp' \<and> decode_padded (take n rsp') = Ok \<lparr>cmd = c OR RSP_FLAG, payload = out\<rparr>))"
    and unpowered: "calm t \<Longrightarrow> hw_dead (snd (core t)) \<Longrightarrow> length pl \<le> 252 \<Longrightarrow> request t (wire c pl) rsp = (r, t', rsp') \<Longrightarrow>
      rejected r rsp' \<and> core t' = core t \<and> calm t'"
begin

lemma request_handled:
  assumes calm: "calm t" and edge: "on_edge k (core t)" and pl: "length pl \<le> 252" and fits: "length out + 3 \<le> length rsp"
    and h: "\<And>junk. \<exists>y. handled (core t) c pl junk out y \<and> Q y"
  shows "\<exists>r t' rsp'. request t (wire c pl) rsp = (r, t', rsp') \<and> calm t' \<and> Q (core t')
     \<and> (if hw_dead (snd (core t')) then rejected r rsp'
        else \<exists>n. r = Ok n \<and> n \<le> length rsp' \<and> decode_padded (take n rsp') = Ok \<lparr>cmd = c OR RSP_FLAG, payload = out\<rparr>)"
proof -
  obtain junk where p: "\<And>out y. handled (core t) c pl junk out y \<Longrightarrow> length out + 3 \<le> length rsp \<Longrightarrow>
      \<exists>r t' rsp'. request t (wire c pl) rsp = (r, t', rsp') \<and> core t' = y \<and> calm t'
        \<and> (if hw_dead (snd y) then rejected r rsp'
           else \<exists>n. r = Ok n \<and> n \<le> length rsp' \<and> decode_padded (take n rsp') = Ok \<lparr>cmd = c OR RSP_FLAG, payload = out\<rparr>)"
    using powered [OF calm _ _ pl, of c rsp] edge_alive [OF edge] by blast
  obtain y where "handled (core t) c pl junk out y" "Q y"
    using h by blast
  with p [OF this(1) fits] show ?thesis
    by blast
qed

lemma transact_powered:
  assumes calm: "calm (s_transport s)" and edge: "on_edge k (core (s_transport s))"
    and pl: "length pl \<le> 252" and cap: "cap \<le> 252" and fits: "length rest + 1 \<le> cap" and buf: "length pl + cap + 6 \<le> length (s_buf s)"
    and st: "st \<noteq> ST_BAD_FRAME"
    and h: "\<And>junk. \<exists>y. handled (core (s_transport s)) c pl junk (st # rest) y \<and> on_edge k' y \<and> core_dev y = d"
  shows "\<exists>s'. transact request s c pl cap = (if st = ST_OK then Ok rest else Err (Core (Device st)), s')
     \<and> calm (s_transport s') \<and> on_edge k' (core (s_transport s')) \<and> core_dev (core (s_transport s')) = d
     \<and> length (s_buf s') = length (s_buf s)"
proof -
  let ?rx = "take (cap + 3) (drop (length pl + 3) (s_buf s))" and ?Q = "\<lambda>y. on_edge k' y \<and> core_dev y = d"
  have "length (st # rest) + 3 \<le> length ?rx"
    using fits buf by simp
  from request_handled [OF calm edge pl this, where Q = ?Q, OF h] obtain r t' rsp' where req:
    "request (s_transport s) (wire c pl) ?rx = (r, t', rsp')" "calm t'" "?Q (core t')"
    "if hw_dead (snd (core t')) then rejected r rsp'
     else \<exists>n. r = Ok n \<and> n \<le> length rsp' \<and> decode_padded (take n rsp') = Ok \<lparr>cmd = c OR RSP_FLAG, payload = st # rest\<rparr>"
    by blast
  then obtain n where n: "r = Ok n" "n \<le> length rsp'" "decode_padded (take n rsp') = Ok \<lparr>cmd = c OR RSP_FLAG, payload = st # rest\<rparr>"
    using edge_alive [of k' "core t'"] by auto
  from transact_served [OF req(1) [unfolded n(1)] n(2,3) st pl cap buf] req(2,3) show ?thesis
    by auto
qed

lemma transact_dies:
  assumes calm: "calm (s_transport s)" and edge: "on_edge k (core (s_transport s))"
    and pl: "length pl \<le> 252" and cap: "cap \<le> 252" and fits: "length out \<le> cap" and buf: "length pl + cap + 6 \<le> length (s_buf s)"
    and h: "\<And>junk. \<exists>y. handled (core (s_transport s)) c pl junk out y \<and> fallen (snd y) \<and> hw_flash (snd y) = f"
  shows "\<exists>e s'. transact request s c pl cap = (Err e, s')
     \<and> calm (s_transport s') \<and> fallen (snd (core (s_transport s'))) \<and> hw_flash (snd (core (s_transport s'))) = f
     \<and> length (s_buf s') = length (s_buf s)"
proof -
  let ?rx = "take (cap + 3) (drop (length pl + 3) (s_buf s))" and ?Q = "\<lambda>y. fallen (snd y) \<and> hw_flash (snd y) = f"
  let ?P = "\<lambda>t. calm t \<and> ?Q (core t)"
  have "length out + 3 \<le> length ?rx"
    using fits buf by simp
  from request_handled [OF calm edge pl this, where Q = ?Q, OF h] obtain r0 t0 rsp0 where req:
    "request (s_transport s) (wire c pl) ?rx = (r0, t0, rsp0)" "?P t0" "rejected r0 rsp0"
    by (auto simp: fallen_def)
  have keep: "rejected r rx' \<and> ?P t'" if "?P t" "request t (wire c pl) rx = (r, t', rx')" for t rx r t' rx'
    using unpowered [of t pl c rx r t' rx'] that pl by (auto simp: fallen_def)
  obtain r t' rx' where ex: "exchange request (s_transport s) (wire c pl) ?rx (c OR RSP_FLAG) = (r, t', rx')"
    using prod_cases3 by blast
  have done': "?P t' \<and> (\<exists>e. r = Err e)"
  proof -
    obtain e where "verdict r0 rsp0 (c OR RSP_FLAG) = Inl e"
      using rejected_verdict [OF req(3)] by blast
    then have "exchange_loop request 3 e t0 (wire c pl) rsp0 (c OR RSP_FLAG) = (r, t', rx')"
      using ex req(1) by (simp add: exchange_unfold exchange_loop_numeral)
    then show ?thesis
      by (rule exchange_loop_rejected [where P = ?P, OF _ req(2), rotated]) (rule keep)
  qed
  then obtain e where tr: "transact request s c pl cap = (Err e, s\<lparr>s_transport := t', s_buf := put_at 0 (wire c pl @ rx') (s_buf s)\<rparr>)"
    using ex buf by (auto simp: transact_spec [OF pl cap] answer_def)
  with transact_length [OF pl cap tr] done' show ?thesis
    by auto
qed

end

definition shut :: "sim_hw \<Rightarrow> bool" where
  "shut w \<longleftrightarrow> fallen w \<and> hw_flash w ! 4080 = 0xFF"

lemma shut_invalid: "shut w \<Longrightarrow> \<not> region_valid (hw_flash w)"
  by (intro blank_footer_invalid) (simp_all add: shut_def fallen_def)

text \<open>Before the footer page is complete the first byte of the footer is blank.\<close>

lemma put_half_page: "i < 32 \<Longrightarrow> length f = 4096 \<Longrightarrow> length xs = 64 \<Longrightarrow> put_at (i * 128) xs f ! 4080 = f ! 4080"
  by (simp add: nth_put_at)

lemma put_page_before: "i < 31 \<Longrightarrow> length f = 4096 \<Longrightarrow> length xs = 128 \<Longrightarrow> put_at (i * 128) xs f ! 4080 = f ! 4080"
  by (simp add: nth_put_at)

lemma write_payload_simps:
  assumes "valid_image img" and "img_ps img = 128" and "unat i < img_ap img"
  shows "length (write_payload img i) = 130" "drop 2 (write_payload img i) = page_image img (unat i)"
    "u16_from_le_bytes (write_payload img i ! 0) (write_payload img i ! 1) = i" "length (page_image img (unat i)) = 128"
  using length_write_payload [OF assms(1,3)] assms(2)
  by (simp_all add: write_payload_def u16_to_le_bytes_def)

lemma footer_page_last:
  assumes v: "valid_image img" "img_ap img = 32"
  shows "\<forall>i \<in> set (butlast (pages_list (pages img))). unat i \<noteq> 31"
proof -
  let ?ks = "map unat (pages_list (pages img))"
  have "?ks = filter (\<lambda>k. must_write img (word_of_nat k)) [0..<31] @ [31]"
    using footer_must_write(1) [OF v(1)] v(2) by (simp add: pages_eq upt_rec [of 31] numeral_eq_Suc)
  then have "set (butlast ?ks) \<subseteq> {..<31}"
    by auto
  then show ?thesis
    by (auto simp: map_butlast [symmetric])
qed

text \<open>What an update leaves that loses the power at its \<open>k\<close>-th flash operation.\<close>

definition cut_outcome :: "image \<Rightarrow> nat \<Rightarrow> bytes \<Rightarrow> bool \<Rightarrow> sim_hw \<Rightarrow> bool" where
  "cut_outcome img k old ok w \<longleftrightarrow> \<not> hw_jumped w \<and> \<not> hw_aborted w \<and>
     (if k \<le> 32 then \<not> ok \<and> hw_flash w = replicate ((k - 1) * 128 + 64) 0xFF @ drop ((k - 1) * 128 + 64) old
      else if k \<le> 32 + length (pages_list (pages img)) then \<not> ok \<and> \<not> region_valid (hw_flash w)
      else ok \<and> hw_flash w = region_image img)"

section \<open>The session against a device that loses power\<close>

context cut_transport
begin

text \<open>The page writes with the footer page last, from a region whose footer is blank.\<close>

lemma run_writes_cut:
  assumes v: "valid_image img" "img_ps img = 128" "img_ap img = 32" and idx: "\<forall>i \<in> set idxs. unat i < 32"
    and foot: "\<forall>i \<in> set (butlast idxs). unat i \<noteq> 31"
    and "calm (s_transport s)" and "on_edge k (core (s_transport s))" and "us_erased (fst (core (s_transport s)))"
    and "hw_flash (snd (core (s_transport s))) ! 4080 = 0xFF" and "137 \<le> length (s_buf s)"
  shows "\<exists>r s'. run_script request s (map (\<lambda>i. (CMD_WRITE_PAGE, write_payload img i)) idxs) = (r, s')
     \<and> length (s_buf s') = length (s_buf s) \<and> calm (s_transport s')
     \<and> (if k \<le> length idxs then \<not> is_ok r \<and> shut (snd (core (s_transport s')))
        else r = Ok () \<and> on_edge (k - length idxs) (core (s_transport s')) \<and> core_dev (core (s_transport s')) =
          \<lparr>dev_flash = write_pages img (map unat idxs) (hw_flash (snd (core (s_transport s)))), dev_erased = True\<rparr>)"
  using idx foot assms(6-10)
proof (induction idxs arbitrary: k s)
  case Nil
  then show ?case
    by (auto simp: on_edge_def armed_def core_dev_def)
next
  case (Cons i idxs)
  let ?x = "core (s_transport s)" and ?pl = "write_payload img i"
  have i: "unat i < img_ap img" "unat i < 32"
    using Cons.prems(1) v by simp_all
  note pl = write_payload_simps [OF v(1,2) i(1)]
  have len: "length (hw_flash (snd ?x)) = 4096" and k: "1 \<le> k"
    using Cons.prems(4) by (simp_all add: on_edge_def armed_def)
  have h: "\<exists>y. handled ?x CMD_WRITE_PAGE ?pl junk [ST_OK] y \<and>
     (if k = 1 then fallen (snd y) \<and> hw_flash (snd y) = put_at (unat i * 128) (take 64 (page_image img (unat i))) (hw_flash (snd ?x))
      else on_edge (k - 1) y \<and> core_dev y = \<lparr>dev_flash = put_at (unat i * 128) (page_image img (unat i)) (hw_flash (snd ?x)), dev_erased = True\<rparr>)" for junk
    using edge_write [OF Cons.prems(4,5) pl(1), of "unat i" junk] pl(3) i unfolding pl(2) by simp
  show ?case
  proof (cases "k = 1")
    case True
    then have "\<exists>y. handled ?x CMD_WRITE_PAGE ?pl junk [ST_OK] y \<and> fallen (snd y)
        \<and> hw_flash (snd y) = put_at (unat i * 128) (take 64 (page_image img (unat i))) (hw_flash (snd ?x))" for junk
      using h [of junk] by simp
    from transact_dies [OF Cons.prems(3,4) _ _ _ _ this, of ST_RSP_PAYLOAD] pl(1) Cons.prems(7) obtain e s1 where
      s1: "transact request s CMD_WRITE_PAGE ?pl ST_RSP_PAYLOAD = (Err e, s1)" "calm (s_transport s1)" "fallen (snd (core (s_transport s1)))"
      "hw_flash (snd (core (s_transport s1))) = put_at (unat i * 128) (take 64 (page_image img (unat i))) (hw_flash (snd ?x))"
      "length (s_buf s1) = length (s_buf s)"
      by (auto simp: ST_RSP_PAYLOAD_def)
    then have "shut (snd (core (s_transport s1)))"
      using put_half_page [OF i(2) len] pl(4) Cons.prems(6) by (simp add: shut_def)
    with s1 True show ?thesis
      by simp
  next
    case False
    let ?Q = "\<lambda>y. on_edge (k - 1) y \<and> core_dev y = \<lparr>dev_flash = put_at (unat i * 128) (page_image img (unat i)) (hw_flash (snd ?x)), dev_erased = True\<rparr>"
    have "\<exists>y. handled ?x CMD_WRITE_PAGE ?pl junk [ST_OK] y \<and> ?Q y" for junk
      using h [of junk] False by simp
    from transact_powered [OF Cons.prems(3,4) _ _ _ _ _ this, of ST_RSP_PAYLOAD] pl(1) Cons.prems(7) obtain s1 where
      s1: "transact request s CMD_WRITE_PAGE ?pl ST_RSP_PAYLOAD = (Ok [], s1)" "calm (s_transport s1)" "?Q (core (s_transport s1))"
      "length (s_buf s1) = length (s_buf s)"
      by (auto simp: ST_RSP_PAYLOAD_def ST_OK_def ST_BAD_FRAME_def)
    have d: "hw_flash (snd (core (s_transport s1))) = put_at (unat i * 128) (page_image img (unat i)) (hw_flash (snd ?x))"
      "us_erased (fst (core (s_transport s1)))"
      using s1(3) by (simp_all add: core_dev_def)
    show ?thesis
    proof (cases "idxs = []")
      case True
      with s1 False k v(2) show ?thesis by simp
    next
      case nonempty: False
      then have "unat i < 31"
        using Cons.prems(2) i(2) by simp
      then have "hw_flash (snd (core (s_transport s1))) ! 4080 = 0xFF"
        using put_page_before [OF _ len pl(4)] d(1) Cons.prems(6) by simp
      moreover have "\<forall>j \<in> set (butlast idxs). unat j \<noteq> 31" "\<forall>j \<in> set idxs. unat j < 32"
        using Cons.prems(1,2) nonempty by simp_all
      ultimately obtain r s2 where IH:
        "run_script request s1 (map (\<lambda>i. (CMD_WRITE_PAGE, write_payload img i)) idxs) = (r, s2)"
        "length (s_buf s2) = length (s_buf s1)" "calm (s_transport s2)"
        "if k - 1 \<le> length idxs then \<not> is_ok r \<and> shut (snd (core (s_transport s2)))
         else r = Ok () \<and> on_edge (k - 1 - length idxs) (core (s_transport s2)) \<and> core_dev (core (s_transport s2)) =
          \<lparr>dev_flash = write_pages img (map unat idxs) (hw_flash (snd (core (s_transport s1)))), dev_erased = True\<rparr>"
        using Cons.IH [of s1 "k - 1"] d s1 Cons.prems(7) by auto
      have k': "k - 1 \<le> length idxs \<longleftrightarrow> k \<le> Suc (length idxs)" "k - 1 - length idxs = k - Suc (length idxs)"
        using k by auto
      from IH s1 d(1) v(2) show ?thesis
        unfolding k' by (intro exI [of _ r] exI [of _ s2]) simp
    qed
  qed
qed

text \<open>The command that finds the device's constants, with the cut still ahead.\<close>

lemma info_powered:
  assumes calm: "calm (s_transport s)" and edge: "on_edge k (core (s_transport s))" and buf: "18 \<le> length (s_buf s)"
  shows "\<exists>s1. info request s = (Ok \<lparr>di_proto = PROTO_VERSION, di_bl_version = pi_bl_version sim_port_info,
       di_device_id = pi_device_id sim_port_info, di_page_size = pi_page_size sim_port_info, di_app_pages = pi_app_pages sim_port_info,
       di_app_valid = region_valid (hw_flash (snd (core (s_transport s))))\<rparr>, s1)
     \<and> calm (s_transport s1) \<and> on_edge k (core (s_transport s1)) \<and> core_dev (core (s_transport s1)) = core_dev (core (s_transport s))
     \<and> length (s_buf s1) = length (s_buf s)"
proof -
  have id: "length (pi_device_id sim_port_info) = 4"
    by (simp add: sim_port_info_def)
  let ?rest = "tl (info_payload sim_port_info (region_valid (dev_flash (core_dev (core (s_transport s))))))"
  let ?Q = "\<lambda>y. on_edge k y \<and> core_dev y = core_dev (core (s_transport s))"
  have "\<exists>y. handled (core (s_transport s)) CMD_INFO [] junk (ST_OK # ?rest) y \<and> ?Q y" for junk
    using edge_reads [OF edge _ _ _ _ dev_info] by (simp add: CMD_INFO_def CMD_ERASE_APP_def CMD_WRITE_PAGE_def CMD_BOOT_def)
  from transact_powered [OF calm edge _ _ _ _ _ this, of INFO_RSP_PAYLOAD] length_info [OF id] buf obtain s1 where
    "transact request s CMD_INFO [] INFO_RSP_PAYLOAD = (Ok ?rest, s1)" "calm (s_transport s1)" "?Q (core (s_transport s1))"
    "length (s_buf s1) = length (s_buf s)"
    by (auto simp: INFO_RSP_PAYLOAD_def ST_OK_def ST_BAD_FRAME_def)
  then show ?thesis
    by (auto simp: info_def parse_info_payload [OF id] core_dev_def)
qed

text \<open>The whole update.\<close>

lemma flash_cut:
  assumes v: "valid_image img" "img_ps img = 128" "img_ap img = 32" and calm: "calm (s_transport s)"
    and edge: "on_edge k (core (s_transport s))" and buf: "137 \<le> length (s_buf s)"
  shows "\<exists>r s' prog. flash request s img = (r, s', prog) \<and> calm (s_transport s')
     \<and> (let w = snd (core (s_transport s')) in
        if k \<le> 32 then \<not> is_ok r \<and> fallen w \<and> hw_flash w =
          replicate ((k - 1) * 128 + 64) 0xFF @ drop ((k - 1) * 128 + 64) (hw_flash (snd (core (s_transport s))))
        else if k \<le> 32 + length (pages_list (pages img)) then \<not> is_ok r \<and> shut w
        else r = Ok () \<and> hw_flash w = region_image img \<and> \<not> hw_jumped w \<and> \<not> hw_aborted w)"
proof -
  let ?n = "length (pages_list (pages img))"
  obtain di s1 where di: "info request s = (Ok di, s1)" "gates img di" and s1: "calm (s_transport s1)"
    "on_edge k (core (s_transport s1))" "core_dev (core (s_transport s1)) = core_dev (core (s_transport s))"
    "length (s_buf s1) = length (s_buf s)"
    using info_powered [OF calm edge] buf v(2,3)
    by (auto simp: gates_def sim_port_info_def img_ps_def img_ap_def word_unat_eq_iff)
  let ?run = "run_script request s1 (update_script img)"
  obtain r s' prog where fl: "flash request s img = (r, s', prog)" and run: "?run = (r, s')"
    using flash_script [OF v(1) di] by (metis (no_types, lifting) case_prod_conv prod_cases3)
  have magic: "length ERASE_MAGIC = 4"
    by (simp add: ERASE_MAGIC_def)
  note erase = edge_erase [OF s1(2)]
  show ?thesis
  proof (cases "k \<le> 32")
    case True
    let ?Q = "\<lambda>y. fallen (snd y) \<and> hw_flash (snd y) =
        replicate ((k - 1) * 128 + 64) 0xFF @ drop ((k - 1) * 128 + 64) (hw_flash (snd (core (s_transport s1))))"
    have "\<exists>y. handled (core (s_transport s1)) CMD_ERASE_APP ERASE_MAGIC junk [ST_OK] y \<and> ?Q y" for junk
      using erase [of junk] True by simp
    from transact_dies [OF s1(1,2) _ _ _ _ this, of ST_RSP_PAYLOAD] s1(4) buf magic obtain e s2 where
      "transact request s1 CMD_ERASE_APP ERASE_MAGIC ST_RSP_PAYLOAD = (Err e, s2)" "calm (s_transport s2)" "?Q (core (s_transport s2))"
      by (auto simp: ST_RSP_PAYLOAD_def)
    with run have "r = Err e" "s' = s2"
      by (auto simp: update_script_def)
    with True fl \<open>?Q (core (s_transport s2))\<close> \<open>calm (s_transport s2)\<close> s1(3) show ?thesis
      by (simp add: core_dev_def Let_def)
  next
    case False
    let ?Q = "\<lambda>y. on_edge (k - 32) y \<and> core_dev y = \<lparr>dev_flash = replicate 4096 0xFF, dev_erased = True\<rparr>"
    have "\<exists>y. handled (core (s_transport s1)) CMD_ERASE_APP ERASE_MAGIC junk [ST_OK] y \<and> ?Q y" for junk
      using erase [of junk] False by simp
    from transact_powered [OF s1(1,2) _ _ _ _ _ this, of ST_RSP_PAYLOAD] s1(4) buf magic obtain s2 where
      s2: "transact request s1 CMD_ERASE_APP ERASE_MAGIC ST_RSP_PAYLOAD = (Ok [], s2)" "calm (s_transport s2)" "?Q (core (s_transport s2))"
      "length (s_buf s2) = length (s_buf s1)"
      by (auto simp: ST_RSP_PAYLOAD_def ST_OK_def ST_BAD_FRAME_def)
    have e: "on_edge (k - 32) (core (s_transport s2))" "hw_flash (snd (core (s_transport s2))) = replicate 4096 0xFF"
      "us_erased (fst (core (s_transport s2)))"
      using s2(3) by (simp_all add: core_dev_def)
    have "\<forall>i \<in> set (pages_list (pages img)). unat i < 32"
      using pages_in_region [of _ img] v(3) by auto
    from run_writes_cut [OF v this footer_page_last [OF v(1,3)] s2(2) e(1,3)] e(2) s1(4) s2(4) buf obtain q s3 where
      w: "run_script request s2 (write_script img) = (q, s3)" "length (s_buf s3) = length (s_buf s2)" "calm (s_transport s3)"
      "if k - 32 \<le> ?n then \<not> is_ok q \<and> shut (snd (core (s_transport s3)))
       else q = Ok () \<and> on_edge (k - 32 - ?n) (core (s_transport s3)) \<and> core_dev (core (s_transport s3)) =
          \<lparr>dev_flash = write_pages img (map unat (pages_list (pages img))) (hw_flash (snd (core (s_transport s2)))), dev_erased = True\<rparr>"
      unfolding write_script_def by auto
    have rest: "?run = st_bind (q, s3) (\<lambda>_ s'. run_script request s' [(CMD_VERIFY, verify_payload img)])"
      using s2(1) w(1) by (simp add: update_script_def run_script_append)
    show ?thesis
    proof (cases "k \<le> 32 + ?n")
      case True
      then have "\<not> is_ok q" "shut (snd (core (s_transport s3)))"
        using w(4) by auto
      moreover from this have "r = q" "s' = s3"
        using run rest by (cases q; simp)+
      ultimately show ?thesis
        using False True fl w(3) by (simp add: Let_def)
    next
      case done': False
      then have q: "q = Ok ()" "on_edge (k - 32 - ?n) (core (s_transport s3))"
        "core_dev (core (s_transport s3)) = \<lparr>dev_flash = region_image img, dev_erased = True\<rparr>"
        using w(4) write_all_pages [OF v(1)] v(2,3) e(2) by (auto simp del: diff_diff_left)
      have step: "dev_step sim_port_info (core_dev (core (s_transport s3))) CMD_VERIFY (verify_payload img) =
          ([ST_OK], core_dev (core (s_transport s3)))"
        using dev_verify [OF v(1)] q(3) by simp
      let ?Q = "\<lambda>y. on_edge (k - 32 - ?n) y \<and> core_dev y = core_dev (core (s_transport s3))"
      have "\<exists>y. handled (core (s_transport s3)) CMD_VERIFY (verify_payload img) junk [ST_OK] y \<and> ?Q y" for junk
        using edge_reads [OF q(2) _ _ _ _ step, of junk]
        by (simp add: verify_payload_def CMD_VERIFY_def CMD_ERASE_APP_def CMD_WRITE_PAGE_def CMD_BOOT_def)
      from transact_powered [OF w(3) q(2) _ _ _ _ _ this, of ST_RSP_PAYLOAD] buf w(2) s2(4) s1(4) obtain s4 where
        "transact request s3 CMD_VERIFY (verify_payload img) ST_RSP_PAYLOAD = (Ok [], s4)" "calm (s_transport s4)" "?Q (core (s_transport s4))"
        by (auto simp: verify_payload_def ST_RSP_PAYLOAD_def ST_OK_def ST_BAD_FRAME_def)
      with run rest q(1) have "r = Ok ()" "calm (s_transport s')" "?Q (core (s_transport s'))"
        by auto
      with False done' fl q(3) show ?thesis
        by (simp add: core_dev_def on_edge_def armed_def Let_def)
    qed
  qed
qed

lemma flash_outcome:
  assumes v: "valid_image img" "img_ps img = 128" "img_ap img = 32" and calm: "calm (s_transport s)"
    and edge: "on_edge k (core (s_transport s))" and buf: "137 \<le> length (s_buf s)"
  shows "\<exists>r s' prog. flash request s img = (r, s', prog) \<and> calm (s_transport s')
     \<and> cut_outcome img k (hw_flash (snd (core (s_transport s)))) (is_ok r) (snd (core (s_transport s')))
     \<and> length (hw_flash (snd (core (s_transport s')))) = 4096"
proof -
  from flash_cut [OF assms] obtain r s' prog where f: "flash request s img = (r, s', prog)" "calm (s_transport s')"
    "let w = snd (core (s_transport s')) in
        if k \<le> 32 then \<not> is_ok r \<and> fallen w \<and> hw_flash w =
          replicate ((k - 1) * 128 + 64) 0xFF @ drop ((k - 1) * 128 + 64) (hw_flash (snd (core (s_transport s))))
        else if k \<le> 32 + length (pages_list (pages img)) then \<not> is_ok r \<and> shut w
        else r = Ok () \<and> hw_flash w = region_image img \<and> \<not> hw_jumped w \<and> \<not> hw_aborted w"
    by blast
  let ?w = "snd (core (s_transport s'))"
  have "\<not> hw_jumped ?w" "\<not> hw_aborted ?w" "length (hw_flash ?w) = 4096"
    using f(3) v by (auto simp: Let_def fallen_def shut_def valid_image_def split: if_splits)
  with f shut_invalid [of ?w] show ?thesis
    by (auto simp: cut_outcome_def Let_def split: if_splits)
qed

end

section \<open>Both loopbacks of the harness\<close>

lemma sim_request_handled:
  assumes alive: "\<not> hw_dead (sim_hw s)" "\<not> hw_jumped (sim_hw s)" and pl: "length pl \<le> 252"
    and h: "handled (core_of s) c pl [foldl crc8_step (crc8_step (crc8_step 0 c) (word_of_nat (length pl))) pl] out (ses, w)"
  shows "sim_rust_request (wire c pl) s =
     (if hw_dead w then [] else wire (c OR RSP_FLAG) out, s\<lparr>sim_session := ses, sim_hw := w\<rparr>)"
proof -
  let ?junk = "[foldl crc8_step (crc8_step (crc8_step 0 c) (word_of_nat (length pl))) pl]"
  obtain rest where "upd_handle sim_port (sim_session s) \<lparr>uf_cmd = c, uf_len = word_of_nat (length pl), uf_payload = pl @ ?junk\<rparr>
      (replicate 252 0) 252 (sim_hw s) = (word_of_nat (length out), out @ rest, ses, w)"
    and out: "1 \<le> length out" "length out \<le> 17" "\<not> us_boot_pending ses"
    using h by (auto simp: handled_iff core_of_def)
  from sim_request_plumb [OF alive pl this(1) _ out(1,2)] out(3) show ?thesis
    by (simp add: take_gate_idle Let_def)
qed

lemma dead_silent: "hw_dead (sim_hw s) \<Longrightarrow> length req < 65536 \<Longrightarrow> sim_rust_request req s = ([], s)"
  by (simp add: sim_rust_request_def sim_request_def Let_def)

lemma dead_silent_stream: "hw_dead (sim_hw s) \<Longrightarrow> length bs < 65536 \<Longrightarrow> sim_rust_request_stream bs s = ([], s)"
  by (simp add: sim_rust_request_stream_def sim_request_stream_def)

lemma filler_rejected: "rejected (Ok n) (replicate n 0xFF)"
  using decode_padded_filler [of n] by (simp add: rejected_def)

interpretation sim_cut: cut_transport sim_transport_request core_of "\<lambda>_. True"
proof (intro cut_transport.intro cut_transport_axioms.intro sim_transport.transport_axioms)
  fix t c and pl rsp :: bytes
  assume alive: "\<not> hw_dead (snd (core_of t))" "\<not> hw_jumped (snd (core_of t))" and pl: "length pl \<le> 252"
  let ?junk = "[foldl crc8_step (crc8_step (crc8_step 0 c) (word_of_nat (length pl))) pl]"
  show "\<exists>junk. \<forall>out y. handled (core_of t) c pl junk out y \<longrightarrow> length out + 3 \<le> length rsp \<longrightarrow>
      (\<exists>r t' rsp'. sim_transport_request t (wire c pl) rsp = (r :: 'a + usize, t', rsp') \<and> core_of t' = y \<and> True
        \<and> (if hw_dead (snd y) then rejected r rsp'
           else \<exists>n. r = Ok n \<and> n \<le> length rsp' \<and> decode_padded (take n rsp') = Ok \<lparr>cmd = c OR RSP_FLAG, payload = out\<rparr>))"
  proof (intro exI [of _ ?junk] allI impI)
    fix out y
    assume h: "handled (core_of t) c pl ?junk out y" and fits: "length out + 3 \<le> length rsp"
    obtain ses w where y: "y = (ses, w)" by fastforce
    note req = sim_request_handled [OF _ _ pl h [unfolded y], OF alive [unfolded core_of_def snd_conv]]
    have "length out \<le> 17"
      using h by (simp add: handled_iff)
    then show "\<exists>r t' rsp'. sim_transport_request t (wire c pl) rsp = (r :: 'a + usize, t', rsp') \<and> core_of t' = y \<and> True
        \<and> (if hw_dead (snd y) then rejected r rsp'
           else \<exists>n. r = Ok n \<and> n \<le> length rsp' \<and> decode_padded (take n rsp') = Ok \<lparr>cmd = c OR RSP_FLAG, payload = out\<rparr>)"
      using req fits by (simp add: sim_transport_request_def Let_def min_def y core_of_def filler_rejected)
  qed
next
  fix t t' c pl rsp rsp' and r :: "'a + usize"
  assume dead: "hw_dead (snd (core_of t))" and pl: "length pl \<le> 252" and req: "sim_transport_request t (wire c pl) rsp = (r, t', rsp')"
  then show "rejected r rsp' \<and> core_of t' = core_of t \<and> True"
    using dead_silent [of t "wire c pl"] by (auto simp: core_of_def sim_transport_request_def filler_rejected)
qed

interpretation sim_stream_cut: cut_transport sim_stream_request "\<lambda>t. core_of (st_sim t)" "\<lambda>t. link_idle (sim_link (st_sim t))"
proof (intro cut_transport.intro cut_transport_axioms.intro)
  show "transport sim_stream_request" ..
next
  fix t :: sim_stream and c and pl rsp :: bytes
  let ?s = "st_sim t"
  assume idle: "link_idle (sim_link ?s)" and alive: "\<not> hw_dead (snd (core_of ?s))" "\<not> hw_jumped (snd (core_of ?s))"
    and pl: "length pl \<le> 252"
  from sim_stream_plumb [OF alive [unfolded core_of_def snd_conv] idle pl, of c] obtain l' junk where idle': "link_idle l'"
    and plumb: "\<forall>out ses w. handled (core_of ?s) c pl junk out (ses, w) \<longrightarrow> sim_rust_request_stream (SYNC # wire c pl) ?s =
         (if hw_dead w then [] else SYNC # wire (c OR RSP_FLAG) out, ?s\<lparr>sim_link := l', sim_session := ses, sim_hw := w\<rparr>)"
    by (elim exE conjE)
  show "\<exists>junk. \<forall>out y. handled (core_of ?s) c pl junk out y \<longrightarrow> length out + 3 \<le> length rsp \<longrightarrow>
      (\<exists>r t' rsp'. sim_stream_request t (wire c pl) rsp = (r, t', rsp') \<and> core_of (st_sim t') = y \<and> link_idle (sim_link (st_sim t'))
        \<and> (if hw_dead (snd y) then rejected r rsp'
           else \<exists>n. r = Ok n \<and> n \<le> length rsp' \<and> decode_padded (take n rsp') = Ok \<lparr>cmd = c OR RSP_FLAG, payload = out\<rparr>))"
  proof (intro exI [of _ junk] allI impI)
    fix out y
    assume h: "handled (core_of ?s) c pl junk out y" and fits: "length out + 3 \<le> length rsp"
    obtain ses w where y: "y = (ses, w)" by fastforce
    have out: "length out \<le> 252"
      using h by (simp add: handled_iff)
    have "sim_rust_request_stream (SYNC # wire c pl) ?s =
        (if hw_dead w then [] else SYNC # wire (c OR RSP_FLAG) out, ?s\<lparr>sim_link := l', sim_session := ses, sim_hw := w\<rparr>)"
      using plumb h y by blast
    then show "\<exists>r t' rsp'. sim_stream_request t (wire c pl) rsp = (r, t', rsp') \<and> core_of (st_sim t') = y \<and> link_idle (sim_link (st_sim t'))
        \<and> (if hw_dead (snd y) then rejected r rsp'
           else \<exists>n. r = Ok n \<and> n \<le> length rsp' \<and> decode_padded (take n rsp') = Ok \<lparr>cmd = c OR RSP_FLAG, payload = out\<rparr>)"
      using idle' fits out
      by (simp add: sim_stream_request_def lag_pushes_hunt Let_def y core_of_def rejected_def stream_scan_answer
          del: stream_scan.simps(2))
  qed
next
  fix t t' :: sim_stream and c pl rsp rsp' r
  assume "link_idle (sim_link (st_sim t))" "hw_dead (snd (core_of (st_sim t)))" "length pl \<le> 252"
    "sim_stream_request t (wire c pl) rsp = (r, t', rsp')"
  then show "rejected r rsp' \<and> core_of (st_sim t') = core_of (st_sim t) \<and> link_idle (sim_link (st_sim t'))"
    using dead_silent_stream [of "st_sim t" "SYNC # wire c pl"]
    by (auto simp: core_of_def sim_stream_request_def lag_pushes_hunt rejected_def)
qed

section \<open>A power cycle\<close>

text \<open>The power comes back: the device starts again on the flash it has.\<close>

locale power_cycle = cut_transport request core calm + device_transport request dev up sim_port_info
  for request :: "('t, 'e) request_fn" and core calm and dev up +
  fixes repower :: "'t \<Rightarrow> 't"
  assumes repowered: "calm t \<Longrightarrow> \<not> hw_aborted (snd (core t)) \<Longrightarrow> length (hw_flash (snd (core t))) = 4096 \<Longrightarrow>
      up (repower t) \<and> dev_flash (dev (repower t)) = hw_flash (snd (core t))"
begin

lemma cut_then_retry:
  assumes img: "from_bin bs 128 32 = Ok img" and calm: "calm t" and edge: "on_edge k (core t)" and buf: "137 \<le> length buf"
  shows "\<exists>r s1 prog1 s2 prog2. flash request (session_new t buf) img = (r, s1, prog1)
     \<and> cut_outcome img k (hw_flash (snd (core t))) (is_ok r) (snd (core (into_transport s1)))
     \<and> flash request (session_new (repower (into_transport s1)) buf) img = (Ok (), s2, prog2)
     \<and> dev_flash (dev (into_transport s2)) = region_image img"
proof -
  have v: "valid_image img" "img_ps img = 128" "img_ap img = 32" "matches img sim_port_info"
    using from_bin_valid [OF img] by (simp_all add: img_ps_def img_ap_def matches_def sim_port_info_def)
  from flash_outcome [OF v(1-3), of "session_new t buf" k] calm edge buf obtain r s1 prog1 where
    f: "flash request (session_new t buf) img = (r, s1, prog1)"
    "cut_outcome img k (hw_flash (snd (core t))) (is_ok r) (snd (core (s_transport s1)))" "calm (s_transport s1)"
    "length (hw_flash (snd (core (s_transport s1)))) = 4096"
    by (auto simp: session_new_def)
  then have "up (repower (s_transport s1))" "length (dev_flash (dev (repower (s_transport s1)))) = 4096"
    using repowered [of "s_transport s1"] by (auto simp: cut_outcome_def)
  with flash_succeeds [OF v(1,4), of "session_new (repower (s_transport s1)) buf"] v(2,3) buf obtain s2 prog2 where
    "flash request (session_new (repower (s_transport s1)) buf) img = (Ok (), s2, prog2)" "dev_flash (dev (s_transport s2)) = region_image img"
    by (auto simp: session_new_def)
  with f show ?thesis
    by (auto simp: into_transport_def)
qed

end

lemma reset_up:
  assumes "\<not> hw_aborted (sim_hw s)" and "length (hw_flash (sim_hw s)) = 4096"
  shows "sim_up (sim_reset True s)" "hw_flash (sim_hw (sim_reset True s)) = hw_flash (sim_hw s)"
  using assms by (simp_all add: sim_reset_def sim_up_def healthy_def upd_init_def)

lemma reset_idle: "length (lk_buf (sim_link s)) = 255 \<Longrightarrow> link_idle (sim_link (sim_reset b s))"
  using link_init_inv [of "lk_buf (sim_link s)"] by (simp add: sim_reset_def link_idle_def, simp add: link_init_def)

interpretation sim_power: power_cycle sim_transport_request core_of "\<lambda>_. True" sim_dev sim_up "sim_reset True"
proof (intro power_cycle.intro power_cycle_axioms.intro sim_cut.cut_transport_axioms sim_link_if.device_transport_axioms)
  show "True \<Longrightarrow> \<not> hw_aborted (snd (core_of t)) \<Longrightarrow> length (hw_flash (snd (core_of t))) = 4096 \<Longrightarrow>
      sim_up (sim_reset True t) \<and> dev_flash (sim_dev (sim_reset True t)) = hw_flash (snd (core_of t))" for t
    using reset_up [of t] by (simp add: core_of_def sim_dev_def)
qed

interpretation sim_stream_power: power_cycle sim_stream_request "\<lambda>t. core_of (st_sim t)" "\<lambda>t. link_idle (sim_link (st_sim t))"
  "\<lambda>t. sim_dev (st_sim t)" "\<lambda>t. sim_up (st_sim t) \<and> link_idle (sim_link (st_sim t))" "\<lambda>t. t\<lparr>st_sim := sim_reset True (st_sim t)\<rparr>"
proof (intro power_cycle.intro power_cycle_axioms.intro sim_stream_cut.cut_transport_axioms sim_stream_if.device_transport_axioms)
  fix t :: sim_stream
  assume "link_idle (sim_link (st_sim t))" "\<not> hw_aborted (snd (core_of (st_sim t)))" "length (hw_flash (snd (core_of (st_sim t)))) = 4096"
  then show "(sim_up (st_sim (t\<lparr>st_sim := sim_reset True (st_sim t)\<rparr>)) \<and> link_idle (sim_link (st_sim (t\<lparr>st_sim := sim_reset True (st_sim t)\<rparr>))))
      \<and> dev_flash (sim_dev (st_sim (t\<lparr>st_sim := sim_reset True (st_sim t)\<rparr>))) = hw_flash (snd (core_of (st_sim t)))"
    using reset_up [of "st_sim t"] reset_idle [of "st_sim t"] by (simp add: core_of_def sim_dev_def link_idle_def)
qed

lemma powercut_edge:
  assumes "sim_up s" and "hw_ops (sim_hw s) = 0" and "n \<noteq> 0"
  shows "on_edge (unat n) (core_of (sim_powercut_after n s))" "hw_flash (sim_hw (sim_powercut_after n s)) = hw_flash (sim_hw s)"
    "sim_link (sim_powercut_after n s) = sim_link s"
  using assms by (simp_all add: on_edge_def armed_def sim_powercut_after_def sim_up_def healthy_def unat_gt_0 Suc_le_eq core_of_def)

section \<open>Properties\<close>

text \<open>
  C4: a power cut never leaves a bootable half-update. Let the power go at the \<open>n\<close>-th flash
  operation of an update, for any \<open>n\<close>, any old region and any image that fits. If that is
  one of the 32 page erases, \<open>flash\<close> fails and the region is the old one with its front
  erased; if it is a page write, \<open>flash\<close> fails and the boot gate rejects the region; if
  the update needs fewer operations, it succeeds with the complete region. The device
  neither jumps nor touches anything outside the region, and after the power is back the
  update can be run again and succeeds.
\<close>

theorem power_cut_safe:
  assumes "from_bin bs 128 32 = Ok img" and "137 \<le> length buf" and "sim_up s0" and "hw_ops (sim_hw s0) = 0" and "n \<noteq> 0"
  shows "\<exists>r s1 prog1 s2 prog2.
       flash sim_transport_request (session_new (sim_powercut_after n s0) buf) img = (r :: 'e error + unit, s1, prog1)
     \<and> (let w = sim_hw (into_transport s1); old = hw_flash (sim_hw s0) in
        \<not> hw_jumped w \<and> \<not> hw_aborted w \<and>
        (if unat n \<le> 32 then \<not> is_ok r \<and>
           hw_flash w = replicate ((unat n - 1) * 128 + 64) 0xFF @ drop ((unat n - 1) * 128 + 64) old
         else if unat n \<le> 32 + length (pages_list (pages img)) then \<not> is_ok r \<and> \<not> region_valid (hw_flash w)
         else r = Ok () \<and> hw_flash w = region_image img))
     \<and> flash sim_transport_request (session_new (sim_reset True (into_transport s1)) buf) img = (Ok () :: 'e error + unit, s2, prog2)
     \<and> hw_flash (sim_hw (into_transport s2)) = region_image img"
  using sim_power.cut_then_retry [OF assms(1) TrueI powercut_edge(1) [OF assms(3-5)] assms(2)] powercut_edge(2) [OF assms(3-5)]
  by (auto simp: cut_outcome_def core_of_def sim_dev_def Let_def is_ok_iff split: if_splits)

theorem power_cut_safe_witness:
  "\<exists>r s1 prog1. flash sim_transport_request (session_new (sim_powercut_after 33 (sim_acquire fresh_sim)) (replicate 137 0)) blinky
       = (r :: unit error + unit, s1, prog1)
     \<and> \<not> is_ok r \<and> \<not> region_valid (hw_flash (sim_hw (into_transport s1)))"
proof -
  have up: "sim_up (sim_acquire fresh_sim)" "hw_ops (sim_hw (sim_acquire fresh_sim)) = 0"
    by (simp_all add: sim_acquire_def sim_reset_def sim_up_def healthy_def upd_init_def fresh_sim_def)
  have v: "valid_image blinky"
    using from_bin_valid [OF blinky_from_bin] by simp
  then have "1 \<le> length (pages_list (pages blinky))"
    using pages_last [of blinky] by (simp add: Suc_le_eq)
  with power_cut_safe [where ?'e = unit, OF blinky_from_bin _ up, of "replicate 137 0" 33] show ?thesis
    by (auto simp: Let_def)
qed

end
