(* ===== verification/Rust_Str.thy ===== *)
theory Rust_Str
  imports Prelude
begin

text \<open>
  The string operations of Rust's standard library that the command line tool uses. A
  \<open>&str\<close> is its UTF-8 encoding, one character of the list per byte, as \<open>str::len\<close> and
  \<open>str::as_bytes\<close> see it; a pattern that is a single ASCII character is then a byte. Only
  the whitespace tests look at whole code points, and they are written out on the encodings
  of the Unicode property \<open>White_Space\<close>.
\<close>

section \<open>Whitespace\<close>

text \<open>The length of the encoded whitespace character at the front of some bytes, 0 for none.\<close>

fun ws_codes :: "nat list \<Rightarrow> nat" where
  "ws_codes [] = 0"
| "ws_codes (a # s) =
     (if 9 \<le> a \<and> a \<le> 13 \<or> a = 32 then 1
      else case s of
        [] \<Rightarrow> 0
      | b # s \<Rightarrow>
          if a = 0xC2 \<and> (b = 0x85 \<or> b = 0xA0) then 2
          else case s of
            [] \<Rightarrow> 0
          | c # _ \<Rightarrow>
              if a = 0xE1 \<and> b = 0x9A \<and> c = 0x80
                 \<or> a = 0xE2 \<and> b = 0x80 \<and> (0x80 \<le> c \<and> c \<le> 0x8A \<or> c = 0xA8 \<or> c = 0xA9 \<or> c = 0xAF)
                 \<or> a = 0xE2 \<and> b = 0x81 \<and> c = 0x9F \<or> a = 0xE3 \<and> b = 0x80 \<and> c = 0x80
              then 3 else 0)"

definition ws_start :: "string \<Rightarrow> nat" where
  "ws_start s = ws_codes (map of_char (take 3 s))"

text \<open>The same at the end: a leading byte never is a continuation byte, so the shortest match is the last character.\<close>

definition ws_end :: "string \<Rightarrow> nat" where
  "ws_end s =
     (if ws_start (drop (length s - 1) s) = 1 then 1
      else if ws_start (drop (length s - 2) s) = 2 then 2
      else if ws_start (drop (length s - 3) s) = 3 then 3 else 0)"

lemma ws_codes_le: "ws_codes s \<le> length s"
  by (cases s; cases "tl s"; cases "tl (tl s)") auto

lemma ws_start_le: "ws_start s \<le> length s"
  using ws_codes_le [of "map of_char (take 3 s)"] by (simp add: ws_start_def)

lemma ws_end_le: "ws_end s \<le> length s"
  using ws_start_le [of "drop (length s - 1) s"] ws_start_le [of "drop (length s - 2) s"] ws_start_le [of "drop (length s - 3) s"]
  by (auto simp: ws_end_def)

function trim_start :: "string \<Rightarrow> string" where
  "trim_start s = (if ws_start s = 0 then s else trim_start (drop (ws_start s) s))"
  by pat_completeness auto
termination
proof (relation "measure length")
  fix s :: string
  assume "ws_start s \<noteq> 0"
  then show "(drop (ws_start s) s, s) \<in> measure length"
    using ws_start_le [of s] by simp
qed simp

function trim_end :: "string \<Rightarrow> string" where
  "trim_end s = (if ws_end s = 0 then s else trim_end (take (length s - ws_end s) s))"
  by pat_completeness auto
termination
proof (relation "measure length")
  fix s :: string
  assume "ws_end s \<noteq> 0"
  then show "(take (length s - ws_end s) s, s) \<in> measure length"
    using ws_end_le [of s] by simp
qed simp

declare trim_start.simps [simp del] trim_end.simps [simp del]

definition trim :: "string \<Rightarrow> string" where
  "trim s = trim_end (trim_start s)"

text \<open>\<open>s.chars().filter(|c| !c.is_whitespace()).collect()\<close>, and \<open>s.chars().any(char::is_whitespace)\<close>.\<close>

function remove_ws :: "string \<Rightarrow> string" where
  "remove_ws [] = []"
| "remove_ws (c # s) =
     (if ws_start (c # s) = 0 then c # remove_ws s else remove_ws (drop (ws_start (c # s)) (c # s)))"
  by pat_completeness auto
termination
proof (relation "measure length")
  fix c :: char and s :: string
  assume "ws_start (c # s) \<noteq> 0"
  then show "(drop (ws_start (c # s)) (c # s), c # s) \<in> measure length"
    using ws_start_le [of "c # s"] by simp
qed simp_all

fun any_ws :: "string \<Rightarrow> bool" where
  "any_ws [] = False"
| "any_ws (c # s) \<longleftrightarrow> ws_start (c # s) \<noteq> 0 \<or> any_ws s"

section \<open>Splitting\<close>

abbreviation newline :: char where
  "newline \<equiv> CHR 0x0A"

abbreviation carriage :: char where
  "carriage \<equiv> CHR 0x0D"

text \<open>\<open>split_inclusive\<close>: pieces with their terminator, the last one without if it is not empty.\<close>

fun split_inclusive :: "char \<Rightarrow> string \<Rightarrow> string \<Rightarrow> string list" where
  "split_inclusive t cur [] = (if cur = [] then [] else [cur])"
| "split_inclusive t cur (c # s) =
     (if c = t then (cur @ [c]) # split_inclusive t [] s else split_inclusive t (cur @ [c]) s)"

definition strip_suffix :: "char \<Rightarrow> string \<Rightarrow> string option" where
  "strip_suffix c s = (if s \<noteq> [] \<and> last s = c then Some (butlast s) else None)"

text \<open>\<open>str::lines\<close>: the newline goes, and a carriage return right before it.\<close>

definition strip_line :: "string \<Rightarrow> string" where
  "strip_line line =
     (case strip_suffix newline line of
        None \<Rightarrow> line
      | Some l \<Rightarrow> (case strip_suffix carriage l of None \<Rightarrow> l | Some l' \<Rightarrow> l'))"

definition lines :: "string \<Rightarrow> string list" where
  "lines text' = map strip_line (split_inclusive newline [] text')"

text \<open>\<open>s.split(c)\<close>, \<open>s.find(c)\<close> and \<open>s.strip_prefix(p)\<close>.\<close>

fun split_on :: "char \<Rightarrow> string \<Rightarrow> string \<Rightarrow> string list" where
  "split_on t cur [] = [cur]"
| "split_on t cur (c # s) = (if c = t then cur # split_on t [] s else split_on t (cur @ [c]) s)"

fun find_char :: "char \<Rightarrow> string \<Rightarrow> nat option" where
  "find_char c [] = None"
| "find_char c (x # s) = (if x = c then Some 0 else map_option Suc (find_char c s))"

fun strip_prefix :: "string \<Rightarrow> string \<Rightarrow> string option" where
  "strip_prefix [] s = Some s"
| "strip_prefix (p # ps) [] = None"
| "strip_prefix (p # ps) (c # s) = (if p = c then strip_prefix ps s else None)"

section \<open>Numbers\<close>

definition to_digit :: "nat \<Rightarrow> char \<Rightarrow> nat option" where
  "to_digit radix c =
     (let n = of_char c :: nat;
          d = (if 48 \<le> n \<and> n \<le> 57 then n - 48
               else if 97 \<le> n \<and> n \<le> 122 then n - 87
               else if 65 \<le> n \<and> n \<le> 90 then n - 55 else radix)
      in if d < radix then Some d else None)"

datatype int_error = IntEmpty | InvalidDigit | PosOverflow

text \<open>The digit loop of \<open>from_str_radix\<close>: checked multiplication, the digit, checked addition.\<close>

fun radix_digits :: "nat \<Rightarrow> nat \<Rightarrow> nat \<Rightarrow> string \<Rightarrow> int_error + nat" where
  "radix_digits radix bound acc [] = Ok acc"
| "radix_digits radix bound acc (c # s) =
     (case to_digit radix c of
        None \<Rightarrow> Err InvalidDigit
      | Some d \<Rightarrow>
          if bound \<le> acc * radix then Err PosOverflow
          else if bound \<le> acc * radix + d then Err PosOverflow
          else radix_digits radix bound (acc * radix + d) s)"

text \<open>\<open>from_str_radix\<close> of an unsigned type with values below \<open>bound\<close>: one leading plus sign is accepted.\<close>

definition from_str_radix :: "nat \<Rightarrow> nat \<Rightarrow> string \<Rightarrow> int_error + nat" where
  "from_str_radix radix bound s =
     (if s = [] then Err IntEmpty
      else if s = ''+'' \<or> s = ''-'' then Err InvalidDigit
      else if hd s = CHR ''+'' then radix_digits radix bound 0 (tl s)
      else radix_digits radix bound 0 s)"

text \<open>\<open>str::from_utf8\<close> on two bytes: two ASCII characters or one two-byte character.\<close>

definition utf8_pair :: "char \<Rightarrow> char \<Rightarrow> bool" where
  "utf8_pair a b \<longleftrightarrow>
     (let m = of_char a :: nat; n = of_char b :: nat in
      m < 0x80 \<and> n < 0x80 \<or> 0xC2 \<le> m \<and> m \<le> 0xDF \<and> 0x80 \<le> n \<and> n \<le> 0xBF)"

section \<open>Formatting\<close>

text \<open>\<open>{}\<close> of an unsigned number, and \<open>{:#04x}\<close>.\<close>

fun dec :: "nat \<Rightarrow> string" where
  "dec n = (if n < 10 then [char_of (48 + n)] else dec (n div 10) @ [char_of (48 + n mod 10)])"

definition lower_digit :: "nat \<Rightarrow> char" where
  "lower_digit n = char_of (if n < 10 then 48 + n else 87 + n)"

fun lower_hex :: "nat \<Rightarrow> string" where
  "lower_hex n = (if n < 16 then [lower_digit n] else lower_hex (n div 16) @ [lower_digit (n mod 16)])"

definition hex_04 :: "nat \<Rightarrow> string" where
  "hex_04 n = ''0x'' @ (if n < 16 then ''0'' else []) @ lower_hex n"

declare dec.simps [simp del] lower_hex.simps [simp del]

section \<open>Paths\<close>

text \<open>
  \<open>Path::file_name\<close> and \<open>Path::extension\<close> on Unix paths: empty and \<open>.\<close> components do not
  count, \<open>..\<close> is no name, and a name has an extension behind its last dot unless that dot
  is the first character.
\<close>

definition path_file_name :: "string \<Rightarrow> string option" where
  "path_file_name p =
     (let comps = filter (\<lambda>c. c \<noteq> [] \<and> c \<noteq> ''.'') (split_on CHR ''/'' [] p) in
      if comps = [] \<or> last comps = ''..'' then None else Some (last comps))"

definition path_extension :: "string \<Rightarrow> string option" where
  "path_extension p =
     (case path_file_name p of
        None \<Rightarrow> None
      | Some name \<Rightarrow>
          let parts = split_on CHR ''.'' [] name in
          if length parts = 1 \<or> (length parts = 2 \<and> hd parts = []) then None else Some (last parts))"

definition ascii_lower :: "char \<Rightarrow> char" where
  "ascii_lower c = (let n = of_char c :: nat in if 65 \<le> n \<and> n \<le> 90 then char_of (n + 32) else c)"

definition eq_ignore_ascii_case :: "string \<Rightarrow> string \<Rightarrow> bool" where
  "eq_ignore_ascii_case a b \<longleftrightarrow> map ascii_lower a = map ascii_lower b"

section \<open>Hexadecimal digits\<close>

definition hex_digit :: "nat \<Rightarrow> char" where
  "hex_digit n = char_of (if n < 10 then 48 + n else 55 + n)"

definition hex_byte :: "u8 \<Rightarrow> string" where
  "hex_byte b = [hex_digit (unat b div 16), hex_digit (unat b mod 16)]"

definition hex_bytes :: "bytes \<Rightarrow> string" where
  "hex_bytes bs = concat (map hex_byte bs)"

lemma hex_bytes_simps [simp]:
  "hex_bytes [] = []" "hex_bytes (b # bs) = hex_byte b @ hex_bytes bs" "hex_bytes (xs @ ys) = hex_bytes xs @ hex_bytes ys"
  by (simp_all add: hex_bytes_def)

lemma of_char_hex_digit: "n < 16 \<Longrightarrow> of_char (hex_digit n) = (if n < 10 then 48 + n else 55 + n)"
  by (simp add: hex_digit_def)

lemma to_digit_hex_digit [simp]: "n < 16 \<Longrightarrow> to_digit 16 (hex_digit n) = Some n"
  by (simp add: to_digit_def of_char_hex_digit Let_def)

lemma from_str_radix_hex_byte [simp]: "from_str_radix 16 256 (hex_byte b) = Ok (unat b)"
proof -
  have d: "unat b div 16 < 16" "unat b mod 16 < 16"
    using unat_u8_lt [of b] by auto
  then have "hex_digit (unat b div 16) \<noteq> CHR ''+''"
    using of_char_hex_digit [OF d(1)] by (auto split: if_splits)
  then show ?thesis
    using d unat_u8_lt [of b] by (simp add: from_str_radix_def hex_byte_def)
qed

lemma utf8_pair_digits: "m < 16 \<Longrightarrow> n < 16 \<Longrightarrow> utf8_pair (hex_digit m) (hex_digit n)"
  by (simp add: utf8_pair_def of_char_hex_digit Let_def)

lemma utf8_pair_hex [simp]: "utf8_pair (hex_digit (unat b div 16)) (hex_digit (unat b mod 16))" for b :: u8
  using unat_u8_lt [of b] by (intro utf8_pair_digits) auto

lemma length_hex_bytes [simp]: "length (hex_bytes bs) = 2 * length bs"
  by (induction bs) (simp_all add: hex_byte_def)

section \<open>Lemmas on lines and trimming\<close>

lemma split_inclusive_line:
  "c \<notin> set s \<Longrightarrow> split_inclusive c cur (s @ c # rest) = (cur @ s @ [c]) # split_inclusive c [] rest"
  by (induction s arbitrary: cur) auto

lemma split_inclusive_append:
  "split_inclusive c cur (s @ [c] @ rest) = split_inclusive c cur (s @ [c]) @ split_inclusive c [] rest"
  by (induction s arbitrary: cur) simp_all

lemma lines_line:
  assumes "newline \<notin> set s" and "s = [] \<or> last s \<noteq> carriage"
  shows "lines (s @ newline # rest) = s # lines rest"
  using assms by (auto simp: lines_def split_inclusive_line strip_line_def strip_suffix_def butlast_append)

lemma lines_append: "lines (s @ newline # rest) = lines (s @ [newline]) @ lines rest"
  using split_inclusive_append [of newline "[]" s rest] by (simp add: lines_def)

text \<open>A character that is neither whitespace nor part of an encoded one.\<close>

definition plain :: "char \<Rightarrow> bool" where
  "plain c \<longleftrightarrow> 32 < (of_char c :: nat) \<and> (of_char c :: nat) < 0x80"

lemma ws_codes_plain: "32 < a \<Longrightarrow> a < 0x80 \<Longrightarrow> ws_codes (a # s) = 0"
  by (auto split: list.split)

lemma ws_start_plain [simp]: "plain c \<Longrightarrow> ws_start (c # s) = 0"
  using ws_codes_plain by (simp add: ws_start_def plain_def numeral_3_eq_3)

lemma any_ws_plain: "list_all plain s \<Longrightarrow> \<not> any_ws s"
  by (induction s) simp_all

lemma ws_codes_2: "ws_codes [a, b] = 2 \<Longrightarrow> 0x80 \<le> b"
  by (auto split: if_splits)

lemma ws_codes_3: "ws_codes [a, b, c] = 3 \<Longrightarrow> 0x80 \<le> c"
  by (auto split: if_splits)

lemma trim_plain:
  assumes "s \<noteq> []" and "plain (hd s)" and "plain (last s)"
  shows "trim s = s"
proof -
  have start: "trim_start s = s"
    using assms by (cases s) (simp_all add: trim_start.simps)
  obtain t c where s: "s = t @ [c]" "plain c"
    using assms by (metis append_butlast_last_id)
  have c: "(of_char c :: nat) < 0x80"
    using s(2) by (simp add: plain_def)
  have e1: "ws_start (drop (length s - 1) s) = 0"
    using s by simp
  have e2: "ws_start (drop (length s - 2) s) \<noteq> 2"
  proof (cases "t = []")
    case False
    then obtain t' b where "t = t' @ [b]"
      by (metis append_butlast_last_id)
    then have "drop (length s - 2) s = [b, c]"
      using s by simp
    with c show ?thesis
      using ws_codes_2 [of "of_char b" "of_char c"] by (auto simp: ws_start_def)
  qed (use s e1 in simp)
  have e3: "ws_start (drop (length s - 3) s) \<noteq> 3"
  proof (cases "2 \<le> length t")
    case True
    then obtain t' a b where "t = t' @ [a, b]"
      by (metis append_assoc append_Cons append_Nil append_butlast_last_id length_butlast list.size(3) not_less_eq_eq numeral_2_eq_2
          diff_Suc_1 le_zero_eq length_append_singleton nat.simps(3) Suc_le_mono)
    then have "drop (length s - 3) s = [a, b, c]"
      using s by simp
    with c show ?thesis
      using ws_codes_3 [of "of_char a" "of_char b" "of_char c"] by (auto simp: ws_start_def)
  next
    case False
    then have "length (drop (length s - 3) s) < 3"
      using s by simp
    with ws_start_le [of "drop (length s - 3) s"] show ?thesis by linarith
  qed
  show ?thesis
    using e1 e2 e3 start by (simp add: trim_def trim_end.simps ws_end_def)
qed

lemma hex_digit_plain: "n < 16 \<Longrightarrow> plain (hex_digit n)"
  by (simp add: plain_def of_char_hex_digit)

lemma plain_hex_bytes: "c \<in> set (hex_bytes bs) \<Longrightarrow> plain c"
proof (induction bs)
  case (Cons b bs)
  have "unat b div 16 < 16" "unat b mod 16 < 16"
    using unat_u8_lt [of b] by auto
  with Cons show ?case
    by (auto simp: hex_byte_def hex_digit_plain)
qed simp

lemma plain_not_break: "plain c \<Longrightarrow> c \<noteq> newline \<and> c \<noteq> carriage"
  by (auto simp: plain_def)

lemma plain_colon [simp]: "plain CHR '':''"
  by (simp add: plain_def)

end
