(* ===== verification/Cli_Transport.thy ===== *)
theory Cli_Transport
  imports I2c_Transport Spi_Transport Softuart_Transport Rust_Str
begin

text \<open>
  \<^verbatim>\<open>updater-cli/src/transport.rs\<close>: the Linux backends, the poll budget policy of
  \<open>DynTransport\<close> and the opening of a wire. The operating system (device files, termios,
  ioctls, the clock) is a record of parameters over its state \<open>'w\<close>, with handles \<open>'f\<close>.
\<close>

section \<open>Budgets and specifications\<close>

record poll_budget =
  pb_attempts :: u32
  pb_delay_ms :: u32

datatype transport_spec =
    SpecI2c string u16
  | SpecUart string u32
  | SpecSpi string u32
  | SpecGpio string u32 u32

definition SUPPORTED_BAUDS :: "u32 list" where
  "SUPPORTED_BAUDS = [9600, 19200, 38400, 57600, 115200, 230400]"

datatype baud_rate = B9600 | B19200 | B38400 | B57600 | B115200 | B230400

definition baud_constant :: "u32 \<Rightarrow> baud_rate option" where
  "baud_constant baud =
     (if baud = 9600 then Some B9600
      else if baud = 19200 then Some B19200
      else if baud = 38400 then Some B38400
      else if baud = 57600 then Some B57600
      else if baud = 115200 then Some B115200
      else if baud = 230400 then Some B230400
      else None)"

definition u32_saturating_mul :: "u32 \<Rightarrow> u32 \<Rightarrow> u32" where
  "u32_saturating_mul a b = (if unat a * unat b < 2 ^ 32 then a * b else - 1)"

definition u64_saturating_mul :: "u64 \<Rightarrow> u64 \<Rightarrow> u64" where
  "u64_saturating_mul a b = (if unat a * unat b < 2 ^ 64 then a * b else - 1)"

section \<open>The operating system\<close>

datatype control_char = VMIN | VTIME

datatype spidev_transfer = XferRead nat | XferWrite bytes | XferReadWrite bytes nat

datatype line_flags = LineOutput | LineInput

record ('w, 'e, 'f, 'tio) host_os =
  os_i2c_new :: "string \<Rightarrow> u16 \<Rightarrow> 'w \<Rightarrow> ('e + 'f) \<times> 'w"
  os_i2c_write :: "'f \<Rightarrow> bytes \<Rightarrow> 'w \<Rightarrow> ('e + unit) \<times> 'w"
  os_i2c_read :: "'f \<Rightarrow> nat \<Rightarrow> 'w \<Rightarrow> ('e + unit) \<times> bytes \<times> 'w"
  os_sleep_ms :: "u64 \<Rightarrow> 'w \<Rightarrow> 'w"
  os_open :: "string \<Rightarrow> 'w \<Rightarrow> ('e + 'f) \<times> 'w"
  os_tcgetattr :: "'f \<Rightarrow> 'w \<Rightarrow> ('e + 'tio) \<times> 'w"
  os_cfmakeraw :: "'tio \<Rightarrow> 'tio"
  os_cfsetspeed :: "baud_rate \<Rightarrow> 'tio \<Rightarrow> 'e + 'tio"
  os_set_cc :: "control_char \<Rightarrow> u8 \<Rightarrow> 'tio \<Rightarrow> 'tio"
  os_tcsetattr :: "'f \<Rightarrow> 'tio \<Rightarrow> 'w \<Rightarrow> ('e + unit) \<times> 'w"
  os_tcflush :: "'f \<Rightarrow> 'w \<Rightarrow> ('e + unit) \<times> 'w"
  os_read :: "'f \<Rightarrow> nat \<Rightarrow> 'w \<Rightarrow> ('e + usize) \<times> bytes \<times> 'w"
  os_write :: "'f \<Rightarrow> bytes \<Rightarrow> 'w \<Rightarrow> ('e + usize) \<times> 'w"
  os_interrupted :: "'e \<Rightarrow> bool"
  os_spidev_open :: "string \<Rightarrow> 'w \<Rightarrow> ('e + 'f) \<times> 'w"
  os_spidev_configure :: "'f \<Rightarrow> u32 \<Rightarrow> 'w \<Rightarrow> ('e + unit) \<times> 'w"
  os_transfer_multiple :: "'f \<Rightarrow> spidev_transfer list \<Rightarrow> 'w \<Rightarrow> ('e + unit) \<times> bytes list \<times> 'w"
  os_chip_new :: "string \<Rightarrow> 'w \<Rightarrow> ('e + 'f) \<times> 'w"
  os_line_request :: "'f \<Rightarrow> u32 \<Rightarrow> line_flags \<Rightarrow> u8 \<Rightarrow> 'w \<Rightarrow> ('e + 'f) \<times> 'w"
  os_set_value :: "'f \<Rightarrow> u8 \<Rightarrow> 'w \<Rightarrow> ('e + unit) \<times> 'w"
  os_get_value :: "'f \<Rightarrow> 'w \<Rightarrow> ('e + u8) \<times> 'w"
  os_now :: "'w \<Rightarrow> nat \<times> 'w"
  os_sleep_ns :: "u64 \<Rightarrow> 'w \<Rightarrow> 'w"

section \<open>Delays\<close>

text \<open>
  The busy wait of \<open>SpinDelay\<close>: it looks at the clock until the time has passed. A clock
  that stands still would keep it spinning, which is the value \<open>None\<close>.
\<close>

partial_function (option) spin_until :: "('w \<Rightarrow> nat \<times> 'w) \<Rightarrow> nat \<Rightarrow> nat \<Rightarrow> 'w \<Rightarrow> 'w option" where
  "spin_until now start dur w =
     (let (t, w) = now w in if t - start < dur then spin_until now start dur w else Some w)"

definition spin_delay :: "('w, 'e, 'f, 'tio) host_os \<Rightarrow> u32 \<Rightarrow> 'w \<Rightarrow> 'w option" where
  "spin_delay os ns w =
     (if ns \<ge> 1000000 then Some (os_sleep_ns os (ucast ns) w)
      else let (start, w) = os_now os w in spin_until (os_now os) start (unat ns) w)"

section \<open>The I2C backend\<close>

datatype 'e linux_i2c_error = LiOpen 'e | LiWrite 'e | LiExhausted u32 'e

record ('w, 'f) linux_i2c =
  li_hw :: 'w
  li_dev :: 'f
  li_poll_attempts :: u32
  li_poll_interval_ms :: u64

definition linux_i2c_open ::
  "('w, 'e, 'f, 'tio) host_os \<Rightarrow> string \<Rightarrow> u16 \<Rightarrow> 'w \<Rightarrow> ('e linux_i2c_error + ('w, 'f) linux_i2c) \<times> 'w"
where
  "linux_i2c_open os bus addr w =
     (case os_i2c_new os bus addr w of
        (Err e, w) \<Rightarrow> (Err (LiOpen e), w)
      | (Ok dev, w) \<Rightarrow> (Ok \<lparr>li_hw = w, li_dev = dev, li_poll_attempts = 1, li_poll_interval_ms = 10\<rparr>, w))"

function linux_i2c_poll ::
  "('w, 'e, 'f, 'tio) host_os \<Rightarrow> 'f \<Rightarrow> u32 \<Rightarrow> u64 \<Rightarrow> u32 \<Rightarrow> bytes \<Rightarrow> 'w \<Rightarrow> ('e linux_i2c_error + usize) \<times> bytes \<times> 'w"
where
  "linux_i2c_poll os dev poll interval attempt rsp w =
     (let attempt = attempt + 1;
          (r, data, w) = os_i2c_read os dev (length rsp) w;
          rsp = overwrite rsp data
      in case r of
           Ok _ \<Rightarrow> (Ok (length rsp), rsp, w)
         | Err e \<Rightarrow>
             if attempt \<ge> poll then (Err (LiExhausted attempt e), rsp, w)
             else linux_i2c_poll os dev poll interval attempt rsp (os_sleep_ms os interval w))"
  by pat_completeness auto
termination
  by (relation "measure (\<lambda>(os, dev, poll, interval, attempt, rsp, w). budget_left poll attempt)") auto

declare linux_i2c_poll.simps [simp del]

definition linux_i2c_request ::
  "('w, 'e, 'f, 'tio) host_os \<Rightarrow> (('w, 'f) linux_i2c, 'e linux_i2c_error) request_fn" where
  "linux_i2c_request os t req rsp =
     (case os_i2c_write os (li_dev t) req (li_hw t) of
        (Err e, w) \<Rightarrow> (Err (LiWrite e), t\<lparr>li_hw := w\<rparr>, rsp)
      | (Ok _, w) \<Rightarrow>
          (case linux_i2c_poll os (li_dev t) (li_poll_attempts t) (li_poll_interval_ms t) 0 rsp w of
             (r, rsp', w') \<Rightarrow> (r, t\<lparr>li_hw := w'\<rparr>, rsp')))"

section \<open>The serial backend\<close>

datatype 'e serial_error =
    UnsupportedBaud u32
  | SerialOpen string 'e
  | NotATerminal string 'e
  | SettingBaud 'e
  | ApplyingTermios 'e
  | FlushingStale 'e

definition serial_open ::
  "('w, 'e, 'f, 'tio) host_os \<Rightarrow> string \<Rightarrow> u32 \<Rightarrow> 'w \<Rightarrow> ('e serial_error + 'f) \<times> 'w"
where
  "serial_open os dev baud w =
     st_bind (ok_or (baud_constant baud) (UnsupportedBaud baud), w) (\<lambda>rate w.
     st_bind (map_prod (map_err (SerialOpen dev)) id (os_open os dev w)) (\<lambda>file w.
     st_bind (map_prod (map_err (NotATerminal dev)) id (os_tcgetattr os file w)) (\<lambda>tio w.
     let tio = os_cfmakeraw os tio in
     st_bind (map_err SettingBaud (os_cfsetspeed os rate tio), w) (\<lambda>tio w.
     let tio = os_set_cc os VMIN 0 tio;
         tio = os_set_cc os VTIME 1 tio in
     st_bind (map_prod (map_err ApplyingTermios) id (os_tcsetattr os file tio w)) (\<lambda>_ w.
     st_bind (map_prod (map_err FlushingStale) id (os_tcflush os file w)) (\<lambda>_ w.
     (Ok file, w)))))))"

text \<open>\<open>read\<close> and \<open>write\<close> repeat a call that a signal interrupted; only that.\<close>

partial_function (option) serial_read ::
  "('w, 'e, 'f, 'tio) host_os \<Rightarrow> 'f \<Rightarrow> nat \<Rightarrow> 'w \<Rightarrow> (('e + usize) \<times> bytes \<times> 'w) option" where
  "serial_read os file len w =
     (case os_read os file len w of
        (Err e, data, w) \<Rightarrow> if os_interrupted os e then serial_read os file len w else Some (Err e, data, w)
      | (Ok n, data, w) \<Rightarrow> Some (Ok n, data, w))"

partial_function (option) serial_write ::
  "('w, 'e, 'f, 'tio) host_os \<Rightarrow> 'f \<Rightarrow> bytes \<Rightarrow> 'w \<Rightarrow> (('e + usize) \<times> 'w) option" where
  "serial_write os file buf w =
     (case os_write os file buf w of
        (Err e, w) \<Rightarrow> if os_interrupted os e then serial_write os file buf w else Some (Err e, w)
      | (Ok n, w) \<Rightarrow> Some (Ok n, w))"

section \<open>The SPI backend\<close>

datatype 'e spidev_error = SpiIo 'e | SpiUnsupported string

datatype 'e spidev_open_error = SpidevOpen string 'e | SpidevConfigure string u32 'e

definition spidev_open ::
  "('w, 'e, 'f, 'tio) host_os \<Rightarrow> string \<Rightarrow> u32 \<Rightarrow> 'w \<Rightarrow> ('e spidev_open_error + 'f) \<times> 'w"
where
  "spidev_open os dev speed_hz w =
     st_bind (map_prod (map_err (SpidevOpen dev)) id (os_spidev_open os dev w)) (\<lambda>spi w.
     st_bind (map_prod (map_err (SpidevConfigure dev speed_hz)) id (os_spidev_configure os spi speed_hz w)) (\<lambda>_ w.
     (Ok spi, w)))"

text \<open>The operations of an \<open>embedded_hal\<close> transaction with the contents of their buffers.\<close>

datatype operation =
    OpRead bytes
  | OpWrite bytes
  | OpTransfer bytes bytes
  | OpTransferInPlace bytes
  | OpDelayNs u32

fun spi_screen :: "operation list \<Rightarrow> 'e spidev_error + bytes list" where
  "spi_screen [] = Ok []"
| "spi_screen (op # ops) =
     (case op of
        OpDelayNs _ \<Rightarrow> Err (SpiUnsupported ''a delay inside one chip-select assertion'')
      | OpTransfer read write \<Rightarrow>
          if length read \<noteq> length write then Err (SpiUnsupported ''Transfer with different read/write lengths'')
          else spi_screen ops
      | OpTransferInPlace buf \<Rightarrow> try_bind (spi_screen ops) (\<lambda>copies. Ok (buf # copies))
      | _ \<Rightarrow> spi_screen ops)"

text \<open>The transfers of the ioctl; \<open>DelayNs\<close> was screened out.\<close>

fun spi_transfers :: "operation list \<Rightarrow> bytes list \<Rightarrow> spidev_transfer list" where
  "spi_transfers [] copies = []"
| "spi_transfers (OpRead buf # ops) copies = XferRead (length buf) # spi_transfers ops copies"
| "spi_transfers (OpWrite bs # ops) copies = XferWrite bs # spi_transfers ops copies"
| "spi_transfers (OpTransfer read write # ops) copies = XferReadWrite write (length read) # spi_transfers ops copies"
| "spi_transfers (OpTransferInPlace buf # ops) copies =
     (let tx = (case copies of [] \<Rightarrow> [] | c # _ \<Rightarrow> c) in XferReadWrite tx (length buf) # spi_transfers ops (tl copies))"
| "spi_transfers (OpDelayNs _ # ops) copies = spi_transfers ops copies"

text \<open>The kernel fills the receive buffers, one list of bytes per transfer.\<close>

fun spi_fill :: "operation list \<Rightarrow> bytes list \<Rightarrow> operation list" where
  "spi_fill (OpRead buf # ops) (rx # rxs) = OpRead (overwrite buf rx) # spi_fill ops rxs"
| "spi_fill (OpTransfer read write # ops) (rx # rxs) = OpTransfer (overwrite read rx) write # spi_fill ops rxs"
| "spi_fill (OpTransferInPlace buf # ops) (rx # rxs) = OpTransferInPlace (overwrite buf rx) # spi_fill ops rxs"
| "spi_fill (op # ops) (rx # rxs) = op # spi_fill ops rxs"
| "spi_fill ops _ = ops"

definition spidev_transaction ::
  "('w, 'e, 'f, 'tio) host_os \<Rightarrow> 'f \<Rightarrow> operation list \<Rightarrow> 'w \<Rightarrow> ('e spidev_error + unit) \<times> operation list \<times> 'w"
where
  "spidev_transaction os dev operations w =
     (case spi_screen operations of
        Err e \<Rightarrow> (Err e, operations, w)
      | Ok copies \<Rightarrow>
          let (r, rx, w) = os_transfer_multiple os dev (spi_transfers operations copies) w
          in (map_err SpiIo r, spi_fill operations rx, w))"

section \<open>The GPIO backend\<close>

datatype 'e gpio_error = GpioChip string 'e | GpioTx u32 'e | GpioRx u32 'e

definition gpio_open ::
  "('w, 'e, 'f, 'tio) host_os \<Rightarrow> string \<Rightarrow> u32 \<Rightarrow> u32 \<Rightarrow> 'w \<Rightarrow> ('e gpio_error + ('f \<times> 'f)) \<times> 'w"
where
  "gpio_open os chip pin_tx pin_rx w =
     st_bind (map_prod (map_err (GpioChip chip)) id (os_chip_new os chip w)) (\<lambda>c w.
     st_bind (map_prod (map_err (GpioTx pin_tx)) id (os_line_request os c pin_tx LineOutput 1 w)) (\<lambda>tx w.
     st_bind (map_prod (map_err (GpioRx pin_rx)) id (os_line_request os c pin_rx LineInput 0 w)) (\<lambda>rx w.
     (Ok (tx, rx), w))))"

definition gpio_set_low :: "('w, 'e, 'f, 'tio) host_os \<Rightarrow> 'f \<Rightarrow> 'w \<Rightarrow> ('e + unit) \<times> 'w" where
  "gpio_set_low os line w = os_set_value os line 0 w"

definition gpio_set_high :: "('w, 'e, 'f, 'tio) host_os \<Rightarrow> 'f \<Rightarrow> 'w \<Rightarrow> ('e + unit) \<times> 'w" where
  "gpio_set_high os line w = os_set_value os line 1 w"

definition gpio_is_high :: "('w, 'e, 'f, 'tio) host_os \<Rightarrow> 'f \<Rightarrow> 'w \<Rightarrow> ('e + bool) \<times> 'w" where
  "gpio_is_high os line w = st_bind (os_get_value os line w) (\<lambda>v w. (Ok (v \<noteq> 0), w))"

definition gpio_is_low :: "('w, 'e, 'f, 'tio) host_os \<Rightarrow> 'f \<Rightarrow> 'w \<Rightarrow> ('e + bool) \<times> 'w" where
  "gpio_is_low os line w = st_bind (gpio_is_high os line w) (\<lambda>h w. (Ok (\<not> h), w))"

section \<open>Delays and interrupted calls return\<close>

text \<open>A clock that moves: looking at it takes time.\<close>

definition clock_moves :: "('w \<Rightarrow> nat \<times> 'w) \<Rightarrow> bool" where
  "clock_moves now \<longleftrightarrow> (\<forall>w. fst (now w) < fst (now (snd (now w))))"

lemma spin_until_returns:
  assumes "clock_moves now" and "now w0 = (t0, w)"
  shows "\<exists>w'. spin_until now start dur w = Some w' \<and> (\<exists>w1. now w1 = (fst (now w1), w') \<and> dur \<le> fst (now w1) - start)"
  using assms(2)
proof (induction "Suc (start + dur) - t0" arbitrary: w0 t0 w rule: less_induct)
  case less
  obtain t w1 where now: "now w = (t, w1)"
    by fastforce
  have t: "t0 < t"
    using assms(1) less.prems now by (metis clock_moves_def fst_conv snd_conv)
  show ?case
  proof (cases "t - start < dur")
    case False
    then show ?thesis
      using now by (subst spin_until.simps) (auto intro!: exI [of _ w])
  next
    case True
    then have "Suc (start + dur) - t < Suc (start + dur) - t0"
      using t by linarith
    from less.hyps [OF this now] show ?thesis
      using now True by (subst spin_until.simps) simp
  qed
qed

lemma serial_read_repeats:
  assumes "\<forall>i < k. \<exists>e data. os_read os file len (ws i) = (Err e, data, ws (Suc i)) \<and> os_interrupted os e"
    and "os_read os file len (ws k) = (r, data, w')" and "\<forall>e. r = Err e \<longrightarrow> \<not> os_interrupted os e"
  shows "serial_read os file len (ws 0) = Some (r, data, w')"
  using assms
proof (induction k arbitrary: ws)
  case 0
  then show ?case
    by (subst serial_read.simps) (auto split: sum.splits)
next
  case (Suc k)
  have "serial_read os file len (ws (Suc 0)) = Some (r, data, w')"
    by (rule Suc.IH [of "\<lambda>i. ws (Suc i)"]) (use Suc.prems in auto)
  moreover obtain e d where "os_read os file len (ws 0) = (Err e, d, ws (Suc 0))" "os_interrupted os e"
    using Suc.prems(1) by blast
  ultimately show ?case
    by (subst serial_read.simps) simp
qed

section \<open>The I2C backend is the I2C adapter\<close>

text \<open>The device file as an \<open>embedded_hal\<close> bus: the kernel holds the address, and sleeps in milliseconds.\<close>

definition dev_hal :: "('w, 'e, 'f, 'tio) host_os \<Rightarrow> 'f \<Rightarrow> ('w, 'e) i2c_hal" where
  "dev_hal os dev = \<lparr>i2c_write = (\<lambda>_. os_i2c_write os dev), i2c_read = (\<lambda>_. os_i2c_read os dev),
     i2c_delay_ns = (\<lambda>ns. os_sleep_ms os (ucast ns div 1000000))\<rparr>"

fun li_error :: "'e i2c_error \<Rightarrow> 'e linux_i2c_error" where
  "li_error (I2cWrite e) = LiWrite e"
| "li_error (I2cExhausted n e) = LiExhausted n e"

lemma linux_i2c_poll_adapter:
  assumes "ucast interval div 1000000 = ms"
  shows "linux_i2c_poll os dev poll ms att rsp w =
     (case i2c_poll (dev_hal os dev) addr poll interval att rsp w of (r, rsp', w') \<Rightarrow> (map_err li_error r, rsp', w'))"
proof (induction "budget_left poll att" arbitrary: att rsp w rule: less_induct)
  case less
  obtain r data w1 where rd: "os_i2c_read os dev (length rsp) w = (r, data, w1)"
    using prod_cases3 by blast
  show ?case
  proof (cases r)
    case (Inr x)
    with rd show ?thesis
      by (simp add: linux_i2c_poll.simps [of os dev poll ms att] i2c_poll.simps [of _ addr poll interval att] dev_hal_def)
  next
    case (Inl e)
    with rd less.hyps [of "att + 1" "overwrite rsp data" "os_sleep_ms os ms w1"] assms show ?thesis
      by (simp add: linux_i2c_poll.simps [of os dev poll ms att] i2c_poll.simps [of _ addr poll interval att] Let_def)
        (simp add: dev_hal_def)
  qed
qed

section \<open>SPI transactions\<close>

text \<open>What spidev can express, and the transfer an operation stands for.\<close>

fun expressible :: "operation \<Rightarrow> bool" where
  "expressible (OpDelayNs _) \<longleftrightarrow> False"
| "expressible (OpTransfer read write) \<longleftrightarrow> length read = length write"
| "expressible _ \<longleftrightarrow> True"

fun op_transfer :: "operation \<Rightarrow> spidev_transfer" where
  "op_transfer (OpRead buf) = XferRead (length buf)"
| "op_transfer (OpWrite bs) = XferWrite bs"
| "op_transfer (OpTransfer read write) = XferReadWrite write (length read)"
| "op_transfer (OpTransferInPlace buf) = XferReadWrite buf (length buf)"
| "op_transfer (OpDelayNs _) = XferWrite []"

lemma spi_screen_Ok:
  "list_all expressible ops \<Longrightarrow> \<exists>copies. spi_screen ops = Ok copies \<and> spi_transfers ops copies = map op_transfer ops"
proof (induction ops)
  case (Cons op ops)
  then show ?case
    by (cases op) auto
qed simp

section \<open>Properties\<close>

text \<open>A host whose devices open and stay silent, and whose clock ticks when it is read.\<close>

definition idle_os :: "(nat, unit, unit, unit) host_os" where
  "idle_os = \<lparr>os_i2c_new = (\<lambda>_ _ w. (Ok (), w)), os_i2c_write = (\<lambda>_ _ w. (Ok (), w)), os_i2c_read = (\<lambda>_ _ w. (Err (), [], w)),
     os_sleep_ms = (\<lambda>_ w. w), os_open = (\<lambda>_ w. (Ok (), w)), os_tcgetattr = (\<lambda>_ w. (Ok (), w)), os_cfmakeraw = id,
     os_cfsetspeed = (\<lambda>_ t. Ok t), os_set_cc = (\<lambda>_ _ t. t), os_tcsetattr = (\<lambda>_ _ w. (Ok (), w)),
     os_tcflush = (\<lambda>_ w. (Ok (), w)), os_read = (\<lambda>_ _ w. (Ok 0, [], w)), os_write = (\<lambda>_ bs w. (Ok (length bs), w)),
     os_interrupted = (\<lambda>_. False), os_spidev_open = (\<lambda>_ w. (Ok (), w)), os_spidev_configure = (\<lambda>_ _ w. (Ok (), w)),
     os_transfer_multiple = (\<lambda>_ _ w. (Ok (), [], w)), os_chip_new = (\<lambda>_ w. (Ok (), w)),
     os_line_request = (\<lambda>_ _ _ _ w. (Ok (), w)), os_set_value = (\<lambda>_ _ w. (Ok (), w)), os_get_value = (\<lambda>_ w. (Ok 1, w)),
     os_now = (\<lambda>w. (w, Suc w)), os_sleep_ns = (\<lambda>_ w. w)\<rparr>"


text \<open>
  The Linux I2C backend behaves as the embedded I2C adapter. For every operating
  system, request and budget whose delay fits 32 bits of nanoseconds, its \<open>request\<close> gives
  the result, the response buffer and the bus state of \<open>I2cTransport::request\<close> over the
  same device with the same number of attempts and the same delay.
\<close>

lemma linux_i2c_is_adapter:
  assumes "unat (li_poll_interval_ms t) \<le> 4294"
    and "i2c_request (dev_hal os (li_dev t)) \<lparr>i2c_hw = li_hw t, i2c_addr = addr, i2c_poll_attempts = li_poll_attempts t,
       i2c_poll_interval_ns = ucast (li_poll_interval_ms t) * 1000000\<rparr> req rsp = (r, t', rsp')"
  shows "linux_i2c_request os t req rsp = (map_err li_error r, t\<lparr>li_hw := i2c_hw t'\<rparr>, rsp')"
proof -
  let ?ms = "li_poll_interval_ms t"
  let ?ns = "ucast ?ms * 1000000 :: u32"
  have "unat (ucast ?ms :: u32) = unat ?ms"
    using assms(1) by (simp add: unsigned_ucast_eq take_bit_nat_eq_self)
  then have "unat ?ns = unat ?ms * 1000000"
    using assms(1) unat_mult_lem [of "ucast ?ms :: u32" 1000000] by simp
  then have "unat (ucast ?ns :: u64) = unat ?ms * 1000000"
    using assms(1) by (simp add: unsigned_ucast_eq take_bit_nat_eq_self)
  then have ms: "ucast ?ns div 1000000 = ?ms"
    by (simp add: word_unat_eq_iff unat_div)
  show ?thesis
    using assms(2) linux_i2c_poll_adapter [OF ms, of os "li_dev t" "li_poll_attempts t" 0 rsp _ addr]
    by (auto simp: linux_i2c_request_def i2c_request_def split: prod.splits sum.splits) (auto simp: dev_hal_def)
qed

text \<open>
  An SPI transaction is handed to the kernel whole or not at all. If spidev can
  express every operation, exactly one ioctl runs, with one transfer per operation in
  order: a write sends its bytes, a read and a full-duplex transfer clock as many bytes as
  their buffers hold, and an in-place transfer sends the buffer as it was. Otherwise the
  transaction fails before anything is sent, with the buffers and the device untouched.
\<close>

lemma spidev_transaction_whole:
  fixes os :: "('w, 'e, 'f, 'tio) host_os"
  shows "spidev_transaction os dev ops w =
     (if list_all expressible ops
      then (case os_transfer_multiple os dev (map op_transfer ops) w of (r, rx, w') \<Rightarrow> (map_err SpiIo r, spi_fill ops rx, w'))
      else (Err (SpiUnsupported (if find (\<lambda>op. \<not> expressible op) ops \<in> Some ` range OpDelayNs
              then ''a delay inside one chip-select assertion''
              else ''Transfer with different read/write lengths'')), ops, w))"
proof (cases "list_all expressible ops")
  case True
  then obtain copies where "(spi_screen ops :: 'e spidev_error + bytes list) = Ok copies" "spi_transfers ops copies = map op_transfer ops"
    using spi_screen_Ok by blast
  with True show ?thesis
    by (simp add: spidev_transaction_def)
next
  case False
  have "(spi_screen ops :: 'e spidev_error + bytes list) = Err (SpiUnsupported (if find (\<lambda>op. \<not> expressible op) ops \<in> Some ` range OpDelayNs
      then ''a delay inside one chip-select assertion'' else ''Transfer with different read/write lengths''))"
    using False
  proof (induction ops)
    case (Cons op ops)
    then show ?case
      by (cases op) auto
  qed simp
  with False show ?thesis
    by (simp add: spidev_transaction_def)
qed

text \<open>
  \<open>SpinDelay\<close> returns, and not early. When reading the clock takes time, a delay of
  less than a millisecond ends, and the last reading of the clock lies at least the
  requested nanoseconds after the first.
\<close>

lemma spin_delay_returns:
  assumes "clock_moves (os_now os)" and "ns < 1000000"
  shows "\<exists>w1 w'. spin_delay os ns w = Some w' \<and> snd (os_now os w1) = w' \<and> unat ns \<le> fst (os_now os w1) - fst (os_now os w)"
proof -
  obtain t0 w0 where now: "os_now os w = (t0, w0)"
    by fastforce
  from spin_until_returns [OF assms(1) now, of t0 "unat ns"] obtain w1 w' where
    "spin_until (os_now os) t0 (unat ns) w0 = Some w'" "snd (os_now os w1) = w'" "unat ns \<le> fst (os_now os w1) - t0"
    by (metis snd_conv)
  then show ?thesis
    using now assms(2) by (auto simp: spin_delay_def not_le [symmetric])
qed

end
