(* ===== verification/Cli_Dyn.thy ===== *)
theory Cli_Dyn
  imports Cli_Transport
begin

text \<open>
  The second half of \<^verbatim>\<open>updater-cli/src/transport.rs\<close>: how each backend consumes a poll
  budget (\<open>SetPoll\<close>), the erased backends, \<open>DynTransport\<close> with its erase budget, and \<open>open\<close>.
\<close>

section \<open>Poll budgets of the backends\<close>

definition li_set_poll_budget :: "poll_budget \<Rightarrow> ('w, 'f) linux_i2c \<Rightarrow> ('w, 'f) linux_i2c" where
  "li_set_poll_budget poll t =
     t\<lparr>li_poll_attempts := clamp_attempts (pb_attempts poll), li_poll_interval_ms := ucast (pb_delay_ms poll)\<rparr>"

definition uart_set_poll_budget :: "poll_budget \<Rightarrow> 'w uart_transport \<Rightarrow> 'w uart_transport" where
  "uart_set_poll_budget poll t = uart_set_poll t (pb_attempts poll) (u32_saturating_mul (pb_delay_ms poll) 1000000)"

definition spi_set_poll_budget :: "poll_budget \<Rightarrow> 'w spi_transport \<Rightarrow> 'w spi_transport" where
  "spi_set_poll_budget poll t = spi_set_poll t (pb_attempts poll) (u32_saturating_mul (pb_delay_ms poll) 1000000)"

definition softuart_set_poll_budget :: "poll_budget \<Rightarrow> 'w softuart_transport \<Rightarrow> 'w softuart_transport" where
  "softuart_set_poll_budget poll t =
     (let total_ns = u64_saturating_mul
            (u64_saturating_mul (ucast (max (pb_attempts poll) 1)) (ucast (pb_delay_ms poll))) 1000000;
          interval = DEFAULT_SOFTUART_POLL_INTERVAL_NS;
          q = total_ns div ucast (max interval 1);
          samples = (if q < 2 ^ 32 then ucast q else - 1)
      in softuart_set_poll t (max samples 1) interval)"

section \<open>The erased backends\<close>

text \<open>
  The wires of a host: the operating system, the serial port as an \<open>embedded_io\<close> port, and
  the delay \<open>SpinDelay\<close> gives when it returns.
\<close>

record ('w, 'e, 'f, 'tio) wires =
  wr_os :: "('w, 'e, 'f, 'tio) host_os"
  wr_uart :: "'f \<Rightarrow> ('w, 'e) uart_hal"
  wr_delay_ns :: "u32 \<Rightarrow> 'w \<Rightarrow> 'w"

text \<open>\<open>SpiDevice::read\<close> is a transaction of one \<open>Read\<close>; the adapter writes in one transaction of two \<open>Write\<close>s.\<close>

definition spidev_hal :: "('w, 'e, 'f, 'tio) wires \<Rightarrow> 'f \<Rightarrow> ('w, 'e spidev_error) spi_hal" where
  "spidev_hal wr dev = \<lparr>
     spi_transaction = (\<lambda>bss w. let (r, _, w) = spidev_transaction (wr_os wr) dev (map OpWrite bss) w in (r, w)),
     spi_read = (\<lambda>w.
       let (r, ops, w) = spidev_transaction (wr_os wr) dev [OpRead [0]] w
       in (try_bind r (\<lambda>_. Ok (case ops of [OpRead [b]] \<Rightarrow> b | _ \<Rightarrow> 0)), w)),
     spi_delay_ns = wr_delay_ns wr\<rparr>"

definition gpio_hal :: "('w, 'e, 'f, 'tio) wires \<Rightarrow> 'f \<Rightarrow> 'f \<Rightarrow> ('w, 'e, 'e) softuart_hal" where
  "gpio_hal wr tx rx = \<lparr>
     su_set_high = gpio_set_high (wr_os wr) tx, su_set_low = gpio_set_low (wr_os wr) tx,
     su_is_high = gpio_is_high (wr_os wr) rx, su_is_low = gpio_is_low (wr_os wr) rx,
     su_delay_ns = wr_delay_ns wr\<rparr>"

datatype ('w, 'f) backend =
    BI2c "('w, 'f) linux_i2c"
  | BUart 'f "'w uart_transport"
  | BSpi 'f "'w spi_transport"
  | BGpio 'f 'f "'w softuart_transport"

datatype 'e backend_error =
    EI2c "'e linux_i2c_error"
  | EUart "'e uart_error"
  | ESpi "'e spidev_error spi_error"
  | EGpio "('e, 'e) softuart_error"

definition erase_err :: "('t \<Rightarrow> 'b) \<Rightarrow> ('e \<Rightarrow> 'f) \<Rightarrow> ('e + usize) \<times> 't \<times> bytes \<Rightarrow> ('f + usize) \<times> 'b \<times> bytes" where
  "erase_err wrap err r = (case r of (q, t, rsp) \<Rightarrow> (map_err err q, wrap t, rsp))"

fun backend_request ::
  "('w, 'e, 'f, 'tio) wires \<Rightarrow> (('w, 'f) backend, 'e backend_error) request_fn" where
  "backend_request wr (BI2c t) req rsp = erase_err BI2c EI2c (linux_i2c_request (wr_os wr) t req rsp)"
| "backend_request wr (BUart f t) req rsp = erase_err (BUart f) EUart (uart_request (wr_uart wr f) t req rsp)"
| "backend_request wr (BSpi f t) req rsp = erase_err (BSpi f) ESpi (spi_request (spidev_hal wr f) t req rsp)"
| "backend_request wr (BGpio tx rx t) req rsp =
     erase_err (BGpio tx rx) EGpio (softuart_request (gpio_hal wr tx rx) t req rsp)"

fun backend_set_poll :: "poll_budget \<Rightarrow> ('w, 'f) backend \<Rightarrow> ('w, 'f) backend" where
  "backend_set_poll poll (BI2c t) = BI2c (li_set_poll_budget poll t)"
| "backend_set_poll poll (BUart f t) = BUart f (uart_set_poll_budget poll t)"
| "backend_set_poll poll (BSpi f t) = BSpi f (spi_set_poll_budget poll t)"
| "backend_set_poll poll (BGpio tx rx t) = BGpio tx rx (softuart_set_poll_budget poll t)"

section \<open>DynTransport\<close>

record 't dyn_transport =
  dt_inner :: 't
  dt_base :: poll_budget
  dt_erase_attempts :: u32

definition set_erase_attempts :: "'t dyn_transport \<Rightarrow> u32 \<Rightarrow> 't dyn_transport" where
  "set_erase_attempts d attempts = d\<lparr>dt_erase_attempts := max attempts (pb_attempts (dt_base d))\<rparr>"

definition dyn_request ::
  "('t, 'e) request_fn \<Rightarrow> (poll_budget \<Rightarrow> 't \<Rightarrow> 't) \<Rightarrow> ('t dyn_transport, 'e) request_fn" where
  "dyn_request request set_poll d req rsp =
     (let erase = (get_at req 0 = Some CMD_ERASE_APP \<and> dt_erase_attempts d > pb_attempts (dt_base d));
          inner = (if erase
             then set_poll \<lparr>pb_attempts = dt_erase_attempts d, pb_delay_ms = pb_delay_ms (dt_base d)\<rparr> (dt_inner d)
             else dt_inner d);
          (out, inner, rsp) = request inner req rsp;
          inner = (if erase then set_poll (dt_base d) inner else inner)
      in (out, d\<lparr>dt_inner := inner\<rparr>, rsp))"

datatype 'e open_error =
    OpenI2c string u16 "'e linux_i2c_error"
  | OpenUart "'e serial_error"
  | OpenSpi "'e spidev_open_error"
  | OpenGpio "'e gpio_error"

text \<open>The \<open>match\<close> of \<open>open\<close>: the backend a specification names, with its adapter's own defaults.\<close>

definition open_backend ::
  "('w, 'e, 'f, 'tio) wires \<Rightarrow> transport_spec \<Rightarrow> 'w \<Rightarrow> ('e open_error + ('w, 'f) backend) \<times> 'w"
where
  "open_backend wr spec w =
     (case spec of
        SpecI2c bus addr \<Rightarrow>
          st_bind (map_prod (map_err (OpenI2c bus addr)) id (linux_i2c_open (wr_os wr) bus addr w)) (\<lambda>t w. (Ok (BI2c t), w))
      | SpecUart dev baud \<Rightarrow>
          st_bind (map_prod (map_err OpenUart) id (serial_open (wr_os wr) dev baud w)) (\<lambda>f w. (Ok (BUart f (uart_new w)), w))
      | SpecSpi dev speed_hz \<Rightarrow>
          st_bind (map_prod (map_err OpenSpi) id (spidev_open (wr_os wr) dev speed_hz w)) (\<lambda>f w. (Ok (BSpi f (spi_new w)), w))
      | SpecGpio chip pin_tx pin_rx \<Rightarrow>
          st_bind (map_prod (map_err OpenGpio) id (gpio_open (wr_os wr) chip pin_tx pin_rx w))
            (\<lambda>(tx, rx) w. (Ok (BGpio tx rx (softuart_new w)), w)))"

definition transport_open ::
  "('w, 'e, 'f, 'tio) wires \<Rightarrow> transport_spec \<Rightarrow> poll_budget \<Rightarrow> 'w \<Rightarrow>
     ('e open_error + ('w, 'f) backend dyn_transport) \<times> 'w"
where
  "transport_open wr spec poll w =
     st_bind (open_backend wr spec w) (\<lambda>inner w.
       (Ok \<lparr>dt_inner = backend_set_poll poll inner, dt_base = poll, dt_erase_attempts = pb_attempts poll\<rparr>, w))"

section \<open>The budget contract\<close>

text \<open>
  What \<open>DynTransport\<close> relies on: the last budget set is the one in force, and a request
  leaves it in force.
\<close>

locale poll_transport = transport request
  for request :: "('t, 'e) request_fn" +
  fixes set_poll :: "poll_budget \<Rightarrow> 't \<Rightarrow> 't"
  assumes set_set: "set_poll a (set_poll b t) = set_poll a t"
    and keeps: "request t req rsp = (r, t', rsp') \<Longrightarrow> set_poll b t = t \<Longrightarrow> set_poll b t' = t'"

text \<open>The states a \<open>DynTransport\<close> passes through after \<open>open\<close> with a budget.\<close>

inductive dyn_reach ::
  "('t, 'e) request_fn \<Rightarrow> (poll_budget \<Rightarrow> 't \<Rightarrow> 't) \<Rightarrow> poll_budget \<Rightarrow> 't dyn_transport \<Rightarrow> bool"
  for request :: "('t, 'e) request_fn" and set_poll base
where
  opened: "dyn_reach request set_poll base
     \<lparr>dt_inner = set_poll base t, dt_base = base, dt_erase_attempts = pb_attempts base\<rparr>"
| raised: "dyn_reach request set_poll base d \<Longrightarrow> dyn_reach request set_poll base (set_erase_attempts d n)"
| requested: "dyn_reach request set_poll base d \<Longrightarrow> dyn_request request set_poll d req rsp = (r, d', rsp') \<Longrightarrow>
     dyn_reach request set_poll base d'"

context poll_transport
begin

definition at_base :: "poll_budget \<Rightarrow> 't dyn_transport \<Rightarrow> bool" where
  "at_base base d \<longleftrightarrow> set_poll base (dt_inner d) = dt_inner d \<and> dt_base d = base \<and> pb_attempts base \<le> dt_erase_attempts d"

lemma dyn_request_at_base:
  assumes "at_base base d"
  shows "dyn_request request set_poll d req rsp =
     (let b = (if get_at req 0 = Some CMD_ERASE_APP then base\<lparr>pb_attempts := dt_erase_attempts d\<rparr> else base);
          (r, t, rsp') = request (set_poll b (dt_inner d)) req rsp
      in (r, d\<lparr>dt_inner := set_poll base t\<rparr>, rsp'))"
proof (cases "get_at req 0 = Some CMD_ERASE_APP \<and> dt_erase_attempts d > pb_attempts (dt_base d)")
  case True
  then show ?thesis
    using assms by (cases base) (simp add: dyn_request_def at_base_def Let_def)
next
  case False
  obtain r t rsp' where r: "request (dt_inner d) req rsp = (r, t, rsp')"
    using prod_cases3 by blast
  have base: "set_poll base (dt_inner d) = dt_inner d" "dt_base d = base" "pb_attempts base \<le> dt_erase_attempts d"
    using assms by (simp_all add: at_base_def)
  have t: "set_poll base t = t"
    by (rule keeps [OF r base(1)])
  have same: "base\<lparr>pb_attempts := dt_erase_attempts d\<rparr> = base" if "get_at req 0 = Some CMD_ERASE_APP"
    using False that base by (cases base) simp
  show ?thesis
  proof (cases "get_at req 0 = Some CMD_ERASE_APP")
    case True
    then show ?thesis
      using False base r t by (simp add: dyn_request_def same)
  qed (use base r t in \<open>simp add: dyn_request_def\<close>)
qed

lemma at_base_request:
  assumes "at_base base d" and "dyn_request request set_poll d req rsp = (r, d', rsp')"
  shows "at_base base d' \<and> dt_erase_attempts d' = dt_erase_attempts d"
  using assms by (auto simp: dyn_request_at_base [OF assms(1)] at_base_def set_set Let_def split: prod.splits)

lemma dyn_reach_at_base: "dyn_reach request set_poll base d \<Longrightarrow> at_base base d"
proof (induction rule: dyn_reach.induct)
  case (opened t)
  show ?case by (simp add: at_base_def set_set)
next
  case (raised d n)
  then show ?case by (simp add: at_base_def set_erase_attempts_def)
next
  case (requested d req rsp r d' rsp')
  then show ?case using at_base_request by blast
qed

lemma dyn_transport: "transport (dyn_request request set_poll)"
  by unfold_locales (auto simp: dyn_request_def Let_def dest: rsp_length split: prod.splits if_splits)

end

text \<open>The requests of the adapters leave their budget fields alone.\<close>

lemma linux_i2c_poll_length:
  "linux_i2c_poll os dev poll interval att rsp w = (r, rsp', w') \<Longrightarrow> length rsp' = length rsp"
proof (induction os dev poll interval att rsp w rule: linux_i2c_poll.induct)
  case (1 os dev poll interval att rsp w)
  from "1.prems" show ?case
    unfolding linux_i2c_poll.simps [of os dev poll interval att rsp w]
    using "1.IH" by (auto simp: Let_def split: prod.splits sum.splits if_splits)
qed

interpretation linux_i2c: transport "linux_i2c_request os" for os :: "('w, 'e, 'f, 'tio) host_os"
  by unfold_locales (auto simp: linux_i2c_request_def split: prod.splits sum.splits dest: linux_i2c_poll_length)

lemma request_keeps_budget:
  "linux_i2c_request os ti req rsp = (q1, ti', rsp1) \<Longrightarrow> \<exists>h. ti' = ti\<lparr>li_hw := h\<rparr>"
  "uart_request uhal tu req rsp = (q2, tu', rsp2) \<Longrightarrow> \<exists>h. tu' = tu\<lparr>uart_hw := h\<rparr>"
  "spi_request shal ts req rsp = (q3, ts', rsp3) \<Longrightarrow> \<exists>h. ts' = ts\<lparr>spi_hw := h\<rparr>"
  "softuart_request ghal tg req rsp = (q4, tg', rsp4) \<Longrightarrow> \<exists>h. tg' = tg\<lparr>su_hw := h\<rparr>"
  by (auto simp: linux_i2c_request_def uart_request_def spi_request_def softuart_request_def split: prod.splits sum.splits)

lemmas set_poll_defs = li_set_poll_budget_def uart_set_poll_budget_def spi_set_poll_budget_def softuart_set_poll_budget_def
  uart_set_poll_def spi_set_poll_def softuart_set_poll_def

lemma set_poll_hw:
  "li_set_poll_budget p (ti\<lparr>li_hw := h\<rparr>) = (li_set_poll_budget p ti)\<lparr>li_hw := h\<rparr>"
  "uart_set_poll_budget p (tu\<lparr>uart_hw := h\<rparr>) = (uart_set_poll_budget p tu)\<lparr>uart_hw := h\<rparr>"
  "spi_set_poll_budget p (ts\<lparr>spi_hw := h\<rparr>) = (spi_set_poll_budget p ts)\<lparr>spi_hw := h\<rparr>"
  "softuart_set_poll_budget p (tg\<lparr>su_hw := h\<rparr>) = (softuart_set_poll_budget p tg)\<lparr>su_hw := h\<rparr>"
  by (simp_all add: set_poll_defs Let_def)

interpretation wire_budget: poll_transport "backend_request wr" backend_set_poll for wr :: "('w, 'e, 'f, 'tio) wires"
proof unfold_locales
  fix t t' :: "('w, 'f) backend" and req rsp rsp' r a b
  show "backend_set_poll a (backend_set_poll b t) = backend_set_poll a t"
    by (cases t) (simp_all add: set_poll_defs Let_def)
  assume req: "backend_request wr t req rsp = (r, t', rsp')"
  then show "length rsp' = length rsp"
    by (cases t) (auto simp: erase_err_def split: prod.splits
        dest: linux_i2c.rsp_length uart.rsp_length spi.rsp_length softuart.rsp_length)
  assume b: "backend_set_poll b t = t"
  show "backend_set_poll b t' = t'"
  proof (cases t)
    case (BI2c x)
    with req obtain q x' where "linux_i2c_request (wr_os wr) x req rsp = (q, x', rsp')" "t' = BI2c x'"
      by (auto simp: erase_err_def split: prod.splits)
    with request_keeps_budget(1) [of "wr_os wr" x req rsp q x' rsp'] b BI2c show ?thesis
      by (auto simp: set_poll_hw)
  next
    case (BUart f x)
    with req obtain q x' where "uart_request (wr_uart wr f) x req rsp = (q, x', rsp')" "t' = BUart f x'"
      by (auto simp: erase_err_def split: prod.splits)
    with request_keeps_budget(2) [of "wr_uart wr f" x req rsp q x' rsp'] b BUart show ?thesis
      by (auto simp: set_poll_hw)
  next
    case (BSpi f x)
    with req obtain q x' where "spi_request (spidev_hal wr f) x req rsp = (q, x', rsp')" "t' = BSpi f x'"
      by (auto simp: erase_err_def split: prod.splits)
    with request_keeps_budget(3) [of "spidev_hal wr f" x req rsp q x' rsp'] b BSpi show ?thesis
      by (auto simp: set_poll_hw)
  next
    case (BGpio f g x)
    with req obtain q x' where "softuart_request (gpio_hal wr f g) x req rsp = (q, x', rsp')" "t' = BGpio f g x'"
      by (auto simp: erase_err_def split: prod.splits)
    with request_keeps_budget(4) [of "gpio_hal wr f g" x req rsp q x' rsp'] b BGpio show ?thesis
      by (auto simp: set_poll_hw)
  qed
qed

section \<open>Properties\<close>

text \<open>
  C22: the poll budget policy. In every state a \<open>DynTransport\<close> reaches after \<open>open\<close>, over
  any of the four backends, each request runs with the base budget, except that a request
  whose first byte is \<open>ERASE_APP\<close> runs with the erase attempts, which are never below
  the base; afterwards the base budget is in force again.
\<close>

theorem dyn_budget_policy:
  assumes "dyn_reach (backend_request wr) backend_set_poll base d"
  shows "pb_attempts base \<le> dt_erase_attempts d \<and>
     dyn_request (backend_request wr) backend_set_poll d req rsp =
       (let b = (if get_at req 0 = Some CMD_ERASE_APP then base\<lparr>pb_attempts := dt_erase_attempts d\<rparr> else base);
            (r, t, rsp') = backend_request wr (backend_set_poll b (dt_inner d)) req rsp
        in (r, d\<lparr>dt_inner := backend_set_poll base t\<rparr>, rsp'))"
proof -
  have base: "wire_budget.at_base base d"
    using assms by (rule wire_budget.dyn_reach_at_base)
  then have "pb_attempts base \<le> dt_erase_attempts d"
    by (simp add: wire_budget.at_base_def)
  with wire_budget.dyn_request_at_base [OF base] show ?thesis
    by blast
qed

text \<open>An opened transport on the idle host.\<close>

definition idle_wires :: "(nat, unit, unit, unit) wires" where
  "idle_wires = \<lparr>wr_os = idle_os,
     wr_uart = (\<lambda>_. \<lparr>uart_write_all = (\<lambda>_ w. (Ok (), w)), uart_flush = (\<lambda>w. (Ok (), w)), uart_read = (\<lambda>_ w. (Ok 0, [], w)),
       uart_delay_ns = (\<lambda>_ w. w)\<rparr>), wr_delay_ns = (\<lambda>_ w. w)\<rparr>"

definition opened_i2c :: "(nat, unit) backend dyn_transport" where
  "opened_i2c = set_erase_attempts \<lparr>dt_inner = backend_set_poll \<lparr>pb_attempts = 2, pb_delay_ms = 10\<rparr>
       (BI2c \<lparr>li_hw = 0, li_dev = (), li_poll_attempts = 1, li_poll_interval_ms = 10\<rparr>),
     dt_base = \<lparr>pb_attempts = 2, pb_delay_ms = 10\<rparr>, dt_erase_attempts = 2\<rparr> 3"

lemma opened_i2c_reach: "dyn_reach (backend_request idle_wires) backend_set_poll \<lparr>pb_attempts = 2, pb_delay_ms = 10\<rparr> opened_i2c"
  unfolding opened_i2c_def
  using dyn_reach.opened [of "backend_request idle_wires" backend_set_poll "\<lparr>pb_attempts = 2, pb_delay_ms = 10\<rparr>"]
  by (intro dyn_reach.raised) (simp del: backend_set_poll.simps)

theorem dyn_budget_policy_witness:
  "fst (dyn_request (backend_request idle_wires) backend_set_poll opened_i2c [CMD_ERASE_APP] []) =
     Err (EI2c (LiExhausted 3 ())) \<and>
   fst (dyn_request (backend_request idle_wires) backend_set_poll opened_i2c [CMD_INFO] []) =
     Err (EI2c (LiExhausted 2 ()))"
proof -
  have poll: "linux_i2c_poll idle_os () 3 10 0 [] 0 = (Err (LiExhausted 3 ()), [], 0)"
    "linux_i2c_poll idle_os () 2 10 0 [] 0 = (Err (LiExhausted 2 ()), [], 0)"
    by (simp_all add: linux_i2c_poll.simps idle_os_def word_le_nat_alt)
  have sends: "os_i2c_write idle_os () req 0 = (Ok (), 0)" for req
    by (simp add: idle_os_def)
  have clamp: "clamp_attempts 3 = 3" "clamp_attempts 2 = 2"
    by (simp_all add: clamp_attempts_def max_def word_le_nat_alt)
  have inner: "dt_inner opened_i2c = BI2c \<lparr>li_hw = 0, li_dev = (), li_poll_attempts = 2, li_poll_interval_ms = 10\<rparr>"
    "dt_erase_attempts opened_i2c = 3"
    by (simp_all add: opened_i2c_def set_erase_attempts_def li_set_poll_budget_def clamp max_def word_le_nat_alt)
  have run: "fst (backend_request idle_wires (backend_set_poll \<lparr>pb_attempts = 3, pb_delay_ms = 10\<rparr> (dt_inner opened_i2c)) req []) =
      Err (EI2c (LiExhausted 3 ()))"
    "fst (backend_request idle_wires (backend_set_poll \<lparr>pb_attempts = 2, pb_delay_ms = 10\<rparr> (dt_inner opened_i2c)) req []) =
      Err (EI2c (LiExhausted 2 ()))" for req
    by (simp_all add: inner li_set_poll_budget_def clamp idle_wires_def linux_i2c_request_def sends poll erase_err_def)
  show ?thesis
    using dyn_budget_policy [OF opened_i2c_reach, of "[CMD_ERASE_APP]" "[]"] dyn_budget_policy [OF opened_i2c_reach, of "[CMD_INFO]" "[]"]
      run [of "[CMD_ERASE_APP]"] run [of "[CMD_INFO]"]
    by (auto simp: get_at_def inner(2) CMD_INFO_def CMD_ERASE_APP_def Let_def split: prod.splits)
qed

text \<open>The time a budget asks for, in milliseconds; at least one attempt is made.\<close>

definition budget_ms :: "poll_budget \<Rightarrow> nat" where
  "budget_ms p = max (unat (pb_attempts p)) 1 * unat (pb_delay_ms p)"

text \<open>
  The budget of the command line is the budget on the wire. After \<open>set_poll_budget\<close>
  attempts times interval is the requested time on every backend: exactly for I2C, for
  UART and SPI while the delay is at most 4294 ms, and for the bit-banged line, whose
  interval is fixed at 2 us, while the number of samples fits its counter.
\<close>

lemma poll_window:
  fixes p :: poll_budget and ti :: "('w, 'f) linux_i2c" and tu :: "'w uart_transport" and ts :: "'w spi_transport"
    and tg :: "'w softuart_transport"
  shows "unat (li_poll_attempts (li_set_poll_budget p ti)) * unat (li_poll_interval_ms (li_set_poll_budget p ti)) = budget_ms p \<and>
     (unat (pb_delay_ms p) \<le> 4294 \<longrightarrow>
       unat (uart_poll_attempts (uart_set_poll_budget p tu)) * unat (uart_poll_interval_ns (uart_set_poll_budget p tu)) = budget_ms p * 1000000 \<and>
       unat (spi_poll_attempts (spi_set_poll_budget p ts)) * unat (spi_poll_interval_ns (spi_set_poll_budget p ts)) = budget_ms p * 1000000) \<and>
     (0 < pb_delay_ms p \<and> budget_ms p * 500 < 2 ^ 32 \<longrightarrow>
       unat (su_poll_attempts (softuart_set_poll_budget p tg)) * unat (su_poll_interval_ns (softuart_set_poll_budget p tg)) = budget_ms p * 1000000)"
proof -
  define n ms where "n = max (unat (pb_attempts p)) 1" and "ms = unat (pb_delay_ms p)"
  have b: "budget_ms p = n * ms"
    by (simp add: budget_ms_def n_def ms_def)
  have n: "unat (clamp_attempts (pb_attempts p)) = n" "unat (max (pb_attempts p) 1) = n"
    by (auto simp: clamp_attempts_def n_def max_def word_le_nat_alt)
  have up: "unat (ucast w :: u64) = unat w" for w :: u32
    using unat_u32_lt [of w] by (simp add: unsigned_ucast_eq take_bit_nat_eq_self)
  have sat: "unat (u32_saturating_mul (pb_delay_ms p) 1000000) = ms * 1000000" if "ms \<le> 4294"
    using that unat_mult_lem [of "pb_delay_ms p" 1000000] by (simp add: u32_saturating_mul_def ms_def)
  have soft: "unat (su_poll_attempts (softuart_set_poll_budget p tg)) = n * ms * 500" if "0 < ms" "n * ms * 500 < 2 ^ 32"
  proof -
    have mul: "unat (u64_saturating_mul a b) = unat a * unat b" if "unat a * unat b < 2 ^ 64" for a b
      using that unat_mult_lem [of a b] by (simp add: u64_saturating_mul_def)
    let ?t = "u64_saturating_mul (u64_saturating_mul (ucast (max (pb_attempts p) 1)) (ucast (pb_delay_ms p))) 1000000"
    have t: "unat ?t = n * ms * 1000000"
    proof -
      have "m < 2 ^ 64 \<and> m * 1000000 < 2 ^ 64" if "m * 500 < 2 ^ 32" for m :: nat
        using that by simp
      from this [OF that(2)] show ?thesis
        by (simp add: mul up n(2) ms_def [symmetric])
    qed
    let ?q = "?t div ucast (max DEFAULT_SOFTUART_POLL_INTERVAL_NS 1)"
    have q: "unat ?q = n * ms * 500"
      using t by (simp add: unat_div DEFAULT_SOFTUART_POLL_INTERVAL_NS_def up)
    then have "?q < 2 ^ 32"
      using that(2) by (simp add: word_less_nat_alt)
    moreover have "unat (ucast ?q :: u32) = n * ms * 500"
      using q that(2) by (simp add: unsigned_ucast_eq take_bit_nat_eq_self)
    moreover have "1 * 1 \<le> n * ms"
      using that(1) by (intro mult_le_mono) (simp_all add: n_def)
    then have "\<not> n * ms * 500 \<le> Suc 0"
      by linarith
    ultimately show ?thesis
      by (simp add: softuart_set_poll_budget_def softuart_set_poll_def Let_def clamp_attempts_def max_def word_le_nat_alt)
  qed
  have i: "unat DEFAULT_SOFTUART_POLL_INTERVAL_NS = 2000"
    by (simp add: DEFAULT_SOFTUART_POLL_INTERVAL_NS_def)
  have pos: "0 < pb_delay_ms p \<longleftrightarrow> 0 < ms"
    by (simp add: ms_def word_less_nat_alt)
  show ?thesis
    unfolding b pos using n sat soft i
    by (simp add: li_set_poll_budget_def uart_set_poll_budget_def uart_set_poll_def spi_set_poll_budget_def spi_set_poll_def
        up ms_def [symmetric])
      (simp add: softuart_set_poll_budget_def softuart_set_poll_def Let_def i)
qed

text \<open>Beyond that delay the UART window is shorter than what was asked for.\<close>

lemma uart_window_saturates:
  "unat (uart_poll_attempts (uart_set_poll_budget \<lparr>pb_attempts = 1, pb_delay_ms = 10000\<rparr> tu))
     * unat (uart_poll_interval_ns (uart_set_poll_budget \<lparr>pb_attempts = 1, pb_delay_ms = 10000\<rparr> tu)) = 4294967295"
  by (simp add: uart_set_poll_budget_def uart_set_poll_def clamp_attempts_def u32_saturating_mul_def unsigned_minus_1_eq_mask mask_eq_exp_minus_1)

end
