(* ===== verification/Cli_Install.thy ===== *)
theory Cli_Install
  imports Rust_Str "HOL-Library.Sublist"
begin

text \<open>
  \<^verbatim>\<open>updater-cli/src/install.rs\<close>: programmer templates, their expansion, the search for
  tools and the run of the planned commands. The TOML parser, the file system and the
  process spawner are parameters, and so is how \<open>{:?}\<close> quotes a string; paths are their
  bytes.
\<close>

record target =
  tg_tool :: string
  tg_args :: "string list"
  tg_pre :: "string list list"
  tg_port_arg :: "string option"

text \<open>The targets in the order of the \<open>BTreeMap\<close>.\<close>

record install_config =
  ic_targets :: "(string \<times> target) list"

record invocation =
  inv_tool :: string
  inv_args :: "string list"

datatype exit_status = ExitCode int | KilledBySignal

datatype 'e install_error =
    NoConfig
  | ReadingConfig string 'e
  | ParsingConfig string 'e
  | EmptyTool string string
  | EmptyPre string string nat
  | NoTarget string string "string list"
  | ImageMissing string
  | ImageNotUtf8 string
  | UnclosedBrace string
  | NeedsPort string
  | UnknownPlaceholder string string
  | PortNotAccepted string
  | PreStepPanic
  | ToolNotExecutable string
  | ToolNotFound string
  | SpawnFailed string 'e
  | ToolFailed string int
  | ToolKilled string

record ('w, 'e) install_os =
  io_toml :: "string \<Rightarrow> 'e + install_config"
  io_read_to_string :: "string \<Rightarrow> 'e + string"
  io_metadata :: "string \<Rightarrow> (bool \<times> u32) option"
  io_valid_utf8 :: "string \<Rightarrow> bool"
  io_path_var :: string
  io_spawn :: "string \<Rightarrow> string list \<Rightarrow> 'w \<Rightarrow> ('e + exit_status) \<times> 'w"
  io_debug_str :: "string \<Rightarrow> string"
  io_eprintln :: "string \<Rightarrow> 'w \<Rightarrow> 'w"
  io_println :: "string \<Rightarrow> 'w \<Rightarrow> 'w"

section \<open>Configuration\<close>

fun check_pre :: "string \<Rightarrow> string \<Rightarrow> nat \<Rightarrow> string list list \<Rightarrow> 'e install_error + unit" where
  "check_pre source name i [] = Ok ()"
| "check_pre source name i (step # steps) =
     (if (case step of [] \<Rightarrow> True | tool # _ \<Rightarrow> trim tool = []) then Err (EmptyPre source name i)
      else check_pre source name (Suc i) steps)"

fun check_targets :: "string \<Rightarrow> (string \<times> target) list \<Rightarrow> 'e install_error + unit" where
  "check_targets source [] = Ok ()"
| "check_targets source ((name, t) # ts) =
     (if trim (tg_tool t) = [] then Err (EmptyTool source name)
      else try_bind (check_pre source name 0 (tg_pre t)) (\<lambda>_. check_targets source ts))"

definition parse_config :: "('w, 'e) install_os \<Rightarrow> string \<Rightarrow> string \<Rightarrow> 'e install_error + install_config" where
  "parse_config os text' source =
     try_bind (map_err (ParsingConfig source) (io_toml os text')) (\<lambda>cfg.
     try_bind (check_targets source (ic_targets cfg)) (\<lambda>_. Ok cfg))"

definition config_target :: "install_config \<Rightarrow> string \<Rightarrow> string \<Rightarrow> 'e install_error + target" where
  "config_target cfg name source =
     ok_or (map_of (ic_targets cfg) name) (NoTarget source name (map fst (ic_targets cfg)))"

section \<open>Templates\<close>

text \<open>
  The \<open>while let Some(open)\<close> loop of \<open>expand_one\<close>: the text built so far, the rest of the
  argument and the \<open>port_consumed\<close> flag, which the caller keeps when the expansion fails.
\<close>

function expand_loop ::
  "string \<Rightarrow> string \<Rightarrow> string option \<Rightarrow> bool \<Rightarrow> string \<Rightarrow> string \<Rightarrow> ('e install_error + string) \<times> bool"
where
  "expand_loop arg img port consumed out rest =
     (case find_char CHR ''{'' rest of
        None \<Rightarrow> (Ok (out @ rest), consumed)
      | Some open' \<Rightarrow>
          let out = out @ take open' rest;
              after' = drop (open' + 1) rest
          in case find_char CHR ''}'' after' of
               None \<Rightarrow> (Err (UnclosedBrace arg), consumed)
             | Some close' \<Rightarrow>
                 let name = take close' after'; rest = drop (close' + 1) after' in
                 if name = ''image'' then expand_loop arg img port consumed (out @ img) rest
                 else if name = ''port'' then
                   (case port of
                      None \<Rightarrow> (Err (NeedsPort arg), consumed)
                    | Some p \<Rightarrow> expand_loop arg img port True (out @ p) rest)
                 else (Err (UnknownPlaceholder name arg), consumed))"
  by pat_completeness auto
termination
proof (relation "measure (\<lambda>(arg, img, port, consumed, out, rest). length rest)", goal_cases)
  case (2 arg img port consumed out rest open')
  then have "rest \<noteq> []" by auto
  then show ?case by (auto simp: 2)
next
  case (3 arg img port consumed out rest open')
  then have "rest \<noteq> []" by auto
  then show ?case by (auto simp: 3)
qed simp

declare expand_loop.simps [simp del]

definition expand_one ::
  "string \<Rightarrow> string \<Rightarrow> string option \<Rightarrow> bool \<Rightarrow> ('e install_error + string) \<times> bool"
where
  "expand_one arg img port consumed = expand_loop arg img port consumed [] arg"

fun expand_args ::
  "string list \<Rightarrow> string \<Rightarrow> string option \<Rightarrow> bool \<Rightarrow> ('e install_error + string list) \<times> bool"
where
  "expand_args [] img port consumed = (Ok [], consumed)"
| "expand_args (arg # args) img port consumed =
     st_bind (expand_one arg img port consumed) (\<lambda>a consumed.
     st_bind (expand_args args img port consumed) (\<lambda>as consumed. (Ok (a # as), consumed)))"

text \<open>The loop over the \<open>pre\<close> steps; indexing an empty step panics (\<open>parse_config\<close> refuses one).\<close>

fun plan_pre ::
  "string list list \<Rightarrow> string \<Rightarrow> string option \<Rightarrow> bool \<Rightarrow> ('e install_error + invocation list) \<times> bool"
where
  "plan_pre [] img port consumed = (Ok [], consumed)"
| "plan_pre (step # steps) img port consumed =
     (case step of
        [] \<Rightarrow> (Err PreStepPanic, consumed)
      | tool # args \<Rightarrow>
          st_bind (expand_args args img port consumed) (\<lambda>args consumed.
          st_bind (plan_pre steps img port consumed) (\<lambda>invs consumed.
            (Ok (\<lparr>inv_tool = tool, inv_args = args\<rparr> # invs), consumed))))"

definition plan :: "target \<Rightarrow> string \<Rightarrow> string option \<Rightarrow> 'e install_error + invocation list" where
  "plan t img port =
     fst (st_bind (plan_pre (tg_pre t) img port False) (\<lambda>out consumed.
          st_bind (expand_args (tg_args t) img port consumed) (\<lambda>args consumed.
            (case port of
               Some p \<Rightarrow>
                 if \<not> consumed then
                   (case tg_port_arg t of
                      None \<Rightarrow> (Err (PortNotAccepted p), consumed)
                    | Some flag \<Rightarrow> (Ok (out @ [\<lparr>inv_tool = tg_tool t, inv_args = args @ [flag, p]\<rparr>]), consumed))
                 else (Ok (out @ [\<lparr>inv_tool = tg_tool t, inv_args = args\<rparr>]), consumed)
             | None \<Rightarrow> (Ok (out @ [\<lparr>inv_tool = tg_tool t, inv_args = args\<rparr>]), consumed)))))"

section \<open>Tools\<close>

definition is_executable :: "('w, 'e) install_os \<Rightarrow> string \<Rightarrow> bool" where
  "is_executable os p =
     (case io_metadata os p of None \<Rightarrow> False | Some (is_file, mode) \<Rightarrow> is_file \<and> mode AND 73 \<noteq> 0)"

text \<open>\<open>Path::join\<close> of a relative name.\<close>

definition path_join :: "string \<Rightarrow> string \<Rightarrow> string" where
  "path_join dir name = (if dir \<noteq> [] \<and> last dir = CHR ''/'' then dir @ name else dir @ ''/'' @ name)"

fun search_path :: "('w, 'e) install_os \<Rightarrow> string \<Rightarrow> string list \<Rightarrow> 'e install_error + string" where
  "search_path os tool [] = Err (ToolNotFound tool)"
| "search_path os tool (dir # dirs) =
     (let candidate = path_join dir tool in
      if is_executable os candidate then Ok candidate else search_path os tool dirs)"

definition resolve_tool_in :: "('w, 'e) install_os \<Rightarrow> string \<Rightarrow> string \<Rightarrow> 'e install_error + string" where
  "resolve_tool_in os tool path_var =
     (if CHR ''/'' \<in> set tool then (if is_executable os tool then Ok tool else Err (ToolNotExecutable tool))
      else search_path os tool (filter (\<lambda>d. d \<noteq> []) (split_on CHR '':'' [] path_var)))"

definition resolve_tool :: "('w, 'e) install_os \<Rightarrow> string \<Rightarrow> 'e install_error + string" where
  "resolve_tool os tool = resolve_tool_in os tool (io_path_var os)"

fun resolve_all :: "('w, 'e) install_os \<Rightarrow> invocation list \<Rightarrow> 'e install_error + string list" where
  "resolve_all os [] = Ok []"
| "resolve_all os (i # invs) =
     try_bind (resolve_tool os (inv_tool i)) (\<lambda>exe. try_bind (resolve_all os invs) (\<lambda>exes. Ok (exe # exes)))"

section \<open>The run\<close>

definition display_arg :: "('w, 'e) install_os \<Rightarrow> string \<Rightarrow> string" where
  "display_arg os arg = (if arg = [] \<or> any_ws arg then io_debug_str os arg else arg)"

fun join_space :: "string list \<Rightarrow> string" where
  "join_space [] = []"
| "join_space [s] = s"
| "join_space (s # ss) = s @ '' '' @ join_space ss"

definition echo_line :: "('w, 'e) install_os \<Rightarrow> invocation \<Rightarrow> string" where
  "echo_line os i = ''+ '' @ inv_tool i @ '' '' @ join_space (map (display_arg os) (inv_args i))"

fun run_all :: "('w, 'e) install_os \<Rightarrow> (invocation \<times> string) list \<Rightarrow> 'w \<Rightarrow> ('e install_error + unit) \<times> 'w" where
  "run_all os [] w = (Ok (), w)"
| "run_all os ((i, exe) # cmds) w =
     (let w = io_eprintln os (echo_line os i) w in
      case io_spawn os exe (inv_args i) w of
        (Err e, w) \<Rightarrow> (Err (SpawnFailed exe e), w)
      | (Ok status, w) \<Rightarrow>
          (case status of
             ExitCode code \<Rightarrow> if code = 0 then run_all os cmds w else (Err (ToolFailed exe code), w)
           | KilledBySignal \<Rightarrow> (Err (ToolKilled exe), w)))"

definition is_file :: "('w, 'e) install_os \<Rightarrow> string \<Rightarrow> bool" where
  "is_file os p = (case io_metadata os p of None \<Rightarrow> False | Some (f, _) \<Rightarrow> f)"

definition read_config :: "('w, 'e) install_os \<Rightarrow> string option \<Rightarrow> 'e install_error + (string \<times> string)" where
  "read_config os explicit =
     try_bind (case explicit of
         Some p \<Rightarrow> Ok p
       | None \<Rightarrow> if \<not> is_file os ''install.toml'' then Err NoConfig else Ok ''install.toml'')
       (\<lambda>path. try_bind (map_err (ReadingConfig path) (io_read_to_string os path)) (\<lambda>text'. Ok (text', path)))"

text \<open>Everything \<open>run_cli\<close> does before the first child: the target, and the commands to run with their executables.\<close>

definition prepare ::
  "('w, 'e) install_os \<Rightarrow> string \<Rightarrow> string \<Rightarrow> string option \<Rightarrow> string option \<Rightarrow>
     'e install_error + (target \<times> (invocation \<times> string) list)"
where
  "prepare os target_name img port config =
     try_bind (read_config os config) (\<lambda>(text', source).
     try_bind (parse_config os text' source) (\<lambda>cfg.
     try_bind (config_target cfg target_name source) (\<lambda>target.
     if \<not> is_file os img then Err (ImageMissing img)
     else if \<not> io_valid_utf8 os img then Err (ImageNotUtf8 img)
     else
       try_bind (plan target img port) (\<lambda>invocations.
       try_bind (resolve_all os invocations) (\<lambda>resolved. Ok (target, zip invocations resolved))))))"

definition run_cli ::
  "('w, 'e) install_os \<Rightarrow> string \<Rightarrow> string \<Rightarrow> string option \<Rightarrow> string option \<Rightarrow> 'w \<Rightarrow> ('e install_error + unit) \<times> 'w"
where
  "run_cli os target_name img port config w =
     st_bind (prepare os target_name img port config, w) (\<lambda>(target, cmds) w.
     st_bind (run_all os cmds w) (\<lambda>_ w.
       (Ok (), io_println os (''install OK: '' @ target_name @ '' via '' @ tg_tool target) w)))"

section \<open>What a template means\<close>

text \<open>A template argument as its parts: literal text without an opening brace, and placeholders.\<close>

datatype segment = Lit string | ImageSeg | PortSeg

fun seg_text :: "segment \<Rightarrow> string" where
  "seg_text (Lit s) = s"
| "seg_text ImageSeg = ''{image}''"
| "seg_text PortSeg = ''{port}''"

fun seg_value :: "string \<Rightarrow> string option \<Rightarrow> segment \<Rightarrow> string" where
  "seg_value img port (Lit s) = s"
| "seg_value img port ImageSeg = img"
| "seg_value img port PortSeg = (case port of None \<Rightarrow> [] | Some p \<Rightarrow> p)"

fun seg_ok :: "string option \<Rightarrow> segment \<Rightarrow> bool" where
  "seg_ok port (Lit s) \<longleftrightarrow> CHR ''{'' \<notin> set s"
| "seg_ok port ImageSeg \<longleftrightarrow> True"
| "seg_ok port PortSeg \<longleftrightarrow> port \<noteq> None"

definition template :: "segment list \<Rightarrow> string" where
  "template segs = concat (map seg_text segs)"

definition substituted :: "string \<Rightarrow> string option \<Rightarrow> segment list \<Rightarrow> string" where
  "substituted img port segs = concat (map (seg_value img port) segs)"

lemma find_char_None: "find_char c s = None \<longleftrightarrow> c \<notin> set s"
  by (induction s) auto

lemma find_char_append: "c \<notin> set s \<Longrightarrow> find_char c (s @ t) = map_option ((+) (length s)) (find_char c t)"
proof (induction s)
  case Nil
  then show ?case by (cases "find_char c t") simp_all
next
  case (Cons x s)
  then show ?case by (cases "find_char c t") auto
qed

lemma find_char_Some:
  "find_char c s = Some i \<Longrightarrow> i < length s \<and> s = take i s @ c # drop (i + 1) s \<and> c \<notin> set (take i s)"
proof (induction s arbitrary: i)
  case (Cons x s)
  then show ?case
    by (cases "x = c") (auto split: option.splits)
qed simp

lemma expand_loop_lit:
  assumes "CHR ''{'' \<notin> set s"
  shows "expand_loop arg img port c out (s @ rest) = expand_loop arg img port c (out @ s) rest"
proof (cases "find_char CHR ''{'' rest")
  case None
  with assms show ?thesis
    by (simp add: expand_loop.simps [of arg img port c out] expand_loop.simps [of arg img port c "out @ s"] find_char_append)
next
  case (Some i)
  then have "find_char CHR ''{'' (s @ rest) = Some (length s + i)"
    using assms by (simp add: find_char_append)
  with Some show ?thesis
    unfolding expand_loop.simps [of arg img port c out "s @ rest"] expand_loop.simps [of arg img port c "out @ s" rest] by simp
qed

lemma expand_loop_segs:
  assumes "\<forall>seg \<in> set segs. seg_ok port seg"
  shows "expand_loop arg img port c out (template segs) =
     ((Ok (out @ substituted img port segs) :: 'e install_error + string), c \<or> PortSeg \<in> set segs)"
  using assms
proof (induction segs arbitrary: c out)
  case Nil
  then show ?case
    by (simp add: expand_loop.simps template_def substituted_def)
next
  case (Cons seg segs)
  have IH: "expand_loop arg img port c out (concat (map seg_text segs)) =
      ((Ok (out @ concat (map (seg_value img port) segs)) :: 'e install_error + string), c \<or> PortSeg \<in> set segs)" for c out
    using Cons by (simp add: template_def substituted_def)
  show ?case
  proof (cases seg)
    case (Lit s)
    with Cons.prems show ?thesis
      by (simp add: template_def substituted_def expand_loop_lit IH)
  next
    case ImageSeg
    then show ?thesis
      by (simp add: template_def substituted_def expand_loop.simps [of arg img port c out] IH Let_def)
  next
    case PortSeg
    with Cons.prems obtain p where "port = Some p"
      by auto
    with PortSeg IH show ?thesis
      by (simp add: template_def substituted_def expand_loop.simps [of arg img "Some p" c out] Let_def)
  qed
qed

lemma expand_loop_Ok:
  fixes r :: string
  assumes "expand_loop arg img port c out rest = ((Ok r :: 'e install_error + string), c')"
  shows "\<exists>segs. (\<forall>seg \<in> set segs. seg_ok port seg) \<and> rest = template segs \<and> r = out @ substituted img port segs
     \<and> c' = (c \<or> PortSeg \<in> set segs)"
  using assms
proof (induction arg img port c out rest rule: expand_loop.induct)
  case (1 arg img port c out rest)
  note step = expand_loop.simps [of arg img port c out rest, where 'a = 'e]
  show ?case
  proof (cases "find_char CHR ''{'' rest")
    case None
    with "1.prems" step show ?thesis
      by (intro exI [of _ "[Lit rest]"]) (simp add: template_def substituted_def find_char_None)
  next
    case (Some i)
    let ?lit = "take i rest" and ?after = "drop (i + 1) rest"
    have rest: "rest = ?lit @ CHR ''{'' # ?after" "CHR ''{'' \<notin> set ?lit"
      using find_char_Some [OF Some] by auto
    from "1.prems" step Some obtain j where j: "find_char CHR ''}'' ?after = Some j"
      by (auto simp: Let_def split: option.splits)
    let ?name = "take j ?after" and ?rest = "drop (j + 1) ?after"
    have aft: "?after = ?name @ CHR ''}'' # ?rest"
      using find_char_Some [OF j] by auto
    have whole: "rest = ?lit @ CHR ''{'' # ?name @ CHR ''}'' # ?rest"
      using rest(1) aft by simp
    consider "?name = ''image''" | p where "?name = ''port''" "port = Some p"
      using "1.prems" step Some j by (auto simp: Let_def split: if_splits option.splits)
    then show ?thesis
    proof cases
      case 1
      have "expand_loop arg img port c ((out @ ?lit) @ img) ?rest = ((Ok r :: 'e install_error + string), c')"
        using "1.prems" step Some j 1 by (simp add: Let_def)
      from "1.IH"(1) [OF Some refl refl j refl refl 1 this] obtain segs where
        "\<forall>seg \<in> set segs. seg_ok port seg" "?rest = template segs"
        "r = ((out @ ?lit) @ img) @ substituted img port segs" "c' = (c \<or> PortSeg \<in> set segs)"
        by blast
      with whole 1 rest(2) show ?thesis
        by (intro exI [of _ "Lit ?lit # ImageSeg # segs"]) (simp add: template_def substituted_def)
    next
      case (2 p)
      have "expand_loop arg img port True ((out @ ?lit) @ p) ?rest = ((Ok r :: 'e install_error + string), c')"
        using "1.prems" step Some j 2 by (simp add: Let_def)
      from "1.IH"(2) [OF Some refl refl j refl refl _ 2 this] 2(1) obtain segs where
        "\<forall>seg \<in> set segs. seg_ok port seg" "?rest = template segs"
        "r = ((out @ ?lit) @ p) @ substituted img port segs" "c' = (True \<or> PortSeg \<in> set segs)"
        by auto
      with whole 2 rest(2) show ?thesis
        by (intro exI [of _ "Lit ?lit # PortSeg # segs"]) (simp add: template_def substituted_def)
    qed
  qed
qed

section \<open>A given port is used\<close>

lemma expand_one_iff:
  "expand_one arg img port c = ((Ok r :: 'e install_error + string), c') \<longleftrightarrow>
     (\<exists>segs. (\<forall>seg \<in> set segs. seg_ok port seg) \<and> arg = template segs \<and> r = substituted img port segs
        \<and> c' = (c \<or> PortSeg \<in> set segs))"
proof
  assume "expand_one arg img port c = ((Ok r :: 'e install_error + string), c')"
  from expand_loop_Ok [OF this [unfolded expand_one_def]]
  show "\<exists>segs. (\<forall>seg \<in> set segs. seg_ok port seg) \<and> arg = template segs \<and> r = substituted img port segs
      \<and> c' = (c \<or> PortSeg \<in> set segs)"
    by simp
qed (auto simp: expand_one_def expand_loop_segs)

definition mentions :: "string \<Rightarrow> string list \<Rightarrow> bool" where
  "mentions p args \<longleftrightarrow> list_ex (sublist p) args"

lemma mentions_simps [simp]:
  "\<not> mentions p []" "mentions p (a # as) \<longleftrightarrow> sublist p a \<or> mentions p as"
  "mentions p (xs @ ys) \<longleftrightarrow> mentions p xs \<or> mentions p ys"
  by (simp_all add: mentions_def)

lemma sublist_prepend: "sublist p t \<Longrightarrow> sublist p (x @ t)"
  unfolding sublist_def by (metis append_assoc)

lemma substituted_port: "PortSeg \<in> set segs \<Longrightarrow> sublist p (substituted img (Some p) segs)"
proof (induction segs)
  case (Cons seg segs)
  then show ?case
    by (cases "seg = PortSeg") (auto simp: substituted_def intro: sublist_append_rightI sublist_prepend)
qed simp

lemma expand_one_port:
  "expand_one arg img (Some p) c = ((Ok r :: 'e install_error + string), c') \<Longrightarrow> c' \<Longrightarrow> \<not> c \<Longrightarrow> sublist p r"
  by (auto simp: expand_one_iff substituted_port)

lemma expand_args_port:
  "expand_args args img (Some p) c = ((Ok r :: 'e install_error + string list), c') \<Longrightarrow> c' \<Longrightarrow> \<not> c \<Longrightarrow> mentions p r"
proof (induction args arbitrary: c r)
  case (Cons arg args)
  obtain a c1 as where a: "expand_one arg img (Some p) c = ((Ok a :: 'e install_error + string), c1)"
    and as: "expand_args args img (Some p) c1 = ((Ok as :: 'e install_error + string list), c')" "r = a # as"
    using Cons.prems(1) by (auto simp: bind_iff)
  show ?case
    using Cons.IH [OF as(1)] Cons.prems(2,3) expand_one_port [OF a] as(2) by (cases c1) auto
qed simp

lemma plan_pre_port:
  "plan_pre steps img (Some p) c = ((Ok invs :: 'e install_error + invocation list), c') \<Longrightarrow> c' \<Longrightarrow> \<not> c \<Longrightarrow>
     list_ex (\<lambda>i. mentions p (inv_args i)) invs"
proof (induction steps arbitrary: c invs)
  case (Cons step steps)
  obtain tool args where step: "step = tool # args"
    using Cons.prems(1) by (cases step) auto
  obtain as c1 rest where as: "expand_args args img (Some p) c = ((Ok as :: 'e install_error + string list), c1)"
    and rest: "plan_pre steps img (Some p) c1 = ((Ok rest :: 'e install_error + invocation list), c')"
      "invs = \<lparr>inv_tool = tool, inv_args = as\<rparr> # rest"
    using Cons.prems(1) step by (auto simp: bind_iff)
  show ?case
    using Cons.IH [OF rest(1)] Cons.prems(2,3) expand_args_port [OF as] rest(2) by (cases c1) auto
qed simp

section \<open>The commands that run\<close>

text \<open>The host next to the list of what it was told to do.\<close>

datatype event = Echoed string | Spawned string "string list" | Printed string

definition logging :: "('w, 'e) install_os \<Rightarrow> ('w \<times> event list, 'e) install_os" where
  "logging os = \<lparr>io_toml = io_toml os, io_read_to_string = io_read_to_string os, io_metadata = io_metadata os,
     io_valid_utf8 = io_valid_utf8 os, io_path_var = io_path_var os,
     io_spawn = (\<lambda>exe args (w, log). let (r, w') = io_spawn os exe args w in (r, (w', log @ [Spawned exe args]))),
     io_debug_str = io_debug_str os,
     io_eprintln = (\<lambda>line (w, log). (io_eprintln os line w, log @ [Echoed line])),
     io_println = (\<lambda>line (w, log). (io_println os line w, log @ [Printed line]))\<rparr>"

lemma logging_simps [simp]:
  "io_toml (logging os) = io_toml os" "io_read_to_string (logging os) = io_read_to_string os"
  "io_metadata (logging os) = io_metadata os" "io_valid_utf8 (logging os) = io_valid_utf8 os"
  "io_path_var (logging os) = io_path_var os" "io_debug_str (logging os) = io_debug_str os"
  "io_spawn (logging os) exe args (w, log) =
     (fst (io_spawn os exe args w), (snd (io_spawn os exe args w), log @ [Spawned exe args]))"
  "io_eprintln (logging os) line (w, log) = (io_eprintln os line w, log @ [Echoed line])"
  "io_println (logging os) line (w, log) = (io_println os line w, log @ [Printed line])"
  by (simp_all add: logging_def split: prod.split)

lemma logging_echo_line [simp]: "echo_line (logging os) = echo_line os"
proof -
  have "display_arg (logging os) = display_arg os"
    by (rule ext) (simp add: display_arg_def)
  then show ?thesis
    by (intro ext) (simp add: echo_line_def)
qed

lemma logging_is_executable [simp]: "is_executable (logging os) = is_executable os"
  by (simp add: is_executable_def fun_eq_iff)

lemma logging_search_path [simp]: "search_path (logging os) tool dirs = search_path os tool dirs"
  by (induction dirs) (simp_all add: Let_def)

lemma logging_resolve_all [simp]: "resolve_all (logging os) invs = resolve_all os invs"
  by (induction invs) (simp_all add: resolve_tool_def resolve_tool_in_def)

lemma logging_prepare [simp]: "prepare (logging os) name img port config = prepare os name img port config"
  by (simp add: prepare_def read_config_def parse_config_def is_file_def cong: if_cong)

lemma resolve_all_executable:
  "resolve_all os invs = Ok exes \<Longrightarrow> length exes = length invs \<and> list_all (is_executable os) exes"
proof (induction invs arbitrary: exes)
  case (Cons i invs)
  then obtain exe rest where r: "resolve_tool os (inv_tool i) = Ok exe" "resolve_all os invs = Ok rest" "exes = exe # rest"
    by (auto simp: bind_iff)
  have "search_path os tool dirs = Ok exe \<Longrightarrow> is_executable os exe" for tool dirs
    by (induction dirs) (auto simp: Let_def split: if_splits)
  with r(1) have "is_executable os exe"
    by (auto simp: resolve_tool_def resolve_tool_in_def split: if_splits)
  with Cons.IH [OF r(2)] r(3) show ?case by simp
qed simp

text \<open>What a command leaves in the list: its echo, then the child with its exact arguments.\<close>

definition events :: "('w, 'e) install_os \<Rightarrow> invocation \<times> string \<Rightarrow> event list" where
  "events os cmd = [Echoed (echo_line os (fst cmd)), Spawned (snd cmd) (inv_args (fst cmd))]"

lemma run_all_log:
  "run_all (logging os) cmds (w, log) = (r, (w', log')) \<Longrightarrow>
     \<exists>k \<le> length cmds. log' = log @ concat (map (events os) (take k cmds)) \<and> (r = Ok () \<longleftrightarrow> k = length cmds \<and> is_ok r)"
proof (induction cmds arbitrary: w log)
  case Nil
  then show ?case by auto
next
  case (Cons cmd cmds)
  obtain i exe where cmd: "cmd = (i, exe)" by fastforce
  obtain q w1 where sp: "io_spawn os exe (inv_args i) (io_eprintln os (echo_line os i) w) = (q, w1)" by fastforce
  show ?case
  proof (cases "q = Ok (ExitCode 0)")
    case True
    with Cons.prems cmd sp have "run_all (logging os) cmds (w1, log @ events os cmd) = (r, (w', log'))"
      by (simp add: events_def Let_def)
    from Cons.IH [OF this] obtain k where "k \<le> length cmds" "log' = (log @ events os cmd) @ concat (map (events os) (take k cmds))"
      "r = Ok () \<longleftrightarrow> k = length cmds \<and> is_ok r"
      by blast
    then show ?thesis
      by (intro exI [of _ "Suc k"]) auto
  next
    case False
    with Cons.prems cmd sp have "log' = log @ events os cmd \<and> \<not> is_ok r"
      by (auto simp: events_def Let_def split: sum.splits exit_status.splits if_splits)
    then show ?thesis
      by (intro exI [of _ "Suc 0"]) auto
  qed
qed

text \<open>
  The echoed line is meant to show how many arguments there are. An argument without white
  space is shown as it is, quotes included, so two lines can be the same.
\<close>

lemma echo_line_ambiguous:
  assumes "io_debug_str os ''x y'' = [CHR 0x22] @ ''x y'' @ [CHR 0x22]"
  shows "echo_line os \<lparr>inv_tool = t, inv_args = [[CHR 0x22] @ ''x'', ''y'' @ [CHR 0x22]]\<rparr> =
    echo_line os \<lparr>inv_tool = t, inv_args = [''x y'']\<rparr>"
  using assms by (simp add: echo_line_def display_arg_def ws_start_def)

section \<open>Properties\<close>

text \<open>
  C32: the expansion of a template argument. It succeeds exactly on the arguments that are
  made of literal text without an opening brace and of the placeholders for image and
  port, the latter only if a port was given, and gives the text with each placeholder
  replaced; text that was inserted is not looked at again. The port counts as consumed
  exactly if its placeholder occurred.
\<close>

theorem expand_one_substitutes:
  "expand_one arg img port c = ((Ok r :: 'e install_error + string), c') \<longleftrightarrow>
     (\<exists>segs. list_all (seg_ok port) segs \<and> arg = template segs \<and> r = substituted img port segs
        \<and> c' = (c \<or> PortSeg \<in> set segs))"
  by (simp add: expand_one_iff list_all_iff)

text \<open>
  A port that was given is never ignored. When \<open>plan\<close> succeeds with a port, some
  argument of some planned command contains it.
\<close>

lemma plan_uses_port:
  fixes invs :: "invocation list"
  assumes "plan t img (Some p) = (Ok invs :: 'e install_error + invocation list)"
  shows "list_ex (\<lambda>i. mentions p (inv_args i)) invs"
proof -
  obtain out c1 args c2 where pre: "plan_pre (tg_pre t) img (Some p) False = ((Ok out :: 'e install_error + invocation list), c1)"
    and args: "expand_args (tg_args t) img (Some p) c1 = ((Ok args :: 'e install_error + string list), c2)"
    and invs: "invs = out @ [\<lparr>inv_tool = tg_tool t, inv_args = (if c2 then args else args @ [the (tg_port_arg t), p])\<rparr>]"
  proof -
    let ?pre = "plan_pre (tg_pre t) img (Some p) False :: ('e install_error + invocation list) \<times> bool"
    obtain out c1 where pre: "?pre = (Ok out, c1)"
      using assms by (cases ?pre; cases "fst ?pre") (auto simp: plan_def)
    let ?args = "expand_args (tg_args t) img (Some p) c1 :: ('e install_error + string list) \<times> bool"
    obtain args c2 where args: "?args = (Ok args, c2)"
      using assms pre by (cases ?args; cases "fst ?args") (auto simp: plan_def)
    show ?thesis
      using that [OF pre args] assms pre args by (auto simp: plan_def split: if_splits option.splits)
  qed
  show ?thesis
    using invs plan_pre_port [OF pre] expand_args_port [OF args] by (cases c1; cases c2) auto
qed

definition demo_target :: target where
  "demo_target = \<lparr>tg_tool = ''avrdude'', tg_args = [''-U'', ''flash:w:{image}:i''], tg_pre = [[''avrdude'', ''--fuse'']],
     tg_port_arg = Some ''-P''\<rparr>"

lemma demo_plan:
  "plan demo_target ''fw.hex'' (Some ''usb'') =
     (Ok [\<lparr>inv_tool = ''avrdude'', inv_args = [''--fuse'']\<rparr>,
       \<lparr>inv_tool = ''avrdude'', inv_args = [''-U'', ''flash:w:fw.hex:i'', ''-P'', ''usb'']\<rparr>] :: unit install_error + invocation list)"
  by (simp add: plan_def demo_target_def expand_one_def expand_loop.simps)

text \<open>
  C25: no child runs before everything is known to be in order. Whatever happens, what
  \<open>run_cli\<close> has echoed and spawned is a front part of a completely prepared sequence of
  commands, each announced by its line and then run with exactly its arguments: the
  configuration was valid, the target existed, the image was a file, every template
  expanded, and every tool resolved to an executable file. Success is printed only after all
  of them ran, and nothing happens when the preparation fails.
\<close>

theorem run_cli_prepared:
  fixes os :: "('w, 'e) install_os"
  assumes "run_cli (logging os) name img port config (w, []) = (r, (w', log))"
  shows "(log = [] \<and> \<not> is_ok r) \<or>
     (\<exists>target cmds k. prepare os name img port config = Ok (target, cmds) \<and> list_all (\<lambda>cmd. is_executable os (snd cmd)) cmds \<and>
        k \<le> length cmds \<and> (is_ok r \<longrightarrow> k = length cmds) \<and>
        log = concat (map (events os) (take k cmds))
          @ (if is_ok r then [Printed (''install OK: '' @ name @ '' via '' @ tg_tool target)] else []))"
proof (cases "prepare os name img port config")
  case (Inl e)
  with assms show ?thesis
    by (simp add: run_cli_def) auto
next
  case (Inr prepared)
  obtain target cmds where p: "prepared = (target, cmds)" by fastforce
  obtain q w1 log1 where run: "run_all (logging os) cmds (w, []) = (q, (w1, log1))"
    using prod_cases3 by blast
  have r: "r = q" "log = log1 @ (if is_ok q then [Printed (''install OK: '' @ name @ '' via '' @ tg_tool target)] else [])"
    using assms Inr p run by (cases q; auto simp: run_cli_def is_ok_def)+
  obtain invs exes where cmds: "resolve_all os invs = Ok exes" "cmds = zip invs exes"
    using Inr p by (auto simp: prepare_def bind_iff split: if_splits prod.splits)
  have "list_all (\<lambda>cmd. is_executable os (snd cmd)) cmds"
    using resolve_all_executable [OF cmds(1)] cmds(2) by (auto simp: list_all_iff dest: set_zip_rightD)
  moreover obtain k where k: "k \<le> length cmds" "log1 = concat (map (events os) (take k cmds))" "q = Ok () \<longleftrightarrow> k = length cmds \<and> is_ok q"
    using run_all_log [OF run] by auto
  moreover have "is_ok q \<longleftrightarrow> q = Ok ()"
    by (cases q) auto
  ultimately show ?thesis
    using Inr p r by blast
qed

text \<open>A host with \<open>avrdude\<close> on its path, whose programmer fails at the second command.\<close>

definition demo_os :: "(nat, unit) install_os" where
  "demo_os = \<lparr>io_toml = (\<lambda>_. Ok \<lparr>ic_targets = [(''avr'', demo_target)]\<rparr>), io_read_to_string = (\<lambda>_. Ok []),
     io_metadata = (\<lambda>p. if p \<in> {''fw.hex'', ''/bin/avrdude''} then Some (True, 0x1ED) else None),
     io_valid_utf8 = (\<lambda>_. True), io_path_var = '':/bin'',
     io_spawn = (\<lambda>_ _ n. (Ok (ExitCode (int n)), Suc n)), io_debug_str = (\<lambda>s. [CHR 0x22] @ s @ [CHR 0x22]),
     io_eprintln = (\<lambda>_ n. n), io_println = (\<lambda>_ n. n)\<rparr>"

definition demo_cmds :: "(invocation \<times> string) list" where
  "demo_cmds = [(\<lparr>inv_tool = ''avrdude'', inv_args = [''--fuse'']\<rparr>, ''/bin/avrdude''),
     (\<lparr>inv_tool = ''avrdude'', inv_args = [''-U'', ''flash:w:fw.hex:i'', ''-P'', ''usb'']\<rparr>, ''/bin/avrdude'')]"

lemma demo_prepare: "prepare demo_os ''avr'' ''fw.hex'' (Some ''usb'') (Some ''c.toml'') = Ok (demo_target, demo_cmds)"
proof -
  have "trim ''avrdude'' = ''avrdude''"
    by (rule trim_plain) (simp_all add: plain_def)
  moreover have "resolve_tool demo_os ''avrdude'' = Ok ''/bin/avrdude''"
    by (simp add: resolve_tool_def resolve_tool_in_def demo_os_def path_join_def is_executable_def Let_def)
  moreover have "plan demo_target ''fw.hex'' (Some ''usb'') =
     (Ok [\<lparr>inv_tool = ''avrdude'', inv_args = [''--fuse'']\<rparr>,
       \<lparr>inv_tool = ''avrdude'', inv_args = [''-U'', ''flash:w:fw.hex:i'', ''-P'', ''usb'']\<rparr>] :: unit install_error + invocation list)"
    by (rule demo_plan)
  moreover have "check_targets ''c.toml'' [(''avr'', demo_target)] = (Ok () :: unit install_error + unit)"
    using \<open>trim ''avrdude'' = ''avrdude''\<close> by (simp add: demo_target_def)
  moreover have "read_config demo_os (Some ''c.toml'') = Ok ([], ''c.toml'')" "is_file demo_os ''fw.hex''"
    "io_valid_utf8 demo_os ''fw.hex''" "io_toml demo_os [] = Ok \<lparr>ic_targets = [(''avr'', demo_target)]\<rparr>"
    by (simp_all add: read_config_def demo_os_def is_file_def)
  ultimately show ?thesis
    by (simp add: prepare_def parse_config_def config_target_def demo_cmds_def)
qed

lemma display_arg_plain: "arg \<noteq> [] \<Longrightarrow> list_all plain arg \<Longrightarrow> display_arg os arg = arg"
  by (simp add: display_arg_def any_ws_plain)

lemma demo_io: "io_spawn demo_os exe args n = (Ok (ExitCode (int n)), Suc n)" "io_eprintln demo_os line n = n"
  by (simp_all add: demo_os_def)

lemma demo_echo:
  "echo_line demo_os \<lparr>inv_tool = ''avrdude'', inv_args = [''--fuse'']\<rparr> = ''+ avrdude --fuse''"
  "echo_line demo_os \<lparr>inv_tool = ''avrdude'', inv_args = [''-U'', ''flash:w:fw.hex:i'', ''-P'', ''usb'']\<rparr> =
     ''+ avrdude -U flash:w:fw.hex:i -P usb''"
  by (simp_all add: echo_line_def display_arg_plain plain_def)

definition demo_log :: "event list" where
  "demo_log = [Echoed ''+ avrdude --fuse'', Spawned ''/bin/avrdude'' [''--fuse''],
     Echoed ''+ avrdude -U flash:w:fw.hex:i -P usb'', Spawned ''/bin/avrdude'' [''-U'', ''flash:w:fw.hex:i'', ''-P'', ''usb'']]"

theorem run_cli_prepared_witness:
  "\<exists>k \<le> 2. demo_log = concat (map (events demo_os) (take k demo_cmds))"
proof -
  have "run_cli (logging demo_os) ''avr'' ''fw.hex'' (Some ''usb'') (Some ''c.toml'') (0, []) =
      (Err (ToolFailed ''/bin/avrdude'' 1), (2, demo_log))"
    by (simp add: run_cli_def demo_prepare demo_cmds_def demo_log_def demo_echo demo_io numeral_2_eq_2 Let_def)
  note run = run_cli_prepared [OF this, unfolded demo_prepare]
  have "demo_log \<noteq> []" "length demo_cmds = 2"
    by (simp_all add: demo_log_def demo_cmds_def)
  with run show ?thesis
    by (auto simp: is_ok_def)
qed

end
