(* ===== verification/Ihex.thy ===== *)
theory Ihex
  imports Rust_Str
begin

text \<open>
  \<^verbatim>\<open>updater-cli/src/ihex.rs\<close>: the Intel HEX reader. \<open>anyhow\<close> messages are values that
  keep what the message names: the line number and the offending data. The notes printed to
  the standard error output are collected next to the result.
\<close>

datatype hex_error = OddDigits | NotUtf8 string | InvalidDigits string

datatype ihex_error =
    AfterEof nat
  | NoColon nat
  | BadHex nat hex_error
  | TooShort nat nat
  | MissingChecksum nat
  | LengthMismatch nat u8 nat
  | BadChecksum nat
  | ExtendedAddress nat u8
  | UnsupportedType nat u8
  | MissingEof

record ihex_state =
  ih_out :: bytes
  ih_eof :: bool
  ih_notes :: "(nat \<times> u8) list"

fun decode_pairs :: "string \<Rightarrow> hex_error + bytes" where
  "decode_pairs (a # b # s) =
     try_bind
       (if \<not> utf8_pair a b then Err (NotUtf8 [a, b])
        else map_err (\<lambda>_. InvalidDigits [a, b]) (from_str_radix 16 256 [a, b]))
       (\<lambda>v. try_bind (decode_pairs s) (\<lambda>vs. Ok (word_of_nat v # vs)))"
| "decode_pairs _ = Ok []"

definition decode_hex :: "string \<Rightarrow> hex_error + bytes" where
  "decode_hex s = (if length s mod 2 \<noteq> 0 then Err OddDigits else decode_pairs s)"

text \<open>\<open>out.resize(end, 0xFF)\<close> when \<open>out\<close> is shorter, then the copy into \<open>out[addr..end]\<close>.\<close>

definition place :: "nat \<Rightarrow> bytes \<Rightarrow> bytes \<Rightarrow> bytes" where
  "place addr data out =
     (let end' = addr + length data;
          out = (if length out < end' then out @ replicate (end' - length out) 0xFF else out)
      in put_at addr data out)"

text \<open>From the bytes of a record on: pattern, length, checksum and record type.\<close>

definition ihex_record :: "nat \<Rightarrow> bytes \<Rightarrow> ihex_state \<Rightarrow> ihex_error + ihex_state" where
  "ihex_record lineno bs st =
     (case bs of
        ll # addr_hi # addr_lo # rtype # rest \<Rightarrow>
          (case split_last rest of
             None \<Rightarrow> Err (MissingChecksum lineno)
           | Some (_, data) \<Rightarrow>
               if length data \<noteq> unat ll then Err (LengthMismatch lineno ll (length data))
               else if foldl (+) 0 bs \<noteq> 0 then Err (BadChecksum lineno)
               else
                 let addr = unat (u16_from_le_bytes addr_lo addr_hi) in
                 if rtype = 0x00 then Ok (st\<lparr>ih_out := place addr data (ih_out st)\<rparr>)
                 else if rtype = 0x01 then Ok (st\<lparr>ih_eof := True\<rparr>)
                 else if rtype = 0x02 \<or> rtype = 0x04 then Err (ExtendedAddress lineno rtype)
                 else if rtype = 0x03 \<or> rtype = 0x05 then Ok (st\<lparr>ih_notes := ih_notes st @ [(lineno, rtype)]\<rparr>)
                 else Err (UnsupportedType lineno rtype))
      | _ \<Rightarrow> Err (TooShort lineno (length bs)))"

definition ihex_line :: "nat \<Rightarrow> string \<Rightarrow> ihex_state \<Rightarrow> ihex_error + ihex_state" where
  "ihex_line lineno raw_line st =
     (let line = trim raw_line in
      if line = [] then Ok st
      else if ih_eof st then Err (AfterEof lineno)
      else
        case strip_prefix '':'' line of
          None \<Rightarrow> Err (NoColon lineno)
        | Some hex \<Rightarrow>
            try_bind (map_err (BadHex lineno) (decode_hex hex)) (\<lambda>bs. ihex_record lineno bs st))"

fun ihex_lines :: "nat \<Rightarrow> string list \<Rightarrow> ihex_state \<Rightarrow> ihex_error + ihex_state" where
  "ihex_lines lineno [] st = Ok st"
| "ihex_lines lineno (l # ls) st = try_bind (ihex_line lineno l st) (\<lambda>st. ihex_lines (lineno + 1) ls st)"

definition ihex_init :: ihex_state where
  "ihex_init = \<lparr>ih_out = [], ih_eof = False, ih_notes = []\<rparr>"

text \<open>\<open>parse\<close>, with the notes it printed.\<close>

definition ihex_parse :: "string \<Rightarrow> ihex_error + (bytes \<times> (nat \<times> u8) list)" where
  "ihex_parse text' =
     try_bind (ihex_lines 1 (lines text') ihex_init)
       (\<lambda>st. if \<not> ih_eof st then Err MissingEof else Ok (ih_out st, ih_notes st))"

section \<open>Printing records\<close>

definition checksum :: "bytes \<Rightarrow> u8" where
  "checksum bs = - foldl (+) 0 bs"

definition record_bytes :: "u8 \<Rightarrow> u16 \<Rightarrow> bytes \<Rightarrow> bytes" where
  "record_bytes rtype addr data =
     (let bs = [word_of_nat (length data), ucast (drop_bit 8 addr), ucast addr, rtype] @ data in bs @ [checksum bs])"

definition print_bytes :: "bytes \<Rightarrow> string" where
  "print_bytes bs = CHR '':'' # hex_bytes bs"

fun print_records :: "(u16 \<times> bytes) list \<Rightarrow> string" where
  "print_records [] = print_bytes (record_bytes 0x01 0 []) @ [newline]"
| "print_records ((addr, data) # recs) = print_bytes (record_bytes 0x00 addr data) @ newline # print_records recs"

text \<open>What a sequence of data records means: the last record that covers an address, else erased flash.\<close>

definition byte_at :: "(u16 \<times> bytes) list \<Rightarrow> nat \<Rightarrow> u8" where
  "byte_at recs i =
     foldl (\<lambda>v (addr, data). if unat addr \<le> i \<and> i < unat addr + length data then data ! (i - unat addr) else v) 0xFF recs"

definition extent :: "(u16 \<times> bytes) list \<Rightarrow> nat" where
  "extent recs = foldl (\<lambda>m (addr, data). max m (unat addr + length data)) 0 recs"

section \<open>Lemmas\<close>

lemma decode_pairs_hex [simp]: "decode_pairs (hex_bytes bs) = Ok bs"
proof (induction bs)
  case (Cons b bs)
  have "from_str_radix 16 256 [hex_digit (unat b div 16), hex_digit (unat b mod 16)] = Ok (unat b)"
    using from_str_radix_hex_byte [of b] by (simp add: hex_byte_def)
  with Cons show ?case
    by (simp add: hex_byte_def)
qed simp

lemma decode_hex_hex [simp]: "decode_hex (hex_bytes bs) = Ok bs"
  by (simp add: decode_hex_def)

lemma print_bytes_line:
  "newline \<notin> set (print_bytes bs)" "last (print_bytes bs) \<noteq> carriage" "trim (print_bytes bs) = print_bytes bs"
proof -
  have plain: "\<forall>c \<in> set (print_bytes bs). plain c"
    by (auto simp: print_bytes_def plain_hex_bytes)
  then show "newline \<notin> set (print_bytes bs)"
    using plain_not_break by blast
  have "last (print_bytes bs) \<in> set (print_bytes bs)"
    by (rule last_in_set) (simp add: print_bytes_def)
  then have l: "plain (last (print_bytes bs))"
    using plain by blast
  then show "last (print_bytes bs) \<noteq> carriage"
    using plain_not_break by blast
  show "trim (print_bytes bs) = print_bytes bs"
    by (rule trim_plain) (use l in \<open>simp_all add: print_bytes_def\<close>)
qed

lemma lines_print_bytes: "lines (print_bytes bs @ newline # rest) = print_bytes bs # lines rest"
  by (rule lines_line) (simp_all add: print_bytes_line)

lemma ihex_line_print_bytes:
  "ihex_line n (print_bytes bs) st = (if ih_eof st then Err (AfterEof n) else ihex_record n bs st)"
proof -
  have "trim (print_bytes bs) = CHR '':'' # hex_bytes bs"
    using print_bytes_line(3) [of bs] by (simp add: print_bytes_def)
  then show ?thesis
    by (simp add: ihex_line_def)
qed

lemma foldl_plus_start: "foldl (+) a bs = a + foldl (+) 0 bs" for a :: u8
  by (induction bs arbitrary: a) (simp, metis (no_types, lifting) add.assoc add.left_neutral foldl_Cons)

lemma foldl_plus_snoc: "foldl (+) 0 (bs @ [b]) = foldl (+) 0 bs + b" for b :: u8
  by simp

lemma checksum_sum: "foldl (+) 0 (bs @ [checksum bs]) = 0"
  by (simp add: checksum_def)

lemma ihex_record_print:
  assumes "length data \<le> 255"
  shows "ihex_record n (record_bytes 0x00 addr data) st = Ok (st\<lparr>ih_out := place (unat addr) data (ih_out st)\<rparr>)"
    and "ihex_record n (record_bytes 0x01 addr data) st = Ok (st\<lparr>ih_eof := True\<rparr>)"
proof -
  have len: "unat (word_of_nat (length data) :: u8) = length data"
    using assms by simp
  have addr: "u16_from_le_bytes (ucast addr) (ucast (drop_bit 8 addr)) = addr"
    by simp
  have sum: "foldl (+) 0 (word_of_nat (length data) # ucast (drop_bit 8 addr) # ucast addr # t # data @
      [checksum (word_of_nat (length data) # ucast (drop_bit 8 addr) # ucast addr # t # data)]) = (0 :: u8)" for t
    using checksum_sum [of "word_of_nat (length data) # ucast (drop_bit 8 addr) # ucast addr # t # data"] by simp
  show "ihex_record n (record_bytes 0x00 addr data) st = Ok (st\<lparr>ih_out := place (unat addr) data (ih_out st)\<rparr>)"
    and "ihex_record n (record_bytes 0x01 addr data) st = Ok (st\<lparr>ih_eof := True\<rparr>)"
    by (simp_all add: ihex_record_def record_bytes_def Let_def len addr sum del: foldl_Cons foldl_append)
qed

lemma place_memory:
  "place (unat addr) data (map (byte_at recs) [0..<extent recs]) =
     map (byte_at (recs @ [(addr, data)])) [0..<extent (recs @ [(addr, data)])]"
proof -
  let ?out = "map (byte_at recs) [0..<extent recs]" and ?e = "unat addr + length data"
  let ?m = "max (extent recs) ?e"
  have beyond: "byte_at recs i = 0xFF" if "extent recs \<le> i" for i
    using that
  proof (induction recs rule: rev_induct)
    case (snoc x recs)
    then show ?case by (cases x) (simp add: byte_at_def extent_def)
  qed (simp add: byte_at_def)
  have pad: "(if length ?out < ?e then ?out @ replicate (?e - length ?out) 0xFF else ?out) = map (byte_at recs) [0..<?m]"
    by (rule nth_equalityI) (auto simp: nth_append beyond)
  show ?thesis
    unfolding place_def Let_def pad
    by (rule nth_equalityI) (auto simp: nth_put_at extent_def byte_at_def)
qed

lemma ihex_lines_print:
  assumes "\<forall>(addr, data) \<in> set recs. length data \<le> 255" and "\<not> ih_eof st"
    and "ih_out st = map (byte_at done') [0..<extent done']"
  shows "ihex_lines n (lines (print_records recs)) st =
     Ok (st\<lparr>ih_out := map (byte_at (done' @ recs)) [0..<extent (done' @ recs)], ih_eof := True\<rparr>)"
  using assms
proof (induction recs arbitrary: n st done')
  case Nil
  have "lines (print_bytes (record_bytes 1 0 []) @ [newline]) = [print_bytes (record_bytes 1 0 [])]"
    using lines_print_bytes [of "record_bytes 1 0 []" "[]"] by (simp add: lines_def)
  with Nil show ?case
    by (simp add: ihex_line_print_bytes ihex_record_print(2))
next
  case (Cons x recs)
  obtain addr data where x: "x = (addr, data)"
    by fastforce
  have len: "length data \<le> 255"
    using Cons.prems(1) x by simp
  let ?st = "st\<lparr>ih_out := place (unat addr) data (ih_out st)\<rparr>"
  have "ihex_lines (n + 1) (lines (print_records recs)) ?st =
      Ok (?st\<lparr>ih_out := map (byte_at ((done' @ [x]) @ recs)) [0..<extent ((done' @ [x]) @ recs)], ih_eof := True\<rparr>)"
    by (rule Cons.IH) (use Cons.prems x place_memory [of addr data done'] in simp_all)
  then show ?case
    using Cons.prems(2) x ihex_record_print(1) [OF len] by (simp add: lines_print_bytes ihex_line_print_bytes)
qed

lemma foldl_plus_update:
  "i < length bs \<Longrightarrow> foldl (+) 0 (bs[i := b]) = foldl (+) 0 bs + (b - bs ! i)" for b :: u8
proof (induction bs arbitrary: i)
  case (Cons x bs)
  then show ?case
    by (cases i) (simp_all add: foldl_plus_start [of x] foldl_plus_start [of b])
qed simp

lemma ihex_record_Ok:
  assumes "ihex_record n bs st = Ok st'"
  shows "foldl (+) 0 bs = 0 \<and> length (ih_out st') \<le> max (length (ih_out st)) (65535 + 255)"
proof -
  have "\<exists>ll hi lo t rest. bs = ll # hi # lo # t # rest"
    using assms by (auto simp: ihex_record_def split: list.splits)
  then obtain ll hi lo t rest where bs: "bs = ll # hi # lo # t # rest"
    by blast
  show ?thesis
    using assms unat_u8_lt [of ll] unat_u16_lt [of "u16_from_le_bytes lo hi"]
    by (auto simp: bs ihex_record_def place_def Let_def simp del: foldl_Cons
        split: option.splits if_splits)
qed

lemma ihex_lines_append:
  "ihex_lines n (xs @ ys) st = try_bind (ihex_lines n xs st) (\<lambda>st. ihex_lines (n + length xs) ys st)"
proof (induction xs arbitrary: n st)
  case (Cons x xs)
  then show ?case
    by (cases "ihex_line n x st") simp_all
qed simp

lemma ihex_line_Ok:
  assumes "ihex_line n l st = Ok st'"
  shows "length (ih_out st') \<le> max (length (ih_out st)) 65790"
proof (cases "st' = st")
  case False
  then obtain bs where "ihex_record n bs st = Ok st'"
    using assms by (auto simp: ihex_line_def Let_def try_bind_def split: if_splits option.splits sum.splits)
  from ihex_record_Ok [OF this] show ?thesis by simp
qed simp

lemma ihex_lines_length: "ihex_lines n ls st = Ok st' \<Longrightarrow> length (ih_out st) \<le> 65790 \<Longrightarrow> length (ih_out st') \<le> 65790"
proof (induction ls arbitrary: n st)
  case (Cons l ls)
  then obtain st1 where "ihex_line n l st = Ok st1" "ihex_lines (n + 1) ls st1 = Ok st'"
    by (cases "ihex_line n l st") auto
  with Cons ihex_line_Ok [of n l st st1] show ?case by simp
qed simp

lemma ihex_parse_print:
  assumes "\<forall>(addr, data) \<in> set recs. length data \<le> 255"
  shows "ihex_parse (print_records recs) = Ok (map (byte_at recs) [0..<extent recs], [])"
proof -
  have "ihex_lines 1 (lines (print_records recs)) ihex_init =
      Ok (ihex_init\<lparr>ih_out := map (byte_at ([] @ recs)) [0..<extent ([] @ recs)], ih_eof := True\<rparr>)"
    by (rule ihex_lines_print [OF assms]) (simp_all add: ihex_init_def extent_def)
  then show ?thesis
    by (simp add: ihex_parse_def ihex_init_def)
qed

section \<open>Properties\<close>

text \<open>
  C24: reading what was printed. For every sequence of data records of at most 255 bytes,
  in any order and overlapping as they like, \<open>parse\<close> of their text returns the memory they
  describe: at each address the byte of the last record that covers it, \<open>0xFF\<close> in the
  gaps, up to the furthest end of a record, and it prints no note.
\<close>

theorem ihex_roundtrip:
  assumes "\<forall>(addr, data) \<in> set recs. length data \<le> 255"
  shows "ihex_parse (print_records recs) = Ok (map (byte_at recs) [0..<extent recs], [])"
  using assms by (rule ihex_parse_print)

theorem ihex_roundtrip_witness:
  "ihex_parse (print_records [(4, [0x11, 0x22]), (0, [0x33, 0x44])]) = Ok ([0x33, 0x44, 0xFF, 0xFF, 0x11, 0x22], [])"
proof -
  let ?recs = "[(4 :: u16, [0x11, 0x22 :: u8]), (0, [0x33, 0x44])]"
  have "map (byte_at ?recs) [0..<extent ?recs] = [0x33, 0x44, 0xFF, 0xFF, 0x11, 0x22]"
    by (simp add: byte_at_def extent_def upt_rec)
  then show ?thesis
    using ihex_roundtrip [of ?recs] by simp
qed

text \<open>
  A corrupted byte is never accepted. Let a line hold a record whose checksum is
  right; if any one of its bytes is replaced by another value, the file is rejected,
  whatever stands before and after that line.
\<close>

lemma ihex_detects_corruption:
  assumes "foldl (+) 0 bs = 0" and "i < length bs" and "b \<noteq> bs ! i" and "pre = [] \<or> last pre = newline"
  shows "\<not> is_ok (ihex_parse (pre @ print_bytes (bs[i := b]) @ newline # post))"
proof -
  let ?line = "print_bytes (bs[i := b])"
  have "lines (pre @ ?line @ newline # post) = lines pre @ ?line # lines post"
  proof (cases "pre = []")
    case True
    then show ?thesis by (simp add: lines_print_bytes lines_def [of "[]"])
  next
    case False
    then obtain s where "pre = s @ [newline]"
      using assms(4) by (metis append_butlast_last_id)
    then show ?thesis
      using lines_append [of s "?line @ newline # post"] by (simp add: lines_print_bytes)
  qed
  moreover have "foldl (+) 0 (bs[i := b]) \<noteq> 0"
    using foldl_plus_update [OF assms(2), of b] assms(1,3) by simp
  then have "\<not> is_ok (ihex_line n ?line st)" for n st
    using ihex_record_Ok [of n "bs[i := b]" st] by (auto simp: ihex_line_print_bytes is_ok_iff)
  then have "\<not> is_ok (ihex_lines n (?line # lines post) st)" for n st
    by (cases "ihex_line n ?line st") (simp_all add: is_ok_iff)
  ultimately show ?thesis
    by (auto simp: ihex_parse_def ihex_lines_append is_ok_iff try_bind_def split: sum.splits)
qed

text \<open>
  The binary that \<open>parse\<close> returns is at most \<open>0xFFFF + 0xFF\<close> bytes long, as the
  comment at the addition says, and this bound is reached: the binary can exceed 64 KiB.
\<close>

lemma ihex_length_bound:
  "(\<forall>text' out notes. ihex_parse text' = Ok (out, notes) \<longrightarrow> length out \<le> 0xFFFF + 0xFF) \<and>
   (\<exists>text' out notes. ihex_parse text' = Ok (out, notes) \<and> length out = 0xFFFF + 0xFF)"
proof
  show "\<forall>text' out notes. ihex_parse text' = Ok (out, notes) \<longrightarrow> length out \<le> 0xFFFF + 0xFF"
    using ihex_lines_length [of 1 _ ihex_init]
    by (auto simp: ihex_parse_def try_bind_def ihex_init_def split: sum.splits if_splits)
  let ?recs = "[(0xFFFF :: u16, replicate 255 (0 :: u8))]"
  have "ihex_parse (print_records ?recs) = Ok (map (byte_at ?recs) [0..<extent ?recs], [])"
    by (rule ihex_parse_print) simp
  moreover have "length (map (byte_at ?recs) [0..<extent ?recs]) = 0xFFFF + 0xFF"
    by (simp add: extent_def)
  ultimately show "\<exists>text' out notes. ihex_parse text' = Ok (out, notes) \<and> length out = 0xFFFF + 0xFF"
    by blast
qed

text \<open>\<open>u8::from_str_radix\<close> takes a sign, so a record may be written with one.\<close>

lemma ihex_accepts_sign: "ihex_parse '':000000+1FF'' = Ok ([], [])"
proof -
  have "trim '':000000+1FF'' = '':000000+1FF''"
    by (rule trim_plain) (simp_all add: plain_def)
  moreover have "decode_pairs ''000000+1FF'' = Ok [0, 0, 0, 1, 0xFF]"
    by (simp add: utf8_pair_def from_str_radix_def to_digit_def Let_def)
  ultimately show ?thesis
    by (simp add: ihex_parse_def lines_def strip_line_def strip_suffix_def ihex_line_def ihex_init_def decode_hex_def
        ihex_record_def split_last_def del: decode_pairs.simps)
qed

end
