(* ===== verification/Cli_Main.thy ===== *)
theory Cli_Main
  imports Cli_Dyn Cli_Install Ihex Session
begin

text \<open>
  \<^verbatim>\<open>updater-cli/src/main.rs\<close>: the flags resolved into a wire, the budget of the erase
  exchange, and the run of the subcommands. The argument parser is a parameter: its result
  is the record of the flags, and the flags that were given explicitly are predicates on
  their names. What is printed is the value a run returns.
\<close>

definition FRAME_BUF_LEN :: usize where "FRAME_BUF_LEN = 512"

definition CLI_POLL_ATTEMPTS :: u32 where "CLI_POLL_ATTEMPTS = 100"

definition CLI_POLL_DELAY_MS :: u32 where "CLI_POLL_DELAY_MS = 10"

definition PER_PAGE_ERASE_WORST_MS :: u32 where "PER_PAGE_ERASE_WORST_MS = 10"

datatype transport_kind = KindI2c | KindUart | KindSpi | KindGpio

datatype cmd =
    CmdInfo
  | CmdEcho string
  | CmdFlash string
  | CmdBoot
  | CmdInstall string string "string option" "string option"

record cli =
  cli_transport :: transport_kind
  cli_bus :: string
  cli_addr :: u16
  cli_dev :: "string option"
  cli_baud :: u32
  cli_speed_hz :: u32
  cli_chip :: string
  cli_pin_tx :: "u32 option"
  cli_pin_rx :: "u32 option"
  cli_poll_attempts :: u32
  cli_poll_delay_ms :: u32
  cli_cmd :: cmd

text \<open>The declared defaults of the flags.\<close>

definition cli_default :: "cmd \<Rightarrow> cli" where
  "cli_default c = \<lparr>cli_transport = KindI2c, cli_bus = ''/dev/i2c-1'', cli_addr = 0x20, cli_dev = None, cli_baud = 115200,
     cli_speed_hz = 100000, cli_chip = ''/dev/gpiochip0'', cli_pin_tx = None, cli_pin_rx = None,
     cli_poll_attempts = CLI_POLL_ATTEMPTS, cli_poll_delay_ms = CLI_POLL_DELAY_MS, cli_cmd = c\<rparr>"

section \<open>Flags\<close>

datatype spec_error = BaudUnsupported u32 | PinsMissing string | SamePins u32

definition build_spec :: "cli \<Rightarrow> spec_error + transport_spec" where
  "build_spec c =
     (case cli_transport c of
        KindI2c \<Rightarrow> Ok (SpecI2c (cli_bus c) (cli_addr c))
      | KindUart \<Rightarrow>
          if cli_baud c \<notin> set SUPPORTED_BAUDS then Err (BaudUnsupported (cli_baud c))
          else Ok (SpecUart (case cli_dev c of None \<Rightarrow> ''/dev/ttyUSB0'' | Some d \<Rightarrow> d) (cli_baud c))
      | KindSpi \<Rightarrow> Ok (SpecSpi (case cli_dev c of None \<Rightarrow> ''/dev/spidev0.0'' | Some d \<Rightarrow> d) (cli_speed_hz c))
      | KindGpio \<Rightarrow>
          (case (cli_pin_tx c, cli_pin_rx c) of
             (Some pin_tx, Some pin_rx) \<Rightarrow>
               if pin_tx = pin_rx then Err (SamePins pin_tx) else Ok (SpecGpio (cli_chip c) pin_tx pin_rx)
           | _ \<Rightarrow> Err (PinsMissing (cli_chip c))))"

definition div_ceil :: "u32 \<Rightarrow> u32 \<Rightarrow> u32" where
  "div_ceil a b = (if a mod b > 0 then a div b + 1 else a div b)"

definition erase_poll_attempts :: "u16 \<Rightarrow> poll_budget \<Rightarrow> u32" where
  "erase_poll_attempts app_pages poll =
     (let needed = div_ceil (u32_saturating_mul (ucast app_pages) PER_PAGE_ERASE_WORST_MS) (max (pb_delay_ms poll) 1)
      in max (pb_attempts poll) needed)"

definition TRANSPORT_FLAGS :: "(string \<times> string) list" where
  "TRANSPORT_FLAGS =
     [(''transport'', ''--transport''), (''bus'', ''--bus''), (''addr'', ''--addr''), (''dev'', ''--dev''),
      (''baud'', ''--baud''), (''speed_hz'', ''--speed-hz''), (''chip'', ''--chip''), (''pin_tx'', ''--pin-tx''),
      (''pin_rx'', ''--pin-rx''), (''poll_attempts'', ''--poll-attempts''), (''poll_delay_ms'', ''--poll-delay-ms'')]"

text \<open>\<open>from_cli\<close> and \<open>sub\<close> tell which flags came from the command line, before and after the subcommand.\<close>

definition reject_transport_flags :: "(string \<Rightarrow> bool) \<Rightarrow> (string \<Rightarrow> bool) option \<Rightarrow> string list + unit" where
  "reject_transport_flags from_cli sub =
     (let offenders = map snd (filter (\<lambda>(flag_id, _).
            from_cli flag_id \<or> (case sub of None \<Rightarrow> False | Some m \<Rightarrow> m flag_id)) TRANSPORT_FLAGS)
      in if offenders = [] then Ok () else Err offenders)"

definition describe :: "transport_spec \<Rightarrow> string" where
  "describe spec =
     (case spec of
        SpecI2c bus addr \<Rightarrow> bus @ '' @ '' @ hex_04 (unat addr)
      | SpecUart dev baud \<Rightarrow> dev @ '' @ '' @ dec (unat baud) @ '' baud''
      | SpecSpi dev speed_hz \<Rightarrow> dev @ '' @ '' @ dec (unat speed_hz) @ '' Hz''
      | SpecGpio chip pin_tx pin_rx \<Rightarrow> chip @ '' tx='' @ dec (unat pin_tx) @ '' rx='' @ dec (unat pin_rx) @ '' @ 9600 baud'')"

datatype addr_error = NotANumber string | NotSevenBit u16

definition parse_addr :: "string \<Rightarrow> addr_error + u16" where
  "parse_addr s =
     try_bind (map_err (\<lambda>_. NotANumber s)
        (case (case strip_prefix ''0x'' s of Some h \<Rightarrow> Some h | None \<Rightarrow> strip_prefix ''0X'' s) of
           None \<Rightarrow> from_str_radix 10 65536 s
         | Some h \<Rightarrow> from_str_radix 16 65536 h))
       (\<lambda>v. let value = word_of_nat v in if value > 0x7F then Err (NotSevenBit value) else Ok value)"

definition parse_hex_bytes :: "string \<Rightarrow> hex_error + bytes" where
  "parse_hex_bytes s =
     (let clean = remove_ws s in
      if length clean mod 2 \<noteq> 0 then Err OddDigits else decode_pairs clean)"

section \<open>The run\<close>

record ('w, 'e, 'f, 'tio) cli_env =
  ce_wires :: "('w, 'e, 'f, 'tio) wires"
  ce_read_to_string :: "string \<Rightarrow> 'e + string"
  ce_read :: "string \<Rightarrow> 'e + bytes"
  ce_install :: "('w, 'e) install_os"
  ce_from_cli :: "string \<Rightarrow> bool"
  ce_sub :: "(string \<Rightarrow> bool) option"

datatype 'e load_error = ReadingImage string 'e | ParsingHex string ihex_error

datatype 'e cli_error =
    TransportFlags "string list"
  | InstallFailed "'e install_error"
  | LoadFailed "'e load_error"
  | DataNotHex hex_error
  | DataLength nat
  | BadSpec spec_error
  | OpenFailed "'e open_error"
  | InfoFailed "'e backend_error error"
  | EchoFailed "'e backend_error error"
  | DoesNotFit nat u16 u16 core_error
  | FlashFailed "'e backend_error error" "(u16 \<times> u16) list"
  | NoBootAck "'e backend_error"
  | BootRefused "'e backend_error error"

datatype cli_output =
    OutInfo device_info u32 u32
  | OutEcho nat
  | OutFlash u32 u32 string "(u16 \<times> u16) list"
  | OutBoot
  | OutInstall

definition load_image :: "('w, 'e, 'f, 'tio) cli_env \<Rightarrow> string \<Rightarrow> 'e load_error + bytes" where
  "load_image env path =
     (let is_hex = (case path_extension path of None \<Rightarrow> False | Some e \<Rightarrow> eq_ignore_ascii_case e ''hex'') in
      if is_hex then
        try_bind (map_err (ReadingImage path) (ce_read_to_string env path)) (\<lambda>text'.
          map_err (ParsingHex path) (try_bind (ihex_parse text') (\<lambda>(out, _). Ok out)))
      else map_err (ReadingImage path) (ce_read env path))"

type_synonym ('w, 'f) cli_session = "('w, 'f) backend dyn_transport session"

definition dyn_of :: "('w, 'e, 'f, 'tio) cli_env \<Rightarrow> (('w, 'f) backend dyn_transport, 'e backend_error) request_fn" where
  "dyn_of env = dyn_request (backend_request (ce_wires env)) backend_set_poll"

definition cmd_info ::
  "('w, 'e, 'f, 'tio) cli_env \<Rightarrow> ('w, 'f) cli_session \<Rightarrow> ('e cli_error + cli_output) \<times> ('w, 'f) cli_session"
where
  "cmd_info env s =
     st_bind (map_prod (map_err InfoFailed) id (info (dyn_of env) s)) (\<lambda>di s.
       let region = ucast (di_page_size di) * ucast (di_app_pages di) :: u32
       in (Ok (OutInfo di region (if region < 16 then 0 else region - 16)), s))"

definition cmd_echo ::
  "('w, 'e, 'f, 'tio) cli_env \<Rightarrow> bytes \<Rightarrow> ('w, 'f) cli_session \<Rightarrow> ('e cli_error + cli_output) \<times> ('w, 'f) cli_session"
where
  "cmd_echo env bs s =
     st_bind (map_prod (map_err EchoFailed) id (echo (dyn_of env) s bs)) (\<lambda>_ s. (Ok (OutEcho (length bs)), s))"

definition cmd_flash ::
  "('w, 'e, 'f, 'tio) cli_env \<Rightarrow> transport_spec \<Rightarrow> poll_budget \<Rightarrow> bytes \<Rightarrow> ('w, 'f) cli_session \<Rightarrow>
     ('e cli_error + cli_output) \<times> ('w, 'f) cli_session"
where
  "cmd_flash env spec poll binary s =
     st_bind (map_prod (map_err InfoFailed) id (info (dyn_of env) s)) (\<lambda>di s.
     st_bind (map_err (DoesNotFit (length binary) (di_app_pages di) (di_page_size di)) (from_bin binary (di_page_size di) (di_app_pages di)), s) (\<lambda>img s.
       let t = set_erase_attempts (into_transport s) (erase_poll_attempts (di_app_pages di) poll);
           (r, s, prog) = flash (dyn_of env) (session_new t (s_buf s)) img
       in (case r of
             Err e \<Rightarrow> Err (FlashFailed e prog)
           | Ok _ \<Rightarrow> Ok (OutFlash (img_len img) (img_crc img) (describe spec) prog), s)))"

definition cmd_boot ::
  "('w, 'e, 'f, 'tio) cli_env \<Rightarrow> ('w, 'f) cli_session \<Rightarrow> ('e cli_error + cli_output) \<times> ('w, 'f) cli_session"
where
  "cmd_boot env s =
     (case boot (dyn_of env) s of
        (Ok _, s) \<Rightarrow> (Ok OutBoot, s)
      | (Err (Transport e), s) \<Rightarrow> (Err (NoBootAck e), s)
      | (Err e, s) \<Rightarrow> (Err (BootRefused e), s))"

fun backend_hw :: "('w, 'f) backend \<Rightarrow> 'w" where
  "backend_hw (BI2c t) = li_hw t"
| "backend_hw (BUart f t) = uart_hw t"
| "backend_hw (BSpi f t) = spi_hw t"
| "backend_hw (BGpio tx rx t) = su_hw t"

text \<open>The purely local inputs, checked before the wire is opened.\<close>

definition flash_input :: "('w, 'e, 'f, 'tio) cli_env \<Rightarrow> cmd \<Rightarrow> 'e cli_error + bytes option" where
  "flash_input env c =
     (case c of CmdFlash img \<Rightarrow> try_bind (map_err LoadFailed (load_image env img)) (\<lambda>bs. Ok (Some bs)) | _ \<Rightarrow> Ok None)"

definition echo_input :: "cmd \<Rightarrow> 'e cli_error + bytes option" where
  "echo_input c =
     (case c of
        CmdEcho data \<Rightarrow>
          try_bind (map_err DataNotHex (parse_hex_bytes data)) (\<lambda>bs.
            if bs = [] \<or> length bs > 16 then Err (DataLength (length bs)) else Ok (Some bs))
      | _ \<Rightarrow> Ok None)"

definition or_default :: "bytes option \<Rightarrow> bytes" where
  "or_default x = (case x of None \<Rightarrow> [] | Some bs \<Rightarrow> bs)"

definition cli_main :: "('w, 'e, 'f, 'tio) cli_env \<Rightarrow> cli \<Rightarrow> 'w \<Rightarrow> ('e cli_error + cli_output) \<times> 'w" where
  "cli_main env c w =
     (case cli_cmd c of
        CmdInstall target img port config \<Rightarrow>
          st_bind (map_err TransportFlags (reject_transport_flags (ce_from_cli env) (ce_sub env)), w) (\<lambda>_ w.
          st_bind (map_prod (map_err InstallFailed) id (run_cli (ce_install env) target img port config w)) (\<lambda>_ w.
            (Ok OutInstall, w)))
      | command \<Rightarrow>
          st_bind (flash_input env command, w) (\<lambda>binary w.
          st_bind (echo_input command, w) (\<lambda>data w.
          st_bind (map_err BadSpec (build_spec c), w) (\<lambda>spec w.
          let poll = \<lparr>pb_attempts = cli_poll_attempts c, pb_delay_ms = cli_poll_delay_ms c\<rparr> in
          st_bind (map_prod (map_err OpenFailed) id (transport_open (ce_wires env) spec poll w)) (\<lambda>t w.
          let s = session_new t (replicate FRAME_BUF_LEN 0);
              (r, s) =
                (case command of
                   CmdInfo \<Rightarrow> cmd_info env s
                 | CmdEcho _ \<Rightarrow> cmd_echo env (or_default data) s
                 | CmdFlash _ \<Rightarrow> cmd_flash env spec poll (or_default binary) s
                 | CmdBoot \<Rightarrow> cmd_boot env s
                 | CmdInstall _ _ _ _ \<Rightarrow> (Ok OutInstall, s))
          in (r, backend_hw (dt_inner (into_transport s))))))))"

section \<open>Lemmas\<close>

lemma unat_max: "unat (max a b) = max (unat a) (unat b)" for a b :: u32
  by (simp add: max_def word_le_nat_alt)

lemma erase_product: "unat (u32_saturating_mul (ucast (app_pages :: u16)) PER_PAGE_ERASE_WORST_MS) = unat app_pages * 10"
proof -
  have "unat (ucast app_pages :: u32) * 10 < 2 ^ 32"
    using unat_u16_lt [of app_pages] by simp
  then show ?thesis
    using unat_mult_lem [of "ucast app_pages :: u32" 10] by (simp add: u32_saturating_mul_def PER_PAGE_ERASE_WORST_MS_def)
qed

lemma div_ceil_bounds:
  assumes "0 < unat b" and "unat a < 2 ^ 31"
  shows "unat a \<le> unat (div_ceil a b) * unat b \<and> unat (div_ceil a b) * unat b < unat a + unat b"
proof -
  define q r where "q = unat a div unat b" and "r = unat a mod unat b"
  have split: "q * unat b + r = unat a" "r < unat b"
    using assms(1) by (simp_all add: q_def r_def)
  have "q < 2 ^ 31"
    using assms(2) div_le_dividend le_less_trans unfolding q_def by blast
  then have "unat (a div b + 1) = q + 1"
    using unat_add_lem [of "a div b" 1] by (simp add: unat_div q_def)
  moreover have "a mod b > 0 \<longleftrightarrow> r > 0"
    by (simp add: word_less_nat_alt unat_mod r_def)
  ultimately have n: "unat (div_ceil a b) = (if r > 0 then q + 1 else q)"
    by (simp add: div_ceil_def unat_div q_def)
  show ?thesis
  proof (cases "r > 0")
    case True
    then have "unat (div_ceil a b) * unat b = q * unat b + unat b"
      using n by simp
    with True split show ?thesis by linarith
  qed (use n split assms(1) in simp)
qed

lemma digits_dec:
  "n < 65536 \<Longrightarrow> radix_digits 10 65536 0 (dec n @ s) = radix_digits 10 65536 n s"
proof (induction n arbitrary: s rule: dec.induct)
  case (1 n)
  have d: "to_digit 10 (char_of (48 + k)) = Some k" if "k < 10" for k
    using that by (simp add: to_digit_def Let_def)
  show ?case
  proof (cases "n < 10")
    case True
    with d show ?thesis by (simp add: dec.simps)
  next
    case False
    then have "n div 10 < 65536" "n div 10 * 10 + n mod 10 = n"
      using "1.prems" by auto
    with "1.IH" [OF False, of "char_of (48 + n mod 10) # s"] d [of "n mod 10"] False "1.prems" show ?thesis
      by (simp add: dec.simps [of n])
  qed
qed

lemma dec_head: "\<exists>c s. dec n = c # s \<and> 48 \<le> (of_char c :: nat) \<and> (of_char c :: nat) \<le> 57"
proof (induction n rule: dec.induct)
  case (1 n)
  show ?case
  proof (cases "n < 10")
    case True
    then show ?thesis by (simp add: dec.simps)
  next
    case False
    with "1.IH" show ?thesis by (auto simp: dec.simps [of n])
  qed
qed

lemma dec_char: "c \<in> set (dec n) \<Longrightarrow> 48 \<le> (of_char c :: nat) \<and> (of_char c :: nat) \<le> 57"
proof (induction n rule: dec.induct)
  case (1 n)
  show ?case
  proof (cases "n < 10")
    case True
    with "1.prems" show ?thesis by (simp add: dec.simps)
  next
    case False
    have "n mod 10 \<le> 9" by simp
    with False "1.prems" "1.IH" show ?thesis by (auto simp: dec.simps [of n])
  qed
qed

lemma radix_digits_bound: "radix_digits radix bound acc s = Ok v \<Longrightarrow> acc < bound \<Longrightarrow> v < bound"
  by (induction s arbitrary: acc) (auto split: option.splits if_splits)

section \<open>Properties\<close>

text \<open>
  With the delay the attempts are computed for, which is never less than a millisecond, they
  cover the worst case, and if they are more than the user asked for, one fewer would not.
\<close>

lemma erase_attempts_cover:
  fixes poll :: poll_budget and app_pages :: u16
  defines "d \<equiv> max (unat (pb_delay_ms poll)) 1" and "n \<equiv> unat (erase_poll_attempts app_pages poll)"
  shows "unat app_pages * 10 \<le> n * d"
    and "pb_attempts poll < erase_poll_attempts app_pages poll \<Longrightarrow> (n - 1) * d < unat app_pages * 10"
proof -
  let ?a = "u32_saturating_mul (ucast app_pages) PER_PAGE_ERASE_WORST_MS" and ?b = "max (pb_delay_ms poll) 1"
  let ?n = "div_ceil ?a ?b"
  have b: "unat ?b = d"
    by (simp add: unat_max d_def)
  have bounds: "unat app_pages * 10 \<le> unat ?n * d" "unat ?n * d < unat app_pages * 10 + d"
    using div_ceil_bounds [of ?b ?a] unat_u16_lt [of app_pages] d_def by (simp_all add: b erase_product)
  have e: "erase_poll_attempts app_pages poll = max (pb_attempts poll) ?n"
    by (simp add: erase_poll_attempts_def)
  then have n: "n = unat (max (pb_attempts poll) ?n)"
    by (simp add: n_def)
  have "unat ?n * d \<le> n * d"
    by (simp add: n unat_max)
  with bounds(1) show "unat app_pages * 10 \<le> n * d"
    by (rule le_trans)
  assume "pb_attempts poll < erase_poll_attempts app_pages poll"
  then have m: "n = unat ?n" "pb_attempts poll < ?n"
    unfolding n e by (auto simp: max_def split: if_splits)
  then have "1 \<le> unat ?n"
    by (simp add: word_less_nat_alt)
  then have "(unat ?n - 1) * d + d = unat ?n * d"
    by (metis add.commute le_add_diff_inverse2 mult_Suc plus_1_eq_Suc)
  with bounds(2) show "(n - 1) * d < unat app_pages * 10"
    unfolding m(1) by linarith
qed

text \<open>
  C23: what the erase budget covers. The attempts computed for the erase exchange are never
  fewer than those the user asked for. Attempts times delay reach ten milliseconds per page
  exactly if the delay is not zero (or there are no pages). Where the attempts are more than
  the user's, they are the least that reach it, a delay of zero counting as one millisecond:
  with that delay the attempts are ten per page, or the user's if those are more, and the time
  they wait is none.
\<close>

theorem erase_budget_covers:
  fixes app_pages :: u16 and poll :: poll_budget
  defines "n \<equiv> unat (erase_poll_attempts app_pages poll)" and "d \<equiv> unat (pb_delay_ms poll)"
  shows "unat (pb_attempts poll) \<le> n
     \<and> (unat app_pages * 10 \<le> n * d \<longleftrightarrow> d \<noteq> 0 \<or> app_pages = 0)
     \<and> (unat (pb_attempts poll) < n \<longrightarrow> (n - 1) * max d 1 < unat app_pages * 10)
     \<and> (d = 0 \<longrightarrow> n = max (unat (pb_attempts poll)) (unat app_pages * 10))"
proof -
  note covers = erase_attempts_cover [where app_pages = app_pages and poll = poll, folded n_def d_def]
  have user: "unat (pb_attempts poll) \<le> n"
    by (simp add: n_def erase_poll_attempts_def unat_max)
  have least: "(n - 1) * max d 1 < unat app_pages * 10" if "unat (pb_attempts poll) < n"
    using covers(2) that by (simp add: n_def word_less_nat_alt)
  have "unat app_pages * 10 \<le> n * d \<longleftrightarrow> d \<noteq> 0 \<or> app_pages = 0"
    using covers(1) by (cases "d = 0") (simp_all add: unat_eq_zero)
  moreover have "n = max (unat (pb_attempts poll)) (unat app_pages * 10)" if "d = 0"
  proof -
    have "unat app_pages * 10 \<le> n" "unat (pb_attempts poll) < n \<Longrightarrow> n - 1 < unat app_pages * 10"
      using covers(1) least that by simp_all
    with user show ?thesis by linarith
  qed
  ultimately show ?thesis
    using user least by blast
qed

theorem erase_budget_covers_witness:
  "480 * 10 \<le> unat (erase_poll_attempts 480 \<lparr>pb_attempts = 100, pb_delay_ms = 10\<rparr>) * 10
     \<and> unat (erase_poll_attempts 480 \<lparr>pb_attempts = 100, pb_delay_ms = 0\<rparr>) = 4800"
  using erase_budget_covers [where app_pages = 480 and poll = "\<lparr>pb_attempts = 100, pb_delay_ms = 10\<rparr>"]
    erase_budget_covers [where app_pages = 480 and poll = "\<lparr>pb_attempts = 100, pb_delay_ms = 0\<rparr>"] by simp

text \<open>
  The last read of the I2C backend comes one interval before that time: a device that needs
  the whole worst case of its 480 pages is given up on, although it would have answered 10 ms
  later. The device here answers from \<open>t_done\<close> on, and only sleeping takes time.
\<close>

definition erasing_os :: "nat \<Rightarrow> (nat, unit, unit, unit) host_os" where
  "erasing_os t_done = idle_os\<lparr>os_i2c_read := (\<lambda>_ n w. if w < t_done then (Err (), [], w) else (Ok (), replicate n 0xFF, w)),
     os_sleep_ms := (\<lambda>ms w. w + unat ms)\<rparr>"

lemma erasing_poll:
  assumes "w + k * unat interval < t_done" and "unat poll = unat att + k + 1"
  shows "\<exists>w'. linux_i2c_poll (erasing_os t_done) dev poll interval att rsp w = (Err (LiExhausted poll ()), rsp, w')"
  using assms
proof (induction k arbitrary: att w)
  case 0
  then have "att + 1 = poll"
    using unat_u32_lt [of poll] by (simp add: word_unat_eq_iff unat_word_ariths)
  with 0 show ?case
    by (subst linux_i2c_poll.simps) (simp add: erasing_os_def Let_def)
next
  case (Suc k)
  have att: "unat (att + 1) = unat att + 1"
    using Suc.prems(2) unat_u32_lt [of poll] by (simp add: unat_word_ariths)
  then have "\<not> poll \<le> att + 1"
    using Suc.prems(2) by (simp add: word_le_nat_alt)
  moreover have "\<exists>w'. linux_i2c_poll (erasing_os t_done) dev poll interval (att + 1) rsp (w + unat interval) =
      (Err (LiExhausted poll ()), rsp, w')"
    by (rule Suc.IH) (use Suc.prems att in simp_all)
  ultimately show ?case
    using Suc.prems(1) by (subst linux_i2c_poll.simps) (simp add: erasing_os_def Let_def)
qed

lemma erase_budget_one_short:
  "erase_poll_attempts 480 \<lparr>pb_attempts = 100, pb_delay_ms = 10\<rparr> = 480
     \<and> fst (linux_i2c_poll (erasing_os (480 * 10)) dev 480 10 0 rsp 0) = Err (LiExhausted 480 ())"
proof
  show "erase_poll_attempts 480 \<lparr>pb_attempts = 100, pb_delay_ms = 10\<rparr> = 480"
    by (simp add: erase_poll_attempts_def u32_saturating_mul_def PER_PAGE_ERASE_WORST_MS_def div_ceil_def max_def
        word_le_nat_alt)
  show "fst (linux_i2c_poll (erasing_os (480 * 10)) dev 480 10 0 rsp 0) = Err (LiExhausted 480 ())"
    using erasing_poll [of 0 479 10 "480 * 10" 480 0 dev rsp] by auto
qed

text \<open>
  The flags that make a wire. \<open>build_spec\<close> succeeds exactly if a UART has a baud
  rate that the serial backend can program and a GPIO wire has two different lines; I2C
  and SPI always resolve.
\<close>

lemma build_spec_contract:
  "is_ok (build_spec c) \<longleftrightarrow>
     (case cli_transport c of
        KindUart \<Rightarrow> baud_constant (cli_baud c) \<noteq> None
      | KindGpio \<Rightarrow> cli_pin_tx c \<noteq> None \<and> cli_pin_rx c \<noteq> None \<and> cli_pin_tx c \<noteq> cli_pin_rx c
      | _ \<Rightarrow> True)"
  by (auto simp: build_spec_def SUPPORTED_BAUDS_def baud_constant_def split: transport_kind.split option.split)

text \<open>
  Device addresses. Whatever \<open>parse_addr\<close> accepts is a 7-bit address, and it reads
  every 7-bit address back from its decimal and from its hexadecimal notation.
\<close>

lemma parse_addr_seven_bit:
  "(\<forall>s v. parse_addr s = Ok v \<longrightarrow> v \<le> 0x7F) \<and>
   (\<forall>v \<le> 0x7F. parse_addr (dec (unat v)) = Ok v \<and> parse_addr (''0x'' @ hex_byte (ucast v)) = Ok v)"
proof (intro conjI allI impI)
  fix s v
  assume "parse_addr s = Ok v"
  then show "v \<le> 0x7F"
    by (auto simp: parse_addr_def bind_iff Let_def split: if_splits)
next
  fix v :: u16
  assume v: "v \<le> 0x7F"
  then have n: "unat v \<le> 127"
    by (simp add: word_le_nat_alt)
  obtain c s where d: "dec (unat v) = c # s" "48 \<le> (of_char c :: nat)" "(of_char c :: nat) \<le> 57"
    using dec_head by blast
  have "x \<notin> set (dec (unat v))" if "(of_char x :: nat) < 48 \<or> 57 < (of_char x :: nat)" for x
    using that dec_char by force
  then have x: "CHR ''x'' \<notin> set (c # s)" "CHR ''X'' \<notin> set (c # s)" "CHR ''+'' \<notin> set (c # s)" "CHR ''-'' \<notin> set (c # s)"
    unfolding d(1) [symmetric] by simp_all
  then have "from_str_radix 10 65536 (c # s) = radix_digits 10 65536 0 (c # s)"
    by (auto simp: from_str_radix_def)
  also have "\<dots> = Ok (unat v)"
    using digits_dec [of "unat v" "[]"] n d(1) by simp
  finally have "from_str_radix 10 65536 (dec (unat v)) = Ok (unat v)"
    by (simp add: d(1))
  moreover have "strip_prefix ''0x'' (dec (unat v)) = None" "strip_prefix ''0X'' (dec (unat v)) = None"
    using x unfolding d(1) by (cases s; auto)+
  ultimately show "parse_addr (dec (unat v)) = Ok v"
    using v by (simp add: parse_addr_def)
  have u: "unat (ucast v :: u8) = unat v"
    using n by (simp add: unsigned_ucast_eq take_bit_nat_eq_self)
  have "hex_digit (unat v div 16) \<noteq> CHR ''+''"
    using of_char_hex_digit [of "unat v div 16"] less_mult_imp_div_less [of "unat v" 16 16] n by (auto split: if_splits)
  then have "from_str_radix 16 65536 (hex_byte (ucast v)) = Ok (unat v)"
    using n by (simp add: from_str_radix_def hex_byte_def u)
  then show "parse_addr (''0x'' @ hex_byte (ucast v)) = Ok v"
    using v by (simp add: parse_addr_def)
qed

text \<open>What the run can check before it opens anything.\<close>

definition local_inputs_ok :: "('w, 'e, 'f, 'tio) cli_env \<Rightarrow> cli \<Rightarrow> bool" where
  "local_inputs_ok env c =
     (case cli_cmd c of
        CmdFlash path \<Rightarrow> is_ok (load_image env path) \<and> is_ok (build_spec c)
      | CmdEcho data \<Rightarrow> is_ok (build_spec c) \<and>
          (case parse_hex_bytes data of Err _ \<Rightarrow> False | Ok bs \<Rightarrow> 1 \<le> length bs \<and> length bs \<le> 16)
      | CmdInstall _ _ _ _ \<Rightarrow> is_ok (reject_transport_flags (ce_from_cli env) (ce_sub env))
      | _ \<Rightarrow> is_ok (build_spec c))"

text \<open>
  C20: local mistakes never touch the wire. Unless the image loads, the echo data is 1 to
  16 bytes of hex digits, the flags resolve to a wire and, for \<open>install\<close>, no transport flag
  was given, the run fails and leaves the host's devices as they were.
\<close>

theorem local_mistakes_stay_local:
  assumes "\<not> local_inputs_ok env c"
  shows "\<exists>e. cli_main env c w = (Err e, w)"
proof -
  let ?f = "\<lambda>p. load_image env p" and ?s = "build_spec c"
  show ?thesis
  proof (cases "cli_cmd c")
    case (CmdEcho data)
    with assms show ?thesis
      by (cases "parse_hex_bytes data"; cases ?s)
        (auto simp: cli_main_def local_inputs_ok_def flash_input_def echo_input_def Suc_le_eq not_le)
  next
    case (CmdFlash p)
    with assms show ?thesis
      by (cases "?f p"; cases ?s) (auto simp: cli_main_def local_inputs_ok_def flash_input_def echo_input_def)
  next
    case (CmdInstall a b d e)
    with assms show ?thesis
      by (cases "reject_transport_flags (ce_from_cli env) (ce_sub env)") (auto simp: cli_main_def local_inputs_ok_def)
  qed (use assms in \<open>cases ?s; auto simp: cli_main_def local_inputs_ok_def flash_input_def echo_input_def\<close>)+
qed

definition idle_env :: "(nat, unit, unit, unit) cli_env" where
  "idle_env = \<lparr>ce_wires = idle_wires, ce_read_to_string = (\<lambda>_. Ok '':0''), ce_read = (\<lambda>_. Ok []),
     ce_install = demo_os, ce_from_cli = (\<lambda>_. False), ce_sub = None\<rparr>"

theorem local_mistakes_stay_local_witness:
  "\<exists>e. cli_main idle_env (cli_default (CmdFlash ''app.hex'')) 0 = (Err e, 0)"
proof -
  have "path_extension ''app.hex'' = Some ''hex''"
    by (simp add: path_extension_def path_file_name_def)
  moreover have "trim '':0'' = '':0''"
    by (rule trim_plain) (simp_all add: plain_def)
  then have "ihex_parse '':0'' = Err (BadHex 1 OddDigits)"
    by (simp add: ihex_parse_def lines_def strip_line_def strip_suffix_def ihex_line_def ihex_init_def decode_hex_def)
  ultimately have "\<not> local_inputs_ok idle_env (cli_default (CmdFlash ''app.hex''))"
    by (simp add: local_inputs_ok_def cli_default_def load_image_def idle_env_def eq_ignore_ascii_case_def)
  then show ?thesis
    by (rule local_mistakes_stay_local)
qed

end
