(* ===== verification/Cli_End_To_End.thy ===== *)
theory Cli_End_To_End
  imports Cli_Main End_To_End
begin

text \<open>
  From the command line to the flash of the device: the poll policy of \<open>DynTransport\<close> does
  not change what a device serves, so the flash command succeeds over every backend with
  a device behind it; and it does so over the Linux I2C backend on a bus with the
  simulated device.
\<close>

section \<open>A device behind a transport with a budget\<close>

text \<open>The budgets the medium can work with; more attempts never hurt.\<close>

locale poll_device = device_transport request dev up pinfo + poll_transport request set_poll
  for request :: "('t, 'e) request_fn" and dev up pinfo and set_poll :: "poll_budget \<Rightarrow> 't \<Rightarrow> 't" +
  fixes fits :: "poll_budget \<Rightarrow> bool"
  assumes set_poll_up: "up t \<Longrightarrow> fits b \<Longrightarrow> up (set_poll b t) \<and> dev (set_poll b t) = dev t"
    and fits_more: "fits b \<Longrightarrow> pb_attempts b \<le> n \<Longrightarrow> fits (b\<lparr>pb_attempts := n\<rparr>)"

abbreviation dyn_up :: "('t \<Rightarrow> bool) \<Rightarrow> (poll_budget \<Rightarrow> bool) \<Rightarrow> 't dyn_transport \<Rightarrow> bool" where
  "dyn_up up fits d \<equiv> up (dt_inner d) \<and> fits (dt_base d)"

sublocale poll_device \<subseteq> dyn: device_transport "dyn_request request set_poll" "\<lambda>d. dev (dt_inner d)" "dyn_up up fits" pinfo
proof (intro device_transport.intro device_transport_axioms.intro)
  show "transport (dyn_request request set_poll)"
    by (rule dyn_transport)
next
  fix d :: "'t dyn_transport" and pl c out d' and rsp :: bytes
  assume a': "dyn_up up fits d" "length pl \<le> 252" "dev_step pinfo (dev (dt_inner d)) c pl = (out, d')"
    "length out + 3 \<le> length rsp" "c \<noteq> CMD_BOOT"
  then have a: "up (dt_inner d)" and base: "fits (dt_base d)" by simp_all
  note a = a a'(2-5)
  let ?b = "\<lparr>pb_attempts = dt_erase_attempts d, pb_delay_ms = pb_delay_ms (dt_base d)\<rparr>"
  let ?erase = "get_at (wire c pl) 0 = Some CMD_ERASE_APP \<and> dt_erase_attempts d > pb_attempts (dt_base d)"
  let ?t = "if ?erase then set_poll ?b (dt_inner d) else dt_inner d"
  have "fits ?b" if "dt_erase_attempts d > pb_attempts (dt_base d)"
    using fits_more [OF base, of "dt_erase_attempts d"] that by (cases "dt_base d") simp
  then have t: "up ?t" "dev_step pinfo (dev ?t) c pl = (out, d')"
    using a(1,3) set_poll_up by simp_all
  from serves [OF t(1) a(2) t(2) a(4,5)] obtain n t' rsp' where r: "request ?t (wire c pl) rsp = (Ok n, t', rsp')"
    "n \<le> length rsp'" "decode_padded (take n rsp') = Ok \<lparr>cmd = c OR RSP_FLAG, payload = out\<rparr>" "up t'" "dev t' = d'"
    by blast
  have "dyn_request request set_poll d (wire c pl) rsp =
      (Ok n, d\<lparr>dt_inner := if ?erase then set_poll (dt_base d) t' else t'\<rparr>, rsp')"
    using r(1) by (simp add: dyn_request_def Let_def)
  moreover have "up (if ?erase then set_poll (dt_base d) t' else t')" "dev (if ?erase then set_poll (dt_base d) t' else t') = d'"
    using r(4,5) set_poll_up base by simp_all
  ultimately show "\<exists>n t' rsp'. dyn_request request set_poll d (wire c pl) rsp = (Ok n, t', rsp') \<and> n \<le> length rsp'
      \<and> decode_padded (take n rsp') = Ok \<lparr>cmd = c OR RSP_FLAG, payload = out\<rparr> \<and> dyn_up up fits t' \<and> dev (dt_inner t') = d'"
    using r(2,3) base by fastforce
next
  show "length (pi_device_id pinfo) = 4"
    by (rule id_length)
qed

context session_device
begin

lemma info_succeeds:
  assumes up: "up (s_transport s)" and buf: "18 \<le> length (s_buf s)"
  shows "\<exists>s1. info request s = (Ok \<lparr>di_proto = PROTO_VERSION, di_bl_version = pi_bl_version pinfo,
       di_device_id = pi_device_id pinfo, di_page_size = pi_page_size pinfo, di_app_pages = pi_app_pages pinfo,
       di_app_valid = region_valid (dev_flash (dev (s_transport s)))\<rparr>, s1)
     \<and> up (s_transport s1) \<and> dev (s_transport s1) = dev (s_transport s) \<and> length (s_buf s1) = length (s_buf s)"
proof -
  from transact_step [OF up _ _ dev_info, of INFO_RSP_PAYLOAD] length_info [OF device_id] buf
  obtain s1 where "transact request s CMD_INFO [] INFO_RSP_PAYLOAD =
      (Ok (tl (info_payload pinfo (region_valid (dev_flash (dev (s_transport s)))))), s1)" "up (s_transport s1)"
    "dev (s_transport s1) = dev (s_transport s)" "length (s_buf s1) = length (s_buf s)"
    by (auto simp: INFO_RSP_PAYLOAD_def CMD_INFO_def CMD_BOOT_def ST_OK_def ST_BAD_FRAME_def)
  then show ?thesis
    by (auto simp: info_def parse_info_payload [OF device_id])
qed

lemma echo_succeeds:
  assumes up: "up (s_transport s)" and data: "length data \<le> 16" and buf: "39 \<le> length (s_buf s)"
  shows "\<exists>s1. echo request s data = (Ok (), s1)
     \<and> up (s_transport s1) \<and> dev (s_transport s1) = dev (s_transport s) \<and> length (s_buf s1) = length (s_buf s)"
proof -
  have step: "dev_step pinfo (dev (s_transport s)) CMD_ECHO data = (ST_OK # data, dev (s_transport s))"
    using data by (simp add: dev_step_def CMD_INFO_def CMD_ERASE_APP_def CMD_WRITE_PAGE_def CMD_VERIFY_def CMD_BOOT_def CMD_ECHO_def)
  from transact_step [OF up _ _ step, of "length data + 1"] data buf
  obtain s1 where "transact request s CMD_ECHO data (length data + 1) = (Ok data, s1)" "up (s_transport s1)"
    "dev (s_transport s1) = dev (s_transport s)" "length (s_buf s1) = length (s_buf s)"
    by (auto simp: CMD_ECHO_def CMD_BOOT_def ST_OK_def ST_BAD_FRAME_def)
  then show ?thesis
    using data by (simp add: echo_def ECHO_MAX_def ST_RSP_PAYLOAD_def usize_simps)
qed

end

section \<open>The commands over any backend with a device behind it\<close>

text \<open>What \<open>info\<close> reports of the device: its constants and whether the boot gate would open.\<close>

definition reported :: "port_info \<Rightarrow> device \<Rightarrow> device_info" where
  "reported pinfo d = \<lparr>di_proto = PROTO_VERSION, di_bl_version = pi_bl_version pinfo, di_device_id = pi_device_id pinfo,
     di_page_size = pi_page_size pinfo, di_app_pages = pi_app_pages pinfo, di_app_valid = region_valid (dev_flash d)\<rparr>"

locale wire_device = poll_device "backend_request wr" dev up pinfo backend_set_poll fits
  for wr :: "('w, 'e, 'f, 'tio) wires" and dev :: "('w, 'f) backend \<Rightarrow> device" and up :: "('w, 'f) backend \<Rightarrow> bool"
    and pinfo :: port_info and fits :: "poll_budget \<Rightarrow> bool"
begin

lemma dyn_of_wr: "ce_wires env = wr \<Longrightarrow> dyn_of env = dyn_request (backend_request wr) backend_set_poll"
  by (simp add: dyn_of_def)

lemma cmd_flash_succeeds:
  assumes env: "ce_wires env = wr" and img: "from_bin bs (pi_page_size pinfo) (pi_app_pages pinfo) = Ok img"
    and up: "dyn_up up fits (s_transport s)" and buf: "length (s_buf s) = 512"
    and len: "length (dev_flash (dev (dt_inner (s_transport s)))) = img_ps img * img_ap img"
  shows "\<exists>prog s'. cmd_flash env spec poll bs s =
       (Ok (OutFlash (img_len img) (img_crc img) (describe spec) prog), s') \<and> dyn_up up fits (s_transport s')
     \<and> dev (dt_inner (s_transport s')) = \<lparr>dev_flash = region_image img, dev_erased = True\<rparr>"
proof -
  have v: "valid_image img" "matches img pinfo" "img_ps img + 9 \<le> 512"
    using from_bin_valid [OF img] by (auto simp: valid_image_def matches_def)
  obtain di s1 where s1: "info (dyn_of env) s = (Ok di, s1)" "di_page_size di = pi_page_size pinfo"
    "di_app_pages di = pi_app_pages pinfo" "dyn_up up fits (s_transport s1)" "length (s_buf s1) = 512"
    "dev (dt_inner (s_transport s1)) = dev (dt_inner (s_transport s))"
    using dyn.info_succeeds [of s] up buf by (auto simp: dyn_of_wr [OF env])
  let ?s = "session_new (set_erase_attempts (into_transport s1) (erase_poll_attempts (pi_app_pages pinfo) poll)) (s_buf s1)"
  have s: "dyn_up up fits (s_transport ?s)" "length (s_buf ?s) = 512"
    "length (dev_flash (dev (dt_inner (s_transport ?s)))) = img_ps img * img_ap img"
    using s1(4-6) len by (simp_all add: session_new_def set_erase_attempts_def into_transport_def)
  from dyn.flash_succeeds [OF v(1,2) s(1,3)] obtain s' prog where "flash (dyn_of env) ?s img = (Ok (), s', prog)"
    "dyn_up up fits (s_transport s')" "dev (dt_inner (s_transport s')) = \<lparr>dev_flash = region_image img, dev_erased = True\<rparr>"
    using s(2) v(3) by (auto simp: dyn_of_wr [OF env])
  then show ?thesis
    using s1 img by (auto simp: cmd_flash_def)
qed

lemma cmd_info_succeeds:
  assumes env: "ce_wires env = wr" and up: "dyn_up up fits (s_transport s)" and buf: "length (s_buf s) = 512"
  shows "\<exists>s'. cmd_info env s =
       (let region = ucast (pi_page_size pinfo) * ucast (pi_app_pages pinfo)
        in (Ok (OutInfo (reported pinfo (dev (dt_inner (s_transport s)))) region (if region < 16 then 0 else region - 16)), s'))
     \<and> dyn_up up fits (s_transport s') \<and> dev (dt_inner (s_transport s')) = dev (dt_inner (s_transport s))"
  using dyn.info_succeeds [of s] up buf
  by (auto simp: cmd_info_def dyn_of_wr [OF env] reported_def Let_def)

lemma cmd_echo_succeeds:
  assumes env: "ce_wires env = wr" and up: "dyn_up up fits (s_transport s)" and buf: "length (s_buf s) = 512" and data: "length bs \<le> 16"
  shows "\<exists>s'. cmd_echo env bs s = (Ok (OutEcho (length bs)), s')
     \<and> dyn_up up fits (s_transport s') \<and> dev (dt_inner (s_transport s')) = dev (dt_inner (s_transport s))"
  using dyn.echo_succeeds [of s bs] up buf data by (auto simp: cmd_echo_def dyn_of_wr [OF env])

end

text \<open>
  BOOT, which \<open>device_transport\<close> leaves out: the gate answers, and after an acceptance the
  application has started (\<open>jumped\<close>) and the device serves no more.
\<close>

locale boot_wire = wire_device wr dev up pinfo fits
  for wr :: "('w, 'e, 'f, 'tio) wires" and dev up pinfo fits +
  fixes jumped :: "('w, 'f) backend \<Rightarrow> bool"
  assumes boots: "up t \<Longrightarrow> v = region_valid (dev_flash (dev t)) \<Longrightarrow> 4 \<le> length rsp \<Longrightarrow>
      \<exists>n t' rsp'. backend_request wr t (wire CMD_BOOT []) rsp = (Ok n, t', rsp') \<and> n \<le> length rsp'
        \<and> decode_padded (take n rsp') = Ok \<lparr>cmd = CMD_BOOT OR RSP_FLAG, payload = [if v then ST_OK else ST_NO_APP]\<rparr>
        \<and> dev t' = dev t \<and> jumped t' = v \<and> (v \<or> up t')"
begin

lemma cmd_boot_step:
  assumes env: "ce_wires env = wr" and up: "dyn_up up fits (s_transport s)" and buf: "7 \<le> length (s_buf s)"
    and valid: "v = region_valid (dev_flash (dev (dt_inner (s_transport s))))"
  shows "\<exists>s'. cmd_boot env s = (if v then Ok OutBoot else Err (BootRefused (Core (Device ST_NO_APP))), s')
     \<and> dev (dt_inner (s_transport s')) = dev (dt_inner (s_transport s))
     \<and> jumped (dt_inner (s_transport s')) = v \<and> (v \<or> dyn_up up fits (s_transport s'))"
proof -
  let ?t = "dt_inner (s_transport s)" and ?st = "if v then ST_OK else ST_NO_APP" and ?rx = "take 4 (drop 3 (s_buf s))"
  from boots [OF conjunct1 [OF up] valid, of ?rx] buf obtain n t' rsp' where r:
    "backend_request wr ?t (wire CMD_BOOT []) ?rx = (Ok n, t', rsp')" "n \<le> length rsp'"
    "decode_padded (take n rsp') = Ok \<lparr>cmd = CMD_BOOT OR RSP_FLAG, payload = [?st]\<rparr>" "dev t' = dev ?t"
    "jumped t' = v" "v \<or> up t'"
    by auto
  have first: "get_at (wire CMD_BOOT []) 0 \<noteq> Some CMD_ERASE_APP"
    by (simp add: get_at_def wire_crc CMD_BOOT_def CMD_ERASE_APP_def)
  have req: "dyn_of env (s_transport s) (wire CMD_BOOT []) ?rx = (Ok n, (s_transport s)\<lparr>dt_inner := t'\<rparr>, rsp')"
    using r(1) first by (simp add: dyn_of_wr [OF env] dyn_request_def)
  obtain s' where "transact (dyn_of env) s CMD_BOOT [] ST_RSP_PAYLOAD =
      (if v then Ok [] else Err (Core (Device ST_NO_APP)), s')" and t: "s_transport s' = (s_transport s)\<lparr>dt_inner := t'\<rparr>"
    using dyn.transact_served [of s CMD_BOOT "[]" 1 n "(s_transport s)\<lparr>dt_inner := t'\<rparr>" rsp' ?st "[]"] req r(2,3) buf
    by (auto simp: dyn_of_wr [OF env] ST_RSP_PAYLOAD_def ST_OK_def ST_NO_APP_def ST_BAD_FRAME_def split: if_splits)
  then have "cmd_boot env s = (if v then Ok OutBoot else Err (BootRefused (Core (Device ST_NO_APP))), s')"
    by (simp add: cmd_boot_def boot_def)
  with r(4-6) t up show ?thesis by auto
qed

end

section \<open>The command line over any wire that opens\<close>

lemma sim_geometry: "pi_page_size sim_port_info = 128" "pi_app_pages sim_port_info = 32"
  by (simp_all add: sim_port_info_def)

abbreviation poll_of :: "cli \<Rightarrow> poll_budget" where
  "poll_of c \<equiv> \<lparr>pb_attempts = cli_poll_attempts c, pb_delay_ms = cli_poll_delay_ms c\<rparr>"

lemma build_spec_cmd: "build_spec (c\<lparr>cli_cmd := cmd'\<rparr>) = build_spec c"
  by (cases "cli_transport c") (auto simp: build_spec_def split: option.splits)

text \<open>
  A kind of wire on a host: the command lines that choose it and the specification they
  give, the states of the host in which it works, and the device and the start of the
  application as seen in such a state.
\<close>

locale cli_wire = boot_wire wr dev up sim_port_info fits jumped
  for wr :: "('w, 'e, 'f, 'tio) wires" and dev up fits jumped +
  fixes chosen :: "cli \<Rightarrow> bool" and spec :: "cli \<Rightarrow> transport_spec"
    and ready :: "'w \<Rightarrow> bool" and there :: "'w \<Rightarrow> device" and started :: "'w \<Rightarrow> bool"
  assumes chosen_spec: "chosen c \<Longrightarrow> build_spec c = Ok (spec c)"
    and chosen_cmd: "chosen (c\<lparr>cli_cmd := cmd'\<rparr>) = chosen c"
    and chosen_fits: "chosen c \<Longrightarrow> fits (poll_of c)"
    and opens: "chosen c \<Longrightarrow> ready w \<Longrightarrow> fits b \<Longrightarrow> \<exists>t w'. open_backend wr (spec c) w = (Ok t, w')
      \<and> up (backend_set_poll b t) \<and> dev (backend_set_poll b t) = there w"
    and stays_ready: "up t \<Longrightarrow> ready (backend_hw t)"
    and dev_there: "dev t = there (backend_hw t)"
    and jumped_started: "jumped t = started (backend_hw t)"
    and region_there: "ready w \<Longrightarrow> length (dev_flash (there w)) = 4096"
begin

lemma spec_cmd: "chosen c \<Longrightarrow> spec (c\<lparr>cli_cmd := cmd'\<rparr>) = spec c"
  using chosen_spec [of c] chosen_spec [of "c\<lparr>cli_cmd := cmd'\<rparr>"] by (simp add: chosen_cmd build_spec_cmd)

text \<open>What \<open>main\<close> hands to the session, and what the session leaves.\<close>

lemma opened:
  assumes "chosen c" and "ready w"
  shows "\<exists>d w'. transport_open wr (spec c) (poll_of c) w = (Ok d, w') \<and> dyn_up up fits d \<and> dev (dt_inner d) = there w"
  using opens [OF assms chosen_fits [OF assms(1)]] chosen_fits [OF assms(1)] by (fastforce simp: transport_open_def)

abbreviation left_by :: "('w, 'f) backend dyn_transport session \<Rightarrow> 'w" where
  "left_by s \<equiv> backend_hw (dt_inner (s_transport s))"

lemma main_open:
  assumes "chosen c" and "ce_wires env = wr" and "transport_open wr (spec c) (poll_of c) w = (Ok d, w')"
  shows "cli_cmd c = CmdFlash path \<Longrightarrow> load_image env path = Ok bs \<Longrightarrow>
       cli_main env c w = (let (r, s) = cmd_flash env (spec c) (poll_of c) bs (session_new d (replicate 512 0)) in (r, left_by s))"
    and "cli_cmd c = CmdInfo \<Longrightarrow>
       cli_main env c w = (let (r, s) = cmd_info env (session_new d (replicate 512 0)) in (r, left_by s))"
    and "cli_cmd c = CmdEcho data \<Longrightarrow> parse_hex_bytes data = Ok bs \<Longrightarrow> bs \<noteq> [] \<Longrightarrow> length bs \<le> 16 \<Longrightarrow>
       cli_main env c w = (let (r, s) = cmd_echo env bs (session_new d (replicate 512 0)) in (r, left_by s))"
    and "cli_cmd c = CmdBoot \<Longrightarrow>
       cli_main env c w = (let (r, s) = cmd_boot env (session_new d (replicate 512 0)) in (r, left_by s))"
  using assms chosen_spec [OF assms(1)]
  by (simp_all add: cli_main_def flash_input_def echo_input_def or_default_def FRAME_BUF_LEN_def into_transport_def Let_def)

lemma main_flash:
  assumes "chosen c" and "ready w" and "ce_wires env = wr" and "cli_cmd c = CmdFlash path"
    and "load_image env path = Ok bs" and img: "from_bin bs 128 32 = Ok img"
  shows "\<exists>prog w'. cli_main env c w = (Ok (OutFlash (img_len img) (img_crc img) (describe (spec c)) prog), w')
     \<and> ready w' \<and> there w' = \<lparr>dev_flash = region_image img, dev_erased = True\<rparr>"
proof -
  obtain d w0 where d: "transport_open wr (spec c) (poll_of c) w = (Ok d, w0)" "dyn_up up fits d" "dev (dt_inner d) = there w"
    using opened [OF assms(1,2)] by blast
  let ?s = "session_new d (replicate 512 0)"
  have s: "dyn_up up fits (s_transport ?s)" "length (s_buf ?s) = 512"
    "length (dev_flash (dev (dt_inner (s_transport ?s)))) = img_ps img * img_ap img"
    using d(2,3) region_there [OF assms(2)] from_bin_valid [OF img] by (simp_all add: session_new_def img_ps_def img_ap_def)
  from cmd_flash_succeeds [OF assms(3) _ s, of bs "spec c" "poll_of c"] img obtain prog s' where
    "cmd_flash env (spec c) (poll_of c) bs ?s = (Ok (OutFlash (img_len img) (img_crc img) (describe (spec c)) prog), s')"
    "dyn_up up fits (s_transport s')" "dev (dt_inner (s_transport s')) = \<lparr>dev_flash = region_image img, dev_erased = True\<rparr>"
    by (auto simp: sim_geometry)
  then show ?thesis
    using main_open(1) [OF assms(1,3) d(1) assms(4,5)] stays_ready [of "dt_inner (s_transport s')"] by (auto simp: dev_there)
qed

lemma main_info:
  assumes "chosen c" and "ready w" and "ce_wires env = wr" and "cli_cmd c = CmdInfo"
  shows "\<exists>w'. cli_main env c w = (Ok (OutInfo (reported sim_port_info (there w)) 4096 4080), w') \<and> ready w' \<and> there w' = there w"
proof -
  obtain d w0 where d: "transport_open wr (spec c) (poll_of c) w = (Ok d, w0)" "dyn_up up fits d" "dev (dt_inner d) = there w"
    using opened [OF assms(1,2)] by blast
  let ?s = "session_new d (replicate 512 0)"
  have s: "dyn_up up fits (s_transport ?s)" "length (s_buf ?s) = 512"
    using d(2) by (simp_all add: session_new_def)
  from cmd_info_succeeds [OF assms(3) s] d(3) obtain s' where
    "cmd_info env ?s = (Ok (OutInfo (reported sim_port_info (there w)) 4096 4080), s')"
    "dyn_up up fits (s_transport s')" "dev (dt_inner (s_transport s')) = there w"
    by (auto simp: sim_geometry session_new_def Let_def)
  then show ?thesis
    using main_open(2) [OF assms(1,3) d(1) assms(4)] stays_ready [of "dt_inner (s_transport s')"] by (auto simp: dev_there)
qed

lemma main_echo:
  assumes "chosen c" and "ready w" and "ce_wires env = wr" and "cli_cmd c = CmdEcho data"
    and "parse_hex_bytes data = Ok bs" and "bs \<noteq> []" and "length bs \<le> 16"
  shows "\<exists>w'. cli_main env c w = (Ok (OutEcho (length bs)), w') \<and> ready w' \<and> there w' = there w"
proof -
  obtain d w0 where d: "transport_open wr (spec c) (poll_of c) w = (Ok d, w0)" "dyn_up up fits d" "dev (dt_inner d) = there w"
    using opened [OF assms(1,2)] by blast
  let ?s = "session_new d (replicate 512 0)"
  have s: "dyn_up up fits (s_transport ?s)" "length (s_buf ?s) = 512"
    using d(2) by (simp_all add: session_new_def)
  from cmd_echo_succeeds [OF assms(3) s assms(7)] d(3) obtain s' where "cmd_echo env bs ?s = (Ok (OutEcho (length bs)), s')"
    "dyn_up up fits (s_transport s')" "dev (dt_inner (s_transport s')) = there w"
    by (auto simp: session_new_def)
  then show ?thesis
    using main_open(3) [OF assms(1,3) d(1) assms(4-7)] stays_ready [of "dt_inner (s_transport s')"] by (auto simp: dev_there)
qed

lemma main_boot:
  assumes "chosen c" and "ready w" and "ce_wires env = wr" and "cli_cmd c = CmdBoot" and v: "v = region_valid (dev_flash (there w))"
  shows "\<exists>w'. cli_main env c w = (if v then Ok OutBoot else Err (BootRefused (Core (Device ST_NO_APP))), w')
     \<and> started w' = v \<and> there w' = there w \<and> (v \<or> ready w')"
proof -
  obtain d w0 where d: "transport_open wr (spec c) (poll_of c) w = (Ok d, w0)" "dyn_up up fits d" "dev (dt_inner d) = there w"
    using opened [OF assms(1,2)] by blast
  let ?s = "session_new d (replicate 512 0)"
  have s: "dyn_up up fits (s_transport ?s)" "7 \<le> length (s_buf ?s)" "v = region_valid (dev_flash (dev (dt_inner (s_transport ?s))))"
    using d(2,3) v by (simp_all add: session_new_def)
  from cmd_boot_step [OF assms(3) s] d(3) obtain s' where
    "cmd_boot env ?s = (if v then Ok OutBoot else Err (BootRefused (Core (Device ST_NO_APP))), s')"
    "dev (dt_inner (s_transport s')) = there w" "jumped (dt_inner (s_transport s')) = v" "v \<or> dyn_up up fits (s_transport s')"
    by (auto simp: session_new_def)
  then show ?thesis
    using main_open(4) [OF assms(1,3) d(1) assms(4)] stays_ready [of "dt_inner (s_transport s')"]
    by (auto simp: dev_there jumped_started)
qed

text \<open>The four commands one after the other.\<close>

lemma main_round:
  assumes "chosen c" and "ready w" and env: "ce_wires env = wr"
    and "load_image env path = Ok bs" and img: "from_bin bs 128 32 = Ok img"
    and "parse_hex_bytes data = Ok payload'" and "payload' \<noteq> []" and "length payload' \<le> 16"
  shows "\<exists>prog w1 w2 w3 w4.
       cli_main env (c\<lparr>cli_cmd := CmdFlash path\<rparr>) w = (Ok (OutFlash (img_len img) (img_crc img) (describe (spec c)) prog), w1)
     \<and> dev_flash (there w1) = bs @ replicate (4080 - length bs) 0xFF @ footer img
     \<and> cli_main env (c\<lparr>cli_cmd := CmdInfo\<rparr>) w1 =
         (Ok (OutInfo \<lparr>di_proto = PROTO_VERSION, di_bl_version = pi_bl_version sim_port_info, di_device_id = pi_device_id sim_port_info,
            di_page_size = 128, di_app_pages = 32, di_app_valid = True\<rparr> 4096 4080), w2)
     \<and> cli_main env (c\<lparr>cli_cmd := CmdEcho data\<rparr>) w2 = (Ok (OutEcho (length payload')), w3)
     \<and> ready w1 \<and> ready w2 \<and> ready w3
     \<and> cli_main env (c\<lparr>cli_cmd := CmdBoot\<rparr>) w3 = (Ok OutBoot, w4)
     \<and> started w4 \<and> dev_flash (there w4) = dev_flash (there w1)"
proof -
  have v: "valid_image img" "img_data img = bs" "img_ps img = 128" "img_ap img = 32"
    using from_bin_valid [OF img] by (simp_all add: img_ps_def img_ap_def)
  have ch: "chosen (c\<lparr>cli_cmd := x\<rparr>)" for x
    using assms(1) by (simp add: chosen_cmd)
  obtain prog w1 where w1: "cli_main env (c\<lparr>cli_cmd := CmdFlash path\<rparr>) w =
      (Ok (OutFlash (img_len img) (img_crc img) (describe (spec c)) prog), w1)"
    "ready w1" "there w1 = \<lparr>dev_flash = region_image img, dev_erased = True\<rparr>"
    using main_flash [OF ch assms(2) env _ assms(4) img, of "CmdFlash path"] by (auto simp: spec_cmd [OF assms(1)])
  obtain w2 where w2: "cli_main env (c\<lparr>cli_cmd := CmdInfo\<rparr>) w1 = (Ok (OutInfo (reported sim_port_info (there w1)) 4096 4080), w2)"
    "ready w2" "there w2 = there w1"
    using main_info [OF ch w1(2) env, of CmdInfo] by auto
  obtain w3 where w3: "cli_main env (c\<lparr>cli_cmd := CmdEcho data\<rparr>) w2 = (Ok (OutEcho (length payload')), w3)"
    "ready w3" "there w3 = there w2"
    using main_echo [OF ch w2(2) env _ assms(6-8), of "CmdEcho data"] by auto
  have region: "region_valid (region_image img)" "region_image img = bs @ replicate (4080 - length bs) 0xFF @ footer img"
    using region_image_valid [OF v(1)] v by (simp_all add: region_image_def)
  then have "True = region_valid (dev_flash (there w3))"
    using w1(3) w2(3) w3(3) by simp
  from main_boot [OF ch w3(2) env _ this, of CmdBoot] obtain w4 where
    "cli_main env (c\<lparr>cli_cmd := CmdBoot\<rparr>) w3 = (Ok OutBoot, w4)" "started w4" "there w4 = there w3"
    by auto
  with w1 w2 w3 region show ?thesis
    by (auto simp: reported_def sim_geometry)
qed

end

section \<open>The device on an I2C bus of the host\<close>

text \<open>A host on which everything opens and nothing answers.\<close>

definition quiet_os :: "('w, unit, unit, unit) host_os" where
  "quiet_os = \<lparr>os_i2c_new = (\<lambda>_ _ w. (Ok (), w)), os_i2c_write = (\<lambda>_ _ w. (Ok (), w)), os_i2c_read = (\<lambda>_ _ w. (Err (), [], w)),
     os_sleep_ms = (\<lambda>_ w. w), os_open = (\<lambda>_ w. (Ok (), w)), os_tcgetattr = (\<lambda>_ w. (Ok (), w)), os_cfmakeraw = id,
     os_cfsetspeed = (\<lambda>_ t. Ok t), os_set_cc = (\<lambda>_ _ t. t), os_tcsetattr = (\<lambda>_ _ w. (Ok (), w)),
     os_tcflush = (\<lambda>_ w. (Ok (), w)), os_read = (\<lambda>_ _ w. (Ok 0, [], w)), os_write = (\<lambda>_ bs w. (Ok (length bs), w)),
     os_interrupted = (\<lambda>_. False), os_spidev_open = (\<lambda>_ w. (Ok (), w)), os_spidev_configure = (\<lambda>_ _ w. (Ok (), w)),
     os_transfer_multiple = (\<lambda>_ _ w. (Ok (), [], w)), os_chip_new = (\<lambda>_ w. (Ok (), w)),
     os_line_request = (\<lambda>_ _ _ _ w. (Ok (), w)), os_set_value = (\<lambda>_ _ w. (Ok (), w)), os_get_value = (\<lambda>_ w. (Ok 1, w)),
     os_now = (\<lambda>w. (0, w)), os_sleep_ns = (\<lambda>_ w. w)\<rparr>"

text \<open>
  The bus: a write runs one request cycle of the device, a read clocks out the response
  and then the idle level of the bus. The other devices of the host are idle.
\<close>

record i2c_bus =
  bus_dev :: sim
  bus_out :: bytes

definition sim_os :: "(i2c_bus, unit, unit, unit) host_os" where
  "sim_os = quiet_os\<lparr>
     os_i2c_write := (\<lambda>_ req w. let (out, s) = sim_rust_request req (bus_dev w) in (Ok (), \<lparr>bus_dev = s, bus_out = out\<rparr>)),
     os_i2c_read := (\<lambda>_ n w. (Ok (), take n (bus_out w @ replicate n 0xFF), w))\<rparr>"

definition sim_wires :: "(i2c_bus, unit, unit, unit) wires" where
  "sim_wires = \<lparr>wr_os = sim_os,
     wr_uart = (\<lambda>_. \<lparr>uart_write_all = (\<lambda>_ w. (Ok (), w)), uart_flush = (\<lambda>w. (Ok (), w)), uart_read = (\<lambda>_ w. (Ok 0, [], w)),
       uart_delay_ns = (\<lambda>_ w. w)\<rparr>), wr_delay_ns = (\<lambda>_ w. w)\<rparr>"

definition on_bus :: "(i2c_bus, unit) backend \<Rightarrow> bool" where
  "on_bus t \<longleftrightarrow> (case t of BI2c li \<Rightarrow> sim_up (bus_dev (li_hw li)) | _ \<Rightarrow> False)"

definition bus_device :: "(i2c_bus, unit) backend \<Rightarrow> device" where
  "bus_device t = sim_dev (bus_dev (backend_hw t))"

lemma overwrite_full: "length s = length d \<Longrightarrow> overwrite d s = s"
  by (induction d s rule: overwrite.induct) simp_all

text \<open>A request over the bus runs one cycle of the device, whatever it answers.\<close>

lemma bus_request:
  assumes "sim_rust_request req (bus_dev (li_hw li)) = (out, s)"
  shows "backend_request sim_wires (BI2c li) req rsp =
     (Ok (length rsp), BI2c (li\<lparr>li_hw := \<lparr>bus_dev = s, bus_out = out\<rparr>\<rparr>), take (length rsp) (out @ replicate (length rsp) 0xFF))"
proof -
  let ?w = "\<lparr>bus_dev = s, bus_out = out\<rparr>" and ?rsp = "take (length rsp) (out @ replicate (length rsp) 0xFF)"
  have "linux_i2c_poll sim_os f p i 0 rsp ?w = (Ok (length rsp), ?rsp, ?w)" for f p i
    by (subst linux_i2c_poll.simps) (simp add: sim_os_def overwrite_full del: take_append)
  moreover have "os_i2c_write sim_os f req (li_hw li) = (Ok (), ?w)" for f
    by (simp add: sim_os_def assms)
  ultimately show ?thesis
    by (simp add: sim_wires_def linux_i2c_request_def erase_err_def)
qed

lemma bus_answers:
  assumes "on_bus t" and "length pl \<le> 252" and "dev_step sim_port_info (bus_device t) c pl = (out, d')"
    and "length out + 3 \<le> length rsp"
  shows "\<exists>n t' rsp'. backend_request sim_wires t (wire c pl) rsp = (Ok n, t', rsp') \<and> n \<le> length rsp'
     \<and> decode_padded (take n rsp') = Ok \<lparr>cmd = c OR RSP_FLAG, payload = out\<rparr> \<and> bus_device t' = d'
     \<and> (if c = CMD_BOOT \<and> region_valid (dev_flash (bus_device t))
        then hw_jumped (sim_hw (bus_dev (backend_hw t'))) \<and> \<not> hw_aborted (sim_hw (bus_dev (backend_hw t')))
        else on_bus t')"
proof -
  obtain li where t: "t = BI2c li" "sim_up (bus_dev (li_hw li))"
    using assms(1) by (cases t) (auto simp: on_bus_def)
  have step: "dev_step sim_port_info (sim_dev (bus_dev (li_hw li))) c pl = (out, d')"
    using assms(3) t by (simp add: bus_device_def)
  obtain s' where s': "sim_rust_request (wire c pl) (bus_dev (li_hw li)) = (wire (c OR RSP_FLAG) out, s')" "sim_dev s' = d'"
    "length out \<le> 17" "us_info (sim_session s') = sim_port_info" "\<not> us_boot_pending (sim_session s')"
    "if c = CMD_BOOT \<and> region_valid (dev_flash (bus_device t))
     then hw_jumped (sim_hw s') \<and> \<not> hw_aborted (sim_hw s') else healthy (sim_hw s')"
    using sim_cycle [OF t(2) assms(2) step] by (auto simp: t(1) bus_device_def sim_dev_def)
  have "backend_request sim_wires t (wire c pl) rsp = (Ok (length rsp),
      BI2c (li\<lparr>li_hw := \<lparr>bus_dev = s', bus_out = wire (c OR RSP_FLAG) out\<rparr>\<rparr>),
      wire (c OR RSP_FLAG) out @ replicate (length rsp - (length out + 3)) 0xFF)"
    using bus_request [OF s'(1), of rsp] assms(4) by (simp add: t(1) min_def)
  with s' assms(4) show ?thesis
    by (auto simp: on_bus_def bus_device_def sim_up_def)
qed

lemma bus_serves:
  assumes "on_bus t" and "length pl \<le> 252" and "dev_step sim_port_info (bus_device t) c pl = (out, d')"
    and "length out + 3 \<le> length rsp" and "c \<noteq> CMD_BOOT"
  shows "\<exists>n t' rsp'. backend_request sim_wires t (wire c pl) rsp = (Ok n, t', rsp') \<and> n \<le> length rsp'
     \<and> decode_padded (take n rsp') = Ok \<lparr>cmd = c OR RSP_FLAG, payload = out\<rparr> \<and> on_bus t' \<and> bus_device t' = d'"
  using bus_answers [OF assms(1-4)] assms(5) by auto

interpretation bus: wire_device sim_wires bus_device on_bus sim_port_info "\<lambda>_. True"
proof (intro wire_device.intro poll_device.intro device_transport.intro device_transport_axioms.intro poll_device_axioms.intro)
  show "transport (backend_request sim_wires)" ..
  show "poll_transport (backend_request sim_wires) backend_set_poll" ..
  show "length (pi_device_id sim_port_info) = 4"
    by (simp add: sim_port_info_def)
next
  fix t b
  assume "on_bus t"
  then show "on_bus (backend_set_poll b t) \<and> bus_device (backend_set_poll b t) = bus_device t"
    by (cases t) (simp_all add: on_bus_def bus_device_def li_set_poll_budget_def)
qed (use bus_serves in blast, rule TrueI)

interpretation bus_boot: boot_wire sim_wires bus_device on_bus sim_port_info "\<lambda>_. True" "\<lambda>t. hw_jumped (sim_hw (bus_dev (backend_hw t)))"
proof unfold_locales
  fix t :: "(i2c_bus, unit) backend" and v and rsp :: bytes
  assume up: "on_bus t" and v: "v = region_valid (dev_flash (bus_device t))" and rsp: "4 \<le> length rsp"
  have "\<not> hw_jumped (sim_hw (bus_dev (backend_hw t')))" if "on_bus t'" for t'
    using that by (auto simp: on_bus_def sim_up_def healthy_def split: backend.splits)
  then show "\<exists>n t' rsp'. backend_request sim_wires t (wire CMD_BOOT []) rsp = (Ok n, t', rsp') \<and> n \<le> length rsp'
      \<and> decode_padded (take n rsp') = Ok \<lparr>cmd = CMD_BOOT OR RSP_FLAG, payload = [if v then ST_OK else ST_NO_APP]\<rparr>
      \<and> bus_device t' = bus_device t \<and> hw_jumped (sim_hw (bus_dev (backend_hw t'))) = v \<and> (v \<or> on_bus t')"
    using bus_answers [OF up _ dev_step_boot, of "[]" rsp] rsp unfolding v
    by (cases "region_valid (dev_flash (bus_device t))") auto
qed

section \<open>Opening the wire\<close>

definition sim_env :: "(string \<Rightarrow> unit + string) \<Rightarrow> (string \<Rightarrow> unit + bytes) \<Rightarrow> (i2c_bus, unit) install_os \<Rightarrow>
    (i2c_bus, unit, unit, unit) cli_env" where
  "sim_env texts files ios = \<lparr>ce_wires = sim_wires, ce_read_to_string = texts, ce_read = files, ce_install = ios,
     ce_from_cli = (\<lambda>_. False), ce_sub = None\<rparr>"

lemma env_sim: "ce_wires (sim_env texts files ios) = sim_wires"
  by (simp add: sim_env_def)

section \<open>The commands\<close>

interpretation bus_cli: cli_wire sim_wires bus_device on_bus "\<lambda>_. True" "\<lambda>t. hw_jumped (sim_hw (bus_dev (backend_hw t)))"
  "\<lambda>c. cli_transport c = KindI2c" "\<lambda>c. SpecI2c (cli_bus c) (cli_addr c)"
  "\<lambda>w. sim_up (bus_dev w)" "\<lambda>w. sim_dev (bus_dev w)" "\<lambda>w. hw_jumped (sim_hw (bus_dev w))"
  by unfold_locales
    (auto simp: build_spec_def open_backend_def linux_i2c_open_def sim_wires_def sim_os_def quiet_os_def on_bus_def bus_device_def
      li_set_poll_budget_def sim_up_def healthy_def sim_dev_def split: backend.splits)

lemmas cli_flash_bus = bus_cli.main_flash [OF _ _ env_sim]
  and cli_boot_bus = bus_cli.main_boot [OF _ _ env_sim]

section \<open>Properties\<close>

text \<open>
  C1: the flash command works. On a host whose I2C bus has the device, for every image
  file, binary or Intel HEX, that loads to bytes that fit the device, and whatever the
  other flags are, \<open>updater-cli flash\<close> succeeds and reports length and CRC of the image;
  the region of the device then holds exactly those bytes, \<open>0xFF\<close> padding and the footer,
  and a following \<open>updater-cli boot\<close> succeeds and starts the application.
\<close>

theorem cli_flash_then_boot:
  assumes "cli_cmd c = CmdFlash path" and "cli_transport c = KindI2c" and "load_image (sim_env texts files ios) path = Ok bs"
    and "from_bin bs 128 32 = Ok img" and "sim_up (bus_dev w)"
  shows "\<exists>prog w1 w2.
       cli_main (sim_env texts files ios) c w =
         (Ok (OutFlash (img_len img) (img_crc img) (describe (SpecI2c (cli_bus c) (cli_addr c))) prog), w1)
     \<and> hw_flash (sim_hw (bus_dev w1)) = bs @ replicate (4080 - length bs) 0xFF @ footer img
     \<and> cli_main (sim_env texts files ios) (c\<lparr>cli_cmd := CmdBoot\<rparr>) w1 = (Ok OutBoot, w2)
     \<and> hw_jumped (sim_hw (bus_dev w2)) \<and> hw_flash (sim_hw (bus_dev w2)) = hw_flash (sim_hw (bus_dev w1))"
proof -
  have v: "valid_image img" "img_data img = bs" "img_ps img = 128" "img_ap img = 32"
    using from_bin_valid [OF assms(4)] by (simp_all add: img_ps_def img_ap_def)
  obtain prog w1 where w1: "cli_main (sim_env texts files ios) c w =
      (Ok (OutFlash (img_len img) (img_crc img) (describe (SpecI2c (cli_bus c) (cli_addr c))) prog), w1)"
    "sim_up (bus_dev w1)" "sim_dev (bus_dev w1) = \<lparr>dev_flash = region_image img, dev_erased = True\<rparr>"
    using cli_flash_bus [OF assms(2,5,1,3,4)] by blast
  have region: "region_image img = bs @ replicate (4080 - length bs) 0xFF @ footer img"
    using v by (simp add: region_image_def)
  have "True = region_valid (dev_flash (sim_dev (bus_dev w1)))"
    using region_image_valid [OF v(1)] w1(3) by simp
  from cli_boot_bus [OF _ w1(2) _ this, of "c\<lparr>cli_cmd := CmdBoot\<rparr>" texts files ios] assms(2) w1 region show ?thesis
    by (auto simp: sim_dev_def)
qed

text \<open>A bus with the fresh device, and a host with one Intel HEX file.\<close>

definition demo_texts :: "string \<Rightarrow> unit + string" where
  "demo_texts path = (if path = ''app.hex'' then Ok (print_records [(0, [1, 2, 3])]) else Err ())"

definition demo_files :: "string \<Rightarrow> unit + bytes" where
  "demo_files path = Err ()"

definition no_tools :: "(i2c_bus, unit) install_os" where
  "no_tools = \<lparr>io_toml = (\<lambda>_. Err ()), io_read_to_string = (\<lambda>_. Err ()), io_metadata = (\<lambda>_. None),
     io_valid_utf8 = (\<lambda>_. True), io_path_var = [], io_spawn = (\<lambda>_ _ w. (Err (), w)),
     io_debug_str = id, io_eprintln = (\<lambda>_ w. w), io_println = (\<lambda>_ w. w)\<rparr>"

definition fresh_bus :: i2c_bus where
  "fresh_bus = \<lparr>bus_dev = sim_acquire fresh_sim, bus_out = []\<rparr>"

lemma fresh_bus_up: "sim_up (bus_dev fresh_bus)"
  by (simp add: fresh_bus_def sim_acquire_def sim_reset_def sim_up_def healthy_def upd_init_def fresh_sim_def)

lemma load_demo: "load_image (sim_env demo_texts demo_files no_tools) ''app.hex'' = Ok [1, 2, 3]"
proof -
  have "path_extension ''app.hex'' = Some ''hex''"
    by (simp add: path_extension_def path_file_name_def)
  moreover have "ihex_parse (print_records [(0, [1, 2, 3])]) =
      Ok (map (byte_at [(0, [1, 2, 3])]) [0..<extent [(0, [1, 2, 3])]], [])"
    by (rule ihex_parse_print) simp
  then have "ihex_parse (print_records [(0, [1, 2, 3])]) = Ok ([1, 2, 3], [])"
    by (simp add: byte_at_def extent_def upt_rec numeral_eq_Suc)
  ultimately show ?thesis
    by (simp add: load_image_def sim_env_def demo_texts_def eq_ignore_ascii_case_def)
qed

theorem cli_flash_then_boot_witness:
  "\<exists>prog w1 w2.
       cli_main (sim_env demo_texts demo_files no_tools) (cli_default (CmdFlash ''app.hex'')) fresh_bus =
         (Ok (OutFlash 3 (crc32 [1, 2, 3]) (describe (SpecI2c ''/dev/i2c-1'' 0x20)) prog), w1)
     \<and> hw_flash (sim_hw (bus_dev w1)) = [1, 2, 3] @ replicate 4077 0xFF @ footer blinky
     \<and> cli_main (sim_env demo_texts demo_files no_tools) (cli_default CmdBoot) w1 = (Ok OutBoot, w2)
     \<and> hw_jumped (sim_hw (bus_dev w2)) \<and> hw_flash (sim_hw (bus_dev w2)) = hw_flash (sim_hw (bus_dev w1))"
  using cli_flash_then_boot [OF _ _ load_demo blinky_from_bin fresh_bus_up, of "cli_default (CmdFlash ''app.hex'')"]
  by (simp add: cli_default_def blinky_def)

text \<open>
  The boot command tells the truth about the boot gate. Against a device on the bus
  \<open>updater-cli boot\<close> succeeds exactly if the region passes the gate, and then the device
  has jumped to the application; otherwise it reports \<open>BOOT refused\<close> with \<open>ST_NO_APP\<close>,
  the bootloader keeps running, and in both cases the flash is untouched.
\<close>

lemma cli_boot_gate:
  assumes "cli_cmd c = CmdBoot" and "cli_transport c = KindI2c" and "sim_up (bus_dev w)"
    and "v = region_valid (hw_flash (sim_hw (bus_dev w)))"
  shows "\<exists>w'. cli_main (sim_env texts files ios) c w = (if v then Ok OutBoot else Err (BootRefused (Core (Device ST_NO_APP))), w')
     \<and> hw_jumped (sim_hw (bus_dev w')) = v \<and> hw_flash (sim_hw (bus_dev w')) = hw_flash (sim_hw (bus_dev w))"
  using cli_boot_bus [OF assms(2,3,1), of v texts files ios] assms(4) by (auto simp: sim_dev_def)

end
