(* ===== verification/Cli_Serial.thy ===== *)
theory Cli_Serial
  imports Cli_End_To_End
begin

text \<open>
  The command line over a serial port: the UART adapter under \<open>DynTransport\<close>, the serial
  backend below it and the device with its byte-stream link at the other end.
\<close>

section \<open>The device on a serial port of the host\<close>

text \<open>
  The line: what is written is collected until the flush, which runs the stream cycle of the
  device; what the device sends waits to be read.
\<close>

record serial_line =
  ln_dev :: sim
  ln_tx :: bytes
  ln_rx :: bytes

definition line_os :: "(serial_line, unit, unit, unit) host_os" where
  "line_os = quiet_os\<lparr>
     os_write := (\<lambda>_ bs w. (Ok (length bs), w\<lparr>ln_tx := ln_tx w @ bs\<rparr>)),
     os_read := (\<lambda>_ n w. (Ok (min n (length (ln_rx w))), take n (ln_rx w), w\<lparr>ln_rx := drop n (ln_rx w)\<rparr>))\<rparr>"

definition line_flush :: "serial_line \<Rightarrow> serial_line" where
  "line_flush w = (let (out, s) = sim_rust_request_stream (ln_tx w) (ln_dev w) in \<lparr>ln_dev = s, ln_tx = [], ln_rx = ln_rx w @ out\<rparr>)"

definition line_port :: "unit \<Rightarrow> (serial_line, unit) uart_hal" where
  "line_port f = \<lparr>
     uart_write_all = (\<lambda>bs w. case serial_write line_os f bs w of Some (Ok _, w) \<Rightarrow> (Ok (), w) | _ \<Rightarrow> (Err (), w)),
     uart_flush = (\<lambda>w. (Ok (), line_flush w)),
     uart_read = (\<lambda>n w. case serial_read line_os f n w of Some r \<Rightarrow> r | None \<Rightarrow> (Err (), [], w)),
     uart_delay_ns = (\<lambda>_ w. w)\<rparr>"

definition line_wires :: "(serial_line, unit, unit, unit) wires" where
  "line_wires = \<lparr>wr_os = line_os, wr_uart = line_port, wr_delay_ns = (\<lambda>_ w. w)\<rparr>"

lemma line_port_simps:
  "uart_write_all (line_port f) bs w = (Ok (), w\<lparr>ln_tx := ln_tx w @ bs\<rparr>)"
  "uart_flush (line_port f) w = (Ok (), line_flush w)"
  "uart_read (line_port f) n w = (Ok (min n (length (ln_rx w))), take n (ln_rx w), w\<lparr>ln_rx := drop n (ln_rx w)\<rparr>)"
  by (simp_all add: line_port_def line_os_def serial_write.simps serial_read.simps)

definition on_line :: "(serial_line, unit) backend \<Rightarrow> bool" where
  "on_line t \<longleftrightarrow> (case t of BUart f u \<Rightarrow>
     sim_up (ln_dev (uart_hw u)) \<and> link_idle (sim_link (ln_dev (uart_hw u))) \<and> ln_tx (uart_hw u) = [] \<and> ln_rx (uart_hw u) = []
     \<and> 0 < unat (uart_scan_limit u) | _ \<Rightarrow> False)"

definition line_device :: "(serial_line, unit) backend \<Rightarrow> device" where
  "line_device t = sim_dev (ln_dev (backend_hw t))"

text \<open>A response that is delivered by the first read.\<close>

lemma uart_first_read:
  fixes hal :: "('w, 'e) uart_hal"
  assumes "uart_read hal 32 w = (Ok (length pl + 4), SYNC # wire c pl, w1)" and "length pl \<le> 28" and "length pl + 3 \<le> length rsp"
    and "0 < unat limit"
  shows "uart_loop hal poll interval limit scanner_new 0 0 0 (replicate 31 0) rsp w =
     (Ok (length pl + 3), wire c pl @ drop (length pl + 3) rsp, w1)"
proof -
  let ?chunk = "overwrite (0 # replicate 31 0) (SYNC # wire c pl)" and ?rs = "replicate (length pl + 3) Frame"
  have w: "wire c pl = butlast (wire c pl) @ [last (wire c pl)]"
    by (metis append_butlast_last_id length_wire list.size(3) add_is_0 zero_neq_numeral)
  have "take (length pl + 4) ?chunk = SYNC # wire c pl"
    using assms(2) take_append [of "length pl + 4" "SYNC # wire c pl" "drop (4 + length pl) (0 # replicate 31 0)"]
    by (simp add: overwrite_eq del: overwrite.simps take_append)
  also have "\<dots> = (SYNC # butlast (wire c pl)) @ last (wire c pl) # []"
    by (subst w) simp
  finally have front: "take (length pl + 4) ?chunk = (SYNC # butlast (wire c pl)) @ last (wire c pl) # []" .
  have "feed scanner_new ((SYNC # butlast (wire c pl)) @ [last (wire c pl)]) rsp =
      (?rs @ [Done (length pl + 3)], scanner_new, wire c pl @ drop (length pl + 3) rsp)"
    using feed_found [of "[]" pl rsp c] assms(2,3) w by simp
  from uart_bytes_done [where ?'e = 'e and rest = "[]", OF this, of 0 limit] obtain sc' junk' where
    "uart_bytes limit (take (length pl + 4) ?chunk) scanner_new 0 rsp =
      (Some (Ok (length pl + 3) :: 'e uart_error + usize), sc', junk', wire c pl @ drop (length pl + 3) rsp)"
    unfolding front using assms(4) by (auto simp: is_done_def)
  then show ?thesis
    using assms(1) by (simp add: uart_loop_eq [of hal poll interval limit scanner_new 0 0] Let_def del: overwrite.simps)
qed

text \<open>A request over the line: what the stream cycle answers is found.\<close>

lemma line_request_answered:
  assumes "ln_tx (uart_hw u) = []" and "ln_rx (uart_hw u) = []" and "0 < unat (uart_scan_limit u)"
    and "sim_rust_request_stream (SYNC # req) (ln_dev (uart_hw u)) = (SYNC # wire c out, s)"
    and "length out \<le> 17" and "length out + 3 \<le> length rsp"
  shows "backend_request line_wires (BUart f u) req rsp =
     (Ok (length out + 3), BUart f (u\<lparr>uart_hw := \<lparr>ln_dev = s, ln_tx = [], ln_rx = []\<rparr>\<rparr>), wire c out @ drop (length out + 3) rsp)"
proof -
  let ?w = "\<lparr>ln_dev = s, ln_tx = [], ln_rx = SYNC # wire c out\<rparr>"
  have sent: "line_flush (uart_hw u\<lparr>ln_tx := SYNC # req\<rparr>) = ?w"
    using assms(2) by (simp add: line_flush_def assms(4))
  have "uart_read (line_port f) 32 ?w = (Ok (length out + 4), SYNC # wire c out, ?w\<lparr>ln_rx := []\<rparr>)"
    using assms(5) by (simp add: line_port_simps)
  from uart_first_read [OF this _ assms(6,3), of "uart_poll_attempts u" "uart_poll_interval_ns u"] assms(5) sent show ?thesis
    using assms(1) by (simp add: line_wires_def uart_request_def erase_err_def line_port_simps)
qed

lemma line_answers:
  assumes "on_line t" and "length pl \<le> 252" and "dev_step sim_port_info (line_device t) c pl = (out, d')"
    and "length out + 3 \<le> length rsp"
  shows "\<exists>n t' rsp'. backend_request line_wires t (wire c pl) rsp = (Ok n, t', rsp') \<and> n \<le> length rsp'
     \<and> decode_padded (take n rsp') = Ok \<lparr>cmd = c OR RSP_FLAG, payload = out\<rparr> \<and> line_device t' = d'
     \<and> (if c = CMD_BOOT \<and> region_valid (dev_flash (line_device t))
        then hw_jumped (sim_hw (ln_dev (backend_hw t'))) else on_line t')"
proof -
  obtain f u where t: "t = BUart f u" "sim_up (ln_dev (uart_hw u))" "link_idle (sim_link (ln_dev (uart_hw u)))"
    "ln_tx (uart_hw u) = []" "ln_rx (uart_hw u) = []" "0 < unat (uart_scan_limit u)"
    using assms(1) by (cases t) (auto simp: on_line_def)
  have step: "dev_step sim_port_info (sim_dev (ln_dev (uart_hw u))) c pl = (out, d')"
    using assms(3) t(1) by (simp add: line_device_def)
  obtain s' where s': "sim_rust_request_stream (SYNC # wire c pl) (ln_dev (uart_hw u)) = (SYNC # wire (c OR RSP_FLAG) out, s')"
    "sim_dev s' = d'" "link_idle (sim_link s')" "length out \<le> 17"
    "if c = CMD_BOOT \<and> region_valid (dev_flash (line_device t)) then hw_jumped (sim_hw s') \<and> \<not> hw_aborted (sim_hw s') else sim_up s'"
    using sim_stream_cycle_boot [OF t(2,3) assms(2) step] by (auto simp: t(1) line_device_def sim_dev_def)
  from line_request_answered [OF t(4-6) s'(1,4) assms(4), of f]
  have "backend_request line_wires t (wire c pl) rsp = (Ok (length out + 3),
      BUart f (u\<lparr>uart_hw := \<lparr>ln_dev = s', ln_tx = [], ln_rx = []\<rparr>\<rparr>), wire (c OR RSP_FLAG) out @ drop (length out + 3) rsp)"
    by (simp add: t(1))
  with s' t(6) assms(4) show ?thesis
    by (auto simp: on_line_def line_device_def)
qed

lemma line_serves:
  assumes "on_line t" and "length pl \<le> 252" and "dev_step sim_port_info (line_device t) c pl = (out, d')"
    and "length out + 3 \<le> length rsp" and "c \<noteq> CMD_BOOT"
  shows "\<exists>n t' rsp'. backend_request line_wires t (wire c pl) rsp = (Ok n, t', rsp') \<and> n \<le> length rsp'
     \<and> decode_padded (take n rsp') = Ok \<lparr>cmd = c OR RSP_FLAG, payload = out\<rparr> \<and> on_line t' \<and> line_device t' = d'"
  using line_answers [OF assms(1-4)] assms(5) by auto

interpretation line: wire_device line_wires line_device on_line sim_port_info "\<lambda>_. True"
proof (intro wire_device.intro poll_device.intro device_transport.intro device_transport_axioms.intro poll_device_axioms.intro)
  show "transport (backend_request line_wires)" ..
  show "poll_transport (backend_request line_wires) backend_set_poll" ..
  show "length (pi_device_id sim_port_info) = 4"
    by (simp add: sim_port_info_def)
next
  fix t b
  assume "on_line t"
  then show "on_line (backend_set_poll b t) \<and> line_device (backend_set_poll b t) = line_device t"
    by (cases t) (simp_all add: on_line_def line_device_def uart_set_poll_budget_def uart_set_poll_def)
qed (use line_serves in blast, rule TrueI)

interpretation line_boot: boot_wire line_wires line_device on_line sim_port_info "\<lambda>_. True" "\<lambda>t. hw_jumped (sim_hw (ln_dev (backend_hw t)))"
proof unfold_locales
  fix t :: "(serial_line, unit) backend" and v and rsp :: bytes
  assume up: "on_line t" and v: "v = region_valid (dev_flash (line_device t))" and rsp: "4 \<le> length rsp"
  have "\<not> hw_jumped (sim_hw (ln_dev (backend_hw t')))" if "on_line t'" for t'
    using that by (auto simp: on_line_def sim_up_def healthy_def split: backend.splits)
  then show "\<exists>n t' rsp'. backend_request line_wires t (wire CMD_BOOT []) rsp = (Ok n, t', rsp') \<and> n \<le> length rsp'
      \<and> decode_padded (take n rsp') = Ok \<lparr>cmd = CMD_BOOT OR RSP_FLAG, payload = [if v then ST_OK else ST_NO_APP]\<rparr>
      \<and> line_device t' = line_device t \<and> hw_jumped (sim_hw (ln_dev (backend_hw t'))) = v \<and> (v \<or> on_line t')"
    using line_answers [OF up _ dev_step_boot, of "[]" rsp] rsp unfolding v
    by (cases "region_valid (dev_flash (line_device t))") auto
qed

section \<open>Opening the port\<close>

definition line_env :: "(string \<Rightarrow> unit + string) \<Rightarrow> (string \<Rightarrow> unit + bytes) \<Rightarrow> (serial_line, unit) install_os \<Rightarrow>
    (serial_line, unit, unit, unit) cli_env" where
  "line_env texts files ios = \<lparr>ce_wires = line_wires, ce_read_to_string = texts, ce_read = files, ce_install = ios,
     ce_from_cli = (\<lambda>_. False), ce_sub = None\<rparr>"

definition line_up :: "serial_line \<Rightarrow> bool" where
  "line_up w \<longleftrightarrow> sim_up (ln_dev w) \<and> link_idle (sim_link (ln_dev w)) \<and> ln_tx w = [] \<and> ln_rx w = []"

lemma line_open:
  "baud \<in> set SUPPORTED_BAUDS \<Longrightarrow> serial_open (wr_os line_wires) dev baud w = (Ok (), w)"
  by (auto simp: serial_open_def line_wires_def line_os_def quiet_os_def ok_or_def SUPPORTED_BAUDS_def baud_constant_def)

abbreviation uart_spec :: "cli \<Rightarrow> transport_spec" where
  "uart_spec c \<equiv> SpecUart (case cli_dev c of None \<Rightarrow> ''/dev/ttyUSB0'' | Some d \<Rightarrow> d) (cli_baud c)"

lemma env_wires: "ce_wires (line_env texts files ios) = line_wires"
  by (simp add: line_env_def)

interpretation line_cli: cli_wire line_wires line_device on_line "\<lambda>_. True" "\<lambda>t. hw_jumped (sim_hw (ln_dev (backend_hw t)))"
  "\<lambda>c. cli_transport c = KindUart \<and> cli_baud c \<in> set SUPPORTED_BAUDS" uart_spec
  line_up "\<lambda>w. sim_dev (ln_dev w)" "\<lambda>w. hw_jumped (sim_hw (ln_dev w))"
proof (unfold_locales, goal_cases)
  case (4 c w b)
  then show ?case
    using line_open [of "cli_baud c"]
    by (auto simp: open_backend_def uart_set_poll_budget_def uart_set_poll_def on_line_def line_device_def line_up_def uart_new_def DEFAULT_SCAN_LIMIT_def)
qed (auto simp: build_spec_def on_line_def line_device_def line_up_def sim_up_def healthy_def sim_dev_def split: backend.splits)

section \<open>Properties\<close>

text \<open>
  C6: the command line works over a serial port. With the device and its byte-stream link
  at the other end of the line, any supported baud rate and any image file that fits,
  \<open>updater-cli flash\<close> succeeds and reports length and CRC of the image, and the region holds
  the bytes of the file, \<open>0xFF\<close> padding and the footer; a following \<open>info\<close> reports the
  device with a valid application, \<open>echo\<close> of one to sixteen bytes comes back, and each leaves
  the line as it was found: the link between two frames and nothing unread. A final \<open>boot\<close>
  succeeds and starts the application; the last three leave the flash alone.
\<close>

theorem cli_flash_serial:
  assumes "cli_transport c = KindUart" and "cli_baud c \<in> set SUPPORTED_BAUDS" and "line_up w"
    and "load_image (line_env texts files ios) path = Ok bs" and "from_bin bs 128 32 = Ok img"
    and "parse_hex_bytes data = Ok payload'" and "payload' \<noteq> []" and "length payload' \<le> 16"
  shows "\<exists>prog w1 w2 w3 w4.
       cli_main (line_env texts files ios) (c\<lparr>cli_cmd := CmdFlash path\<rparr>) w =
         (Ok (OutFlash (img_len img) (img_crc img) (describe (uart_spec c)) prog), w1)
     \<and> hw_flash (sim_hw (ln_dev w1)) = bs @ replicate (4080 - length bs) 0xFF @ footer img
     \<and> cli_main (line_env texts files ios) (c\<lparr>cli_cmd := CmdInfo\<rparr>) w1 =
         (Ok (OutInfo \<lparr>di_proto = PROTO_VERSION, di_bl_version = pi_bl_version sim_port_info, di_device_id = pi_device_id sim_port_info,
            di_page_size = 128, di_app_pages = 32, di_app_valid = True\<rparr> 4096 4080), w2)
     \<and> cli_main (line_env texts files ios) (c\<lparr>cli_cmd := CmdEcho data\<rparr>) w2 = (Ok (OutEcho (length payload')), w3)
     \<and> line_up w1 \<and> line_up w2 \<and> line_up w3
     \<and> cli_main (line_env texts files ios) (c\<lparr>cli_cmd := CmdBoot\<rparr>) w3 = (Ok OutBoot, w4)
     \<and> hw_jumped (sim_hw (ln_dev w4)) \<and> hw_flash (sim_hw (ln_dev w4)) = hw_flash (sim_hw (ln_dev w1))"
  using line_cli.main_round [OF conjI [OF assms(1,2)] assms(3) env_wires assms(4-8)] by (simp add: sim_dev_def)

definition fresh_line :: serial_line where
  "fresh_line = \<lparr>ln_dev = sim_acquire fresh_sim, ln_tx = [], ln_rx = []\<rparr>"

definition line_no_tools :: "(serial_line, unit) install_os" where
  "line_no_tools = \<lparr>io_toml = (\<lambda>_. Err ()), io_read_to_string = (\<lambda>_. Err ()), io_metadata = (\<lambda>_. None),
     io_valid_utf8 = (\<lambda>_. True), io_path_var = [], io_spawn = (\<lambda>_ _ w. (Err (), w)),
     io_debug_str = id, io_eprintln = (\<lambda>_ w. w), io_println = (\<lambda>_ w. w)\<rparr>"

lemma load_image_line: "load_image (line_env texts files ios) path = load_image (sim_env texts files ios') path"
  by (simp add: load_image_def sim_env_def line_env_def)

lemma fresh_line_up: "line_up fresh_line"
  using fresh_bus_up link_init_inv [of "replicate 255 0"] by (simp add: fresh_line_def line_up_def fresh_bus_def link_idle_def sim_acquire_def sim_reset_def fresh_sim_def
      link_init_def)

lemma dec_115200: "dec 115200 = ''115200''"
  by (simp add: dec.simps char_of_def bit_0)

theorem cli_flash_serial_witness:
  "\<exists>prog w1 w2 w3 w4.
       cli_main (line_env demo_texts demo_files line_no_tools) ((cli_default (CmdFlash ''app.hex''))\<lparr>cli_transport := KindUart\<rparr>) fresh_line =
         (Ok (OutFlash 3 (crc32 [1, 2, 3]) ''/dev/ttyUSB0 @ 115200 baud'' prog), w1)
     \<and> hw_flash (sim_hw (ln_dev w1)) = [1, 2, 3] @ replicate 4077 0xFF @ footer blinky
     \<and> cli_main (line_env demo_texts demo_files line_no_tools) ((cli_default (CmdEcho ''0a''))\<lparr>cli_transport := KindUart\<rparr>) w2 = (Ok (OutEcho 1), w3)
     \<and> cli_main (line_env demo_texts demo_files line_no_tools) ((cli_default CmdBoot)\<lparr>cli_transport := KindUart\<rparr>) w3 = (Ok OutBoot, w4)
     \<and> hw_jumped (sim_hw (ln_dev w4))"
proof -
  let ?c = "(cli_default CmdBoot)\<lparr>cli_transport := KindUart\<rparr>"
  have load: "load_image (line_env demo_texts demo_files line_no_tools) ''app.hex'' = Ok [1, 2, 3]"
    by (rule load_image_line [THEN trans, OF load_demo])
  have hex: "parse_hex_bytes ''0a'' = Ok [10]"
    by (simp add: parse_hex_bytes_def plain_def utf8_pair_def from_str_radix_def to_digit_def Let_def)
  from cli_flash_serial [OF _ _ fresh_line_up load blinky_from_bin hex, of ?c]
  show ?thesis
    by (auto simp: cli_default_def blinky_def SUPPORTED_BAUDS_def describe_def dec_115200) blast
qed

end
