(* ===== verification/Cli_Power_Cut.thy ===== *)
theory Cli_Power_Cut
  imports Cli_Serial Power_Cut
begin

text \<open>
  The command line while the device loses power: the contract of \<open>cut_transport\<close> passes
  through the poll policy of \<open>DynTransport\<close>, and the Linux I2C and the serial backend keep it.
  So \<open>updater-cli flash\<close> fails cleanly on both wires, and can be repeated.
\<close>

section \<open>A device that loses power behind a transport with a budget\<close>

locale poll_cut = cut_transport request core calm + poll_transport request set_poll
  for request :: "('t, 'e) request_fn" and core calm and set_poll :: "poll_budget \<Rightarrow> 't \<Rightarrow> 't" +
  fixes fits :: "poll_budget \<Rightarrow> bool"
  assumes set_poll_calm: "calm t \<Longrightarrow> fits b \<Longrightarrow> calm (set_poll b t) \<and> core (set_poll b t) = core t"
    and fits_raised: "fits b \<Longrightarrow> pb_attempts b \<le> n \<Longrightarrow> fits (b\<lparr>pb_attempts := n\<rparr>)"
begin

text \<open>A request of \<open>DynTransport\<close> is a request of the wire, before and after which the budget may change.\<close>

lemma dyn_request_inner:
  assumes "dyn_up calm fits d"
  shows "\<exists>t. calm t \<and> core t = core (dt_inner d) \<and> (\<forall>r t' rsp'. request t req rsp = (r, t', rsp') \<longrightarrow>
     (\<exists>d'. dyn_request request set_poll d req rsp = (r, d', rsp') \<and> (calm t' \<longrightarrow> dyn_up calm fits d' \<and> core (dt_inner d') = core t')))"
proof -
  let ?b = "\<lparr>pb_attempts = dt_erase_attempts d, pb_delay_ms = pb_delay_ms (dt_base d)\<rparr>"
  let ?erase = "get_at req 0 = Some CMD_ERASE_APP \<and> dt_erase_attempts d > pb_attempts (dt_base d)"
  let ?t = "if ?erase then set_poll ?b (dt_inner d) else dt_inner d"
  have "fits ?b" if ?erase
    using fits_raised [of "dt_base d" "dt_erase_attempts d"] that assms by (cases "dt_base d") auto
  then have t: "calm ?t" "core ?t = core (dt_inner d)"
    using assms set_poll_calm by simp_all
  have "\<exists>d'. dyn_request request set_poll d req rsp = (r, d', rsp') \<and> (calm t' \<longrightarrow> dyn_up calm fits d' \<and> core (dt_inner d') = core t')"
    if r: "request ?t req rsp = (r, t', rsp')" for r t' rsp'
  proof (intro exI conjI impI)
    let ?d = "d\<lparr>dt_inner := if ?erase then set_poll (dt_base d) t' else t'\<rparr>"
    show "dyn_request request set_poll d req rsp = (r, ?d, rsp')"
      using r by (simp add: dyn_request_def Let_def)
    assume "calm t'"
    then show "calm (dt_inner ?d)" "fits (dt_base ?d)" "core (dt_inner ?d) = core t'"
      using set_poll_calm assms by simp_all
  qed
  with t show ?thesis
    by blast
qed

end

sublocale poll_cut \<subseteq> dyn: cut_transport "dyn_request request set_poll" "\<lambda>d. core (dt_inner d)" "dyn_up calm fits"
proof (intro cut_transport.intro cut_transport_axioms.intro)
  show "transport (dyn_request request set_poll)"
    by (rule dyn_transport)
next
  fix d :: "'t dyn_transport" and c and pl rsp :: bytes
  assume a: "dyn_up calm fits d" "\<not> hw_dead (snd (core (dt_inner d)))" "\<not> hw_jumped (snd (core (dt_inner d)))" "length pl \<le> 252"
  from dyn_request_inner [OF a(1), of "wire c pl" rsp] obtain t where t: "calm t" "core t = core (dt_inner d)"
    and dyn: "\<And>r t' rsp'. request t (wire c pl) rsp = (r, t', rsp') \<Longrightarrow>
      \<exists>d'. dyn_request request set_poll d (wire c pl) rsp = (r, d', rsp') \<and> (calm t' \<longrightarrow> dyn_up calm fits d' \<and> core (dt_inner d') = core t')"
    by blast
  from powered [OF t(1) _ _ a(4), of c rsp] a(2,3) obtain junk where
    p: "\<And>out y. handled (core (dt_inner d)) c pl junk out y \<Longrightarrow> length out + 3 \<le> length rsp \<Longrightarrow>
        \<exists>r t' rsp'. request t (wire c pl) rsp = (r, t', rsp') \<and> core t' = y \<and> calm t'
          \<and> (if hw_dead (snd y) then rejected r rsp'
             else \<exists>n. r = Ok n \<and> n \<le> length rsp' \<and> decode_padded (take n rsp') = Ok \<lparr>cmd = c OR RSP_FLAG, payload = out\<rparr>)"
    unfolding t(2) by blast
  show "\<exists>junk. \<forall>out y. handled (core (dt_inner d)) c pl junk out y \<longrightarrow> length out + 3 \<le> length rsp \<longrightarrow>
      (\<exists>r d' rsp'. dyn_request request set_poll d (wire c pl) rsp = (r, d', rsp') \<and> core (dt_inner d') = y \<and> dyn_up calm fits d'
        \<and> (if hw_dead (snd y) then rejected r rsp'
           else \<exists>n. r = Ok n \<and> n \<le> length rsp' \<and> decode_padded (take n rsp') = Ok \<lparr>cmd = c OR RSP_FLAG, payload = out\<rparr>))"
    using p dyn by (intro exI [of _ junk] allI impI) metis
next
  fix d d' :: "'t dyn_transport" and c pl rsp rsp' r
  assume a: "dyn_up calm fits d" "hw_dead (snd (core (dt_inner d)))" "length pl \<le> 252"
    and req: "dyn_request request set_poll d (wire c pl) rsp = (r, d', rsp')"
  from dyn_request_inner [OF a(1), of "wire c pl" rsp] obtain t where t: "calm t" "core t = core (dt_inner d)"
    and dyn: "\<And>r t' rsp'. request t (wire c pl) rsp = (r, t', rsp') \<Longrightarrow>
      \<exists>d'. dyn_request request set_poll d (wire c pl) rsp = (r, d', rsp') \<and> (calm t' \<longrightarrow> dyn_up calm fits d' \<and> core (dt_inner d') = core t')"
    by blast
  obtain r0 t' rsp0 where r0: "request t (wire c pl) rsp = (r0, t', rsp0)"
    using prod_cases3 by blast
  from unpowered [OF t(1) _ a(3) r0] dyn [OF r0] req a(2) t(2)
  show "rejected r rsp' \<and> core (dt_inner d') = core (dt_inner d) \<and> dyn_up calm fits d'"
    by auto
qed

locale wire_cut = poll_cut "backend_request wr" core calm backend_set_poll fits
  for wr :: "('w, 'e, 'f, 'tio) wires" and core :: "('w, 'f) backend \<Rightarrow> upd_session \<times> sim_hw" and calm fits
begin

text \<open>The flash command: it reports a failed update exactly if the power went in time.\<close>

lemma cmd_flash_cut:
  assumes env: "ce_wires env = wr" and img: "from_bin bs 128 32 = Ok img" and calm: "dyn_up calm fits (s_transport s)"
    and edge: "on_edge k (core (dt_inner (s_transport s)))" and buf: "length (s_buf s) = 512"
  shows "\<exists>r s'. cmd_flash env spec poll bs s = (r, s') \<and> dyn_up calm fits (s_transport s')
     \<and> cut_outcome img k (hw_flash (snd (core (dt_inner (s_transport s))))) (is_ok r) (snd (core (dt_inner (s_transport s'))))
     \<and> length (hw_flash (snd (core (dt_inner (s_transport s'))))) = 4096
     \<and> (\<not> is_ok r \<longrightarrow> (\<exists>e prog. r = Err (FlashFailed e prog)))"
proof -
  have dyn: "dyn_of env = dyn_request (backend_request wr) backend_set_poll"
    by (simp add: dyn_of_def env)
  have v: "valid_image img" "img_ps img = 128" "img_ap img = 32"
    using from_bin_valid [OF img] by (simp_all add: img_ps_def img_ap_def)
  obtain di s1 where s1: "info (dyn_of env) s = (Ok di, s1)" "di_page_size di = 128" "di_app_pages di = 32"
    "dyn_up calm fits (s_transport s1)" "on_edge k (core (dt_inner (s_transport s1)))"
    "core_dev (core (dt_inner (s_transport s1))) = core_dev (core (dt_inner (s_transport s)))" "length (s_buf s1) = 512"
    using dyn.info_powered [of s k] calm edge buf by (auto simp: dyn sim_geometry)
  let ?s = "session_new (set_erase_attempts (into_transport s1) (erase_poll_attempts 32 poll)) (s_buf s1)"
  have s: "dt_inner (s_transport ?s) = dt_inner (s_transport s1)" "dt_base (s_transport ?s) = dt_base (s_transport s1)" "s_buf ?s = s_buf s1"
    by (simp_all add: session_new_def set_erase_attempts_def into_transport_def)
  have old: "hw_flash (snd (core (dt_inner (s_transport s1)))) = hw_flash (snd (core (dt_inner (s_transport s))))"
    using s1(6) by (simp add: core_dev_def)
  from dyn.flash_outcome [OF v, of ?s k, unfolded s old] s1(4,5,7) obtain r s' prog where f: "flash (dyn_of env) ?s img = (r, s', prog)"
    "dyn_up calm fits (s_transport s')" "length (hw_flash (snd (core (dt_inner (s_transport s'))))) = 4096"
    "cut_outcome img k (hw_flash (snd (core (dt_inner (s_transport s))))) (is_ok r) (snd (core (dt_inner (s_transport s'))))"
    by (auto simp: dyn)
  have "cmd_flash env spec poll bs s =
      (case r of Err e \<Rightarrow> Err (FlashFailed e prog) | Ok _ \<Rightarrow> Ok (OutFlash (img_len img) (img_crc img) (describe spec) prog), s')"
    using s1(1) img f(1) by (simp add: cmd_flash_def s1(2,3) Let_def)
  with f(2-4) show ?thesis
    by (cases r) auto
qed

end

text \<open>
  A wire of the command line on which the power may go: the states of the host in which the
  device is still to lose it (\<open>held\<close>), the core as it is in them, and the power coming back.
\<close>

locale cut_cli = cli_wire wr dev up fits jumped chosen spec ready there started + wire_cut wr core calm fits
  for wr :: "('w, 'e, 'f, 'tio) wires" and dev up fits jumped chosen spec and ready :: "'w \<Rightarrow> bool" and there started core calm +
  fixes held :: "'w \<Rightarrow> bool" and inside :: "'w \<Rightarrow> upd_session \<times> sim_hw" and repower :: "'w \<Rightarrow> 'w"
  assumes opens_calm: "chosen c \<Longrightarrow> held w \<Longrightarrow> \<exists>t w'. open_backend wr (spec c) w = (Ok t, w') \<and> calm t \<and> core t = inside w"
    and core_inside: "core t = inside (backend_hw t)"
    and repowered: "calm t \<Longrightarrow> \<not> hw_aborted (snd (core t)) \<Longrightarrow> length (hw_flash (snd (core t))) = 4096 \<Longrightarrow>
      ready (repower (backend_hw t)) \<and> there (repower (backend_hw t)) = \<lparr>dev_flash = hw_flash (snd (core t)), dev_erased = False\<rparr>"
begin

lemma opened_calm:
  assumes "chosen c" and "held w"
  shows "\<exists>d w'. transport_open wr (spec c) (poll_of c) w = (Ok d, w') \<and> dyn_up calm fits d \<and> core (dt_inner d) = inside w"
  using opens_calm [OF assms] chosen_fits [OF assms(1)] set_poll_calm by (fastforce simp: transport_open_def)

lemma main_cut:
  assumes "chosen c" and "held w" and env: "ce_wires env = wr" and "cli_cmd c = CmdFlash path"
    and "load_image env path = Ok bs" and img: "from_bin bs 128 32 = Ok img" and edge: "on_edge k (inside w)"
  shows "\<exists>r w1. cli_main env c w = (r, w1) \<and> (is_ok r \<or> (\<exists>e prog. r = Err (FlashFailed e prog)))
     \<and> cut_outcome img k (hw_flash (snd (inside w))) (is_ok r) (snd (inside w1))
     \<and> ready (repower w1) \<and> there (repower w1) = \<lparr>dev_flash = hw_flash (snd (inside w1)), dev_erased = False\<rparr>"
proof -
  obtain d w0 where d: "transport_open wr (spec c) (poll_of c) w = (Ok d, w0)" "dyn_up calm fits d" "core (dt_inner d) = inside w"
    using opened_calm [OF assms(1,2)] by blast
  let ?s = "session_new d (replicate 512 0)"
  have s: "dyn_up calm fits (s_transport ?s)" "on_edge k (core (dt_inner (s_transport ?s)))" "length (s_buf ?s) = 512"
    "core (dt_inner (s_transport ?s)) = inside w"
    using d(2,3) edge by (simp_all add: session_new_def)
  from cmd_flash_cut [OF env img s(1-3), of "spec c" "poll_of c", unfolded s(4)] obtain r s' where
    r: "cmd_flash env (spec c) (poll_of c) bs ?s = (r, s')" "dyn_up calm fits (s_transport s')"
    "cut_outcome img k (hw_flash (snd (inside w))) (is_ok r) (snd (core (dt_inner (s_transport s'))))"
    "length (hw_flash (snd (core (dt_inner (s_transport s'))))) = 4096" "\<not> is_ok r \<longrightarrow> (\<exists>e prog. r = Err (FlashFailed e prog))"
    by blast
  have "cli_main env c w = (r, left_by s')"
    using main_open(1) [OF assms(1) env d(1) assms(4,5)] r(1) by simp
  moreover have "\<not> hw_aborted (snd (core (dt_inner (s_transport s'))))"
    using r(3) by (simp add: cut_outcome_def)
  ultimately show ?thesis
    using repowered [of "dt_inner (s_transport s')"] r by (auto simp: core_inside)
qed

text \<open>The power goes while the command runs; when it is back, the device tells the truth and the command can be repeated.\<close>

lemma main_cut_and_again:
  assumes "chosen c" and "held w" and env: "ce_wires env = wr" and cmd: "cli_cmd c = CmdFlash path"
    and "load_image env path = Ok bs" and img: "from_bin bs 128 32 = Ok img" and edge: "on_edge k (inside w)"
  shows "\<exists>r w1 w2 w3 prog w4. cli_main env c w = (r, w1) \<and> (is_ok r \<or> (\<exists>e prog. r = Err (FlashFailed e prog)))
     \<and> cut_outcome img k (hw_flash (snd (inside w))) (is_ok r) (snd (inside w1))
     \<and> (let again = repower w1; f = hw_flash (snd (inside w1)); v = region_valid f in
        cli_main env (c\<lparr>cli_cmd := CmdInfo\<rparr>) again =
          (Ok (OutInfo (reported sim_port_info \<lparr>dev_flash = f, dev_erased = False\<rparr>) 4096 4080), w2)
      \<and> cli_main env (c\<lparr>cli_cmd := CmdBoot\<rparr>) again =
          (if v then Ok OutBoot else Err (BootRefused (Core (Device ST_NO_APP))), w3)
      \<and> started w3 = v
      \<and> cli_main env c again = (Ok (OutFlash (img_len img) (img_crc img) (describe (spec c)) prog), w4)
      \<and> dev_flash (there w4) = bs @ replicate (4080 - length bs) 0xFF @ footer img)"
proof -
  obtain r w1 where w1: "cli_main env c w = (r, w1)" "is_ok r \<or> (\<exists>e prog. r = Err (FlashFailed e prog))"
    "cut_outcome img k (hw_flash (snd (inside w))) (is_ok r) (snd (inside w1))" "ready (repower w1)"
    "there (repower w1) = \<lparr>dev_flash = hw_flash (snd (inside w1)), dev_erased = False\<rparr>"
    using main_cut [OF assms] by blast
  have ch: "chosen (c\<lparr>cli_cmd := x\<rparr>)" for x
    using assms(1) by (simp add: chosen_cmd)
  obtain w2 where w2: "cli_main env (c\<lparr>cli_cmd := CmdInfo\<rparr>) (repower w1) =
      (Ok (OutInfo (reported sim_port_info (there (repower w1))) 4096 4080), w2)"
    using main_info [OF ch w1(4) env, of CmdInfo] by auto
  obtain w3 where w3: "cli_main env (c\<lparr>cli_cmd := CmdBoot\<rparr>) (repower w1) =
      (if region_valid (hw_flash (snd (inside w1))) then Ok OutBoot else Err (BootRefused (Core (Device ST_NO_APP))), w3)"
    "started w3 = region_valid (hw_flash (snd (inside w1)))"
    using main_boot [OF ch w1(4) env _ refl, of CmdBoot] by (auto simp: w1(5))
  obtain prog w4 where w4: "cli_main env c (repower w1) = (Ok (OutFlash (img_len img) (img_crc img) (describe (spec c)) prog), w4)"
    "there w4 = \<lparr>dev_flash = region_image img, dev_erased = True\<rparr>"
    using main_flash [OF assms(1) w1(4) env cmd assms(5) img] by blast
  have "dev_flash (there w4) = bs @ replicate (4080 - length bs) 0xFF @ footer img"
    using w4(2) from_bin_valid [OF img] by (simp add: region_image_def img_ps_def img_ap_def)
  with w1(1-3) w2 w3 w4(1) show ?thesis
    unfolding Let_def w1(5) by blast
qed

end

section \<open>The device on the I2C bus\<close>

abbreviation bus_core :: "(i2c_bus, unit) backend \<Rightarrow> upd_session \<times> sim_hw" where
  "bus_core t \<equiv> core_of (bus_dev (backend_hw t))"

definition is_i2c :: "(i2c_bus, unit) backend \<Rightarrow> bool" where
  "is_i2c t \<longleftrightarrow> (case t of BI2c _ \<Rightarrow> True | _ \<Rightarrow> False)"

interpretation bus_cut: wire_cut sim_wires bus_core is_i2c "\<lambda>_. True"
proof (intro wire_cut.intro poll_cut.intro cut_transport.intro cut_transport_axioms.intro poll_cut_axioms.intro)
  show "transport (backend_request sim_wires)" ..
  show "poll_transport (backend_request sim_wires) backend_set_poll" ..
next
  fix t :: "(i2c_bus, unit) backend" and c and pl rsp :: bytes
  assume t: "is_i2c t" and alive: "\<not> hw_dead (snd (bus_core t))" "\<not> hw_jumped (snd (bus_core t))" and pl: "length pl \<le> 252"
  then obtain li where li: "t = BI2c li"
    by (cases t) (auto simp: is_i2c_def)
  let ?junk = "[foldl crc8_step (crc8_step (crc8_step 0 c) (word_of_nat (length pl))) pl]"
  show "\<exists>junk. \<forall>out y. handled (bus_core t) c pl junk out y \<longrightarrow> length out + 3 \<le> length rsp \<longrightarrow>
      (\<exists>r t' rsp'. backend_request sim_wires t (wire c pl) rsp = (r, t', rsp') \<and> bus_core t' = y \<and> is_i2c t'
        \<and> (if hw_dead (snd y) then rejected r rsp'
           else \<exists>n. r = Ok n \<and> n \<le> length rsp' \<and> decode_padded (take n rsp') = Ok \<lparr>cmd = c OR RSP_FLAG, payload = out\<rparr>))"
  proof (intro exI [of _ ?junk] allI impI)
    fix out y
    assume h: "handled (bus_core t) c pl ?junk out y" and fits: "length out + 3 \<le> length rsp"
    obtain ses w where y: "y = (ses, w)" by fastforce
    have "length out \<le> 17"
      using h by (simp add: handled_iff)
    then show "\<exists>r t' rsp'. backend_request sim_wires t (wire c pl) rsp = (r, t', rsp') \<and> bus_core t' = y \<and> is_i2c t'
        \<and> (if hw_dead (snd y) then rejected r rsp'
           else \<exists>n. r = Ok n \<and> n \<le> length rsp' \<and> decode_padded (take n rsp') = Ok \<lparr>cmd = c OR RSP_FLAG, payload = out\<rparr>)"
      using bus_request [OF sim_request_handled [OF _ _ pl h [unfolded y li backend_hw.simps]], of rsp] alive fits
      by (simp add: li y core_of_def is_i2c_def filler_rejected min_def)
  qed
next
  fix t t' :: "(i2c_bus, unit) backend" and c pl rsp rsp' r
  assume t: "is_i2c t" and dead: "hw_dead (snd (bus_core t))" and pl: "length pl \<le> 252"
    and req: "backend_request sim_wires t (wire c pl) rsp = (r, t', rsp')"
  then obtain li where "t = BI2c li"
    by (cases t) (auto simp: is_i2c_def)
  with bus_request [OF dead_silent, of li "wire c pl" rsp] dead pl req
  show "rejected r rsp' \<and> bus_core t' = bus_core t \<and> is_i2c t'"
    by (auto simp: core_of_def is_i2c_def filler_rejected)
next
  fix t :: "(i2c_bus, unit) backend" and b
  assume "is_i2c t"
  then show "is_i2c (backend_set_poll b t) \<and> bus_core (backend_set_poll b t) = bus_core t"
    by (cases t) (simp_all add: is_i2c_def li_set_poll_budget_def)
qed (rule TrueI)

section \<open>The device on the serial port\<close>

text \<open>A line on which nothing comes: the poll budget ends the wait.\<close>

lemma uart_loop_silent:
  assumes "uart_read hal 32 w = (Ok 0, [], w)" and "uart_delay_ns hal interval w = w" and "length cs = 31"
  shows "\<exists>a. uart_loop hal poll interval limit sc att junk c0 cs rsp w = (Err (UartExhausted a), rsp, w)"
proof (induction "budget_left poll att" arbitrary: att rule: less_induct)
  case less
  show ?case
  proof (cases "poll \<le> att + 1")
    case True
    then show ?thesis
      using assms by (simp add: uart_loop_eq [of hal poll interval limit sc att])
  next
    case False
    with less.hyps [of "att + 1"] show ?thesis
      using assms by (auto simp: uart_loop_eq [of hal poll interval limit sc att])
  qed
qed

abbreviation line_core :: "(serial_line, unit) backend \<Rightarrow> upd_session \<times> sim_hw" where
  "line_core t \<equiv> core_of (ln_dev (backend_hw t))"

definition line_calm :: "(serial_line, unit) backend \<Rightarrow> bool" where
  "line_calm t \<longleftrightarrow> (case t of BUart f u \<Rightarrow> link_idle (sim_link (ln_dev (uart_hw u))) \<and> ln_tx (uart_hw u) = [] \<and> ln_rx (uart_hw u) = []
     \<and> 0 < unat (uart_scan_limit u) | _ \<Rightarrow> False)"

text \<open>So silence ends in an error.\<close>

lemma line_request_silent:
  assumes "ln_tx (uart_hw u) = []" and "ln_rx (uart_hw u) = []"
    and "sim_rust_request_stream (SYNC # req) (ln_dev (uart_hw u)) = ([], s)"
  shows "\<exists>e. backend_request line_wires (BUart f u) req rsp = (Err e, BUart f (u\<lparr>uart_hw := \<lparr>ln_dev = s, ln_tx = [], ln_rx = []\<rparr>\<rparr>), rsp)"
proof -
  let ?w = "\<lparr>ln_dev = s, ln_tx = [], ln_rx = []\<rparr>"
  have sent: "line_flush (uart_hw u\<lparr>ln_tx := SYNC # req\<rparr>) = ?w"
    using assms(2) by (simp add: line_flush_def assms(3))
  have "uart_read (line_port f) 32 ?w = (Ok 0, [], ?w)" "uart_delay_ns (line_port f) (uart_poll_interval_ns u) ?w = ?w"
    by (simp_all add: line_port_simps, simp add: line_port_def)
  from uart_loop_silent [OF this length_replicate] obtain a where
    "uart_loop (line_port f) (uart_poll_attempts u) (uart_poll_interval_ns u) (uart_scan_limit u) scanner_new 0 0 0 (replicate 31 0) rsp ?w =
       (Err (UartExhausted a), rsp, ?w)"
    by blast
  with sent show ?thesis
    using assms(1) by (simp add: line_wires_def uart_request_def erase_err_def line_port_simps)
qed

interpretation line_cut: wire_cut line_wires line_core line_calm "\<lambda>_. True"
proof (intro wire_cut.intro poll_cut.intro cut_transport.intro cut_transport_axioms.intro poll_cut_axioms.intro)
  show "transport (backend_request line_wires)" ..
  show "poll_transport (backend_request line_wires) backend_set_poll" ..
next
  fix t :: "(serial_line, unit) backend" and c and pl rsp :: bytes
  assume calm: "line_calm t" and alive: "\<not> hw_dead (snd (line_core t))" "\<not> hw_jumped (snd (line_core t))" and pl: "length pl \<le> 252"
  then obtain f u where t: "t = BUart f u" "link_idle (sim_link (ln_dev (uart_hw u)))" "ln_tx (uart_hw u) = []"
    "ln_rx (uart_hw u) = []" "0 < unat (uart_scan_limit u)"
    by (cases t) (auto simp: line_calm_def)
  let ?s = "ln_dev (uart_hw u)"
  have "\<not> hw_dead (sim_hw ?s)" "\<not> hw_jumped (sim_hw ?s)"
    using alive by (simp_all add: t(1) core_of_def)
  from sim_stream_plumb [OF this t(2) pl, of c] obtain l' junk where idle': "link_idle l'"
    and plumb: "\<forall>out ses w. handled (core_of ?s) c pl junk out (ses, w) \<longrightarrow> sim_rust_request_stream (SYNC # wire c pl) ?s =
         (if hw_dead w then [] else SYNC # wire (c OR RSP_FLAG) out, ?s\<lparr>sim_link := l', sim_session := ses, sim_hw := w\<rparr>)"
    by (elim exE conjE)
  show "\<exists>junk. \<forall>out y. handled (line_core t) c pl junk out y \<longrightarrow> length out + 3 \<le> length rsp \<longrightarrow>
      (\<exists>r t' rsp'. backend_request line_wires t (wire c pl) rsp = (r, t', rsp') \<and> line_core t' = y \<and> line_calm t'
        \<and> (if hw_dead (snd y) then rejected r rsp'
           else \<exists>n. r = Ok n \<and> n \<le> length rsp' \<and> decode_padded (take n rsp') = Ok \<lparr>cmd = c OR RSP_FLAG, payload = out\<rparr>))"
  proof (intro exI [of _ junk] allI impI)
    fix out y
    assume h: "handled (line_core t) c pl junk out y" and fits: "length out + 3 \<le> length rsp"
    obtain ses w where y: "y = (ses, w)" by fastforce
    have out: "length out \<le> 17"
      using h by (simp add: handled_iff)
    let ?s' = "?s\<lparr>sim_link := l', sim_session := ses, sim_hw := w\<rparr>"
    let ?t' = "BUart f (u\<lparr>uart_hw := \<lparr>ln_dev = ?s', ln_tx = [], ln_rx = []\<rparr>\<rparr>)"
    have req: "sim_rust_request_stream (SYNC # wire c pl) ?s = (if hw_dead w then [] else SYNC # wire (c OR RSP_FLAG) out, ?s')"
      using plumb h y t(1) by simp
    have left: "line_core ?t' = y" "line_calm ?t'"
      using t(5) idle' by (simp_all add: y core_of_def line_calm_def)
    have "\<exists>r rsp'. backend_request line_wires t (wire c pl) rsp = (r, ?t', rsp')
        \<and> (if hw_dead (snd y) then rejected r rsp'
           else \<exists>n. r = Ok n \<and> n \<le> length rsp' \<and> decode_padded (take n rsp') = Ok \<lparr>cmd = c OR RSP_FLAG, payload = out\<rparr>)"
    proof (cases "hw_dead w")
      case True
      with line_request_silent [OF t(3,4), of "wire c pl" ?s' f rsp] req show ?thesis
        by (auto simp: t(1) y rejected_def)
    next
      case False
      with line_request_answered [OF t(3-5) _ out fits, of "wire c pl" "c OR RSP_FLAG" ?s' f] req fits out show ?thesis
        by (auto simp: t(1) y)
    qed
    with left show "\<exists>r t' rsp'. backend_request line_wires t (wire c pl) rsp = (r, t', rsp') \<and> line_core t' = y \<and> line_calm t'
        \<and> (if hw_dead (snd y) then rejected r rsp'
           else \<exists>n. r = Ok n \<and> n \<le> length rsp' \<and> decode_padded (take n rsp') = Ok \<lparr>cmd = c OR RSP_FLAG, payload = out\<rparr>)"
      by blast
  qed
next
  fix t t' :: "(serial_line, unit) backend" and c pl rsp rsp' r
  assume calm: "line_calm t" and dead: "hw_dead (snd (line_core t))" and pl: "length pl \<le> 252"
    and req: "backend_request line_wires t (wire c pl) rsp = (r, t', rsp')"
  then obtain f u where t: "t = BUart f u" "ln_tx (uart_hw u) = []" "ln_rx (uart_hw u) = []"
    by (cases t) (auto simp: line_calm_def)
  have "sim_rust_request_stream (SYNC # wire c pl) (ln_dev (uart_hw u)) = ([], ln_dev (uart_hw u))"
    using dead_silent_stream [of "ln_dev (uart_hw u)" "SYNC # wire c pl"] dead pl by (simp add: t(1) core_of_def)
  from line_request_silent [OF t(2,3) this, of f rsp] req calm show "rejected r rsp' \<and> line_core t' = line_core t \<and> line_calm t'"
    by (auto simp: t(1) rejected_def line_calm_def)
next
  fix t :: "(serial_line, unit) backend" and b
  assume "line_calm t"
  then show "line_calm (backend_set_poll b t) \<and> line_core (backend_set_poll b t) = line_core t"
    by (cases t) (simp_all add: line_calm_def uart_set_poll_budget_def uart_set_poll_def)
qed (rule TrueI)

section \<open>The flash command while the power goes\<close>

lemma reset_dev:
  "length (hw_flash (sim_hw s)) = 4096 \<Longrightarrow> sim_dev (sim_reset True s) = \<lparr>dev_flash = hw_flash (sim_hw s), dev_erased = False\<rparr>"
  by (simp add: sim_dev_def sim_reset_def upd_init_def)

lemma snd_core: "snd (core_of s) = sim_hw s"
  by (simp add: core_of_def)

lemma flash_dev: "dev_flash (sim_dev s) = hw_flash (sim_hw s)"
  by (simp add: sim_dev_def)

interpretation bus_cut_cli: cut_cli sim_wires bus_device on_bus "\<lambda>_. True" "\<lambda>t. hw_jumped (sim_hw (bus_dev (backend_hw t)))"
  "\<lambda>c. cli_transport c = KindI2c" "\<lambda>c. SpecI2c (cli_bus c) (cli_addr c)"
  "\<lambda>w. sim_up (bus_dev w)" "\<lambda>w. sim_dev (bus_dev w)" "\<lambda>w. hw_jumped (sim_hw (bus_dev w))" bus_core is_i2c
  "\<lambda>_. True" "\<lambda>w. core_of (bus_dev w)" "\<lambda>w. w\<lparr>bus_dev := sim_reset True (bus_dev w)\<rparr>"
  by unfold_locales
    (auto simp: open_backend_def linux_i2c_open_def sim_wires_def sim_os_def quiet_os_def is_i2c_def core_of_def reset_up reset_dev)

interpretation line_cut_cli: cut_cli line_wires line_device on_line "\<lambda>_. True" "\<lambda>t. hw_jumped (sim_hw (ln_dev (backend_hw t)))"
  "\<lambda>c. cli_transport c = KindUart \<and> cli_baud c \<in> set SUPPORTED_BAUDS" uart_spec
  line_up "\<lambda>w. sim_dev (ln_dev w)" "\<lambda>w. hw_jumped (sim_hw (ln_dev w))" line_core line_calm
  "\<lambda>w. link_idle (sim_link (ln_dev w)) \<and> ln_tx w = [] \<and> ln_rx w = []" "\<lambda>w. core_of (ln_dev w)"
  "\<lambda>w. w\<lparr>ln_dev := sim_reset True (ln_dev w)\<rparr>"
proof (unfold_locales, goal_cases)
  case (1 c w)
  then show ?case
    using line_open [of "cli_baud c"]
    by (auto simp: open_backend_def line_calm_def uart_new_def DEFAULT_SCAN_LIMIT_def)
next
  case (3 t)
  then show ?case
    using reset_idle [of "ln_dev (backend_hw t)" True]
    by (auto simp: core_of_def line_calm_def line_up_def reset_up reset_dev link_idle_def split: backend.splits)
qed simp

section \<open>Properties\<close>

text \<open>
  C5: the command line survives a power cut. Let the device on the I2C bus lose power at
  the \<open>n\<close>-th flash operation of \<open>updater-cli flash\<close>. The command ends, with \<open>flash failed\<close>
  exactly if the power went before the last page was written. If it went while erasing, the
  region is the old one with its front erased, and nothing more is said of it; once pages of
  the new image are being written, it is one that the boot gate rejects. With the power back,
  \<open>boot\<close> starts the application or is refused as the gate decides, and repeating the same
  command succeeds with the complete region.
\<close>

theorem cli_power_cut:
  assumes "cli_cmd c = CmdFlash path" and "cli_transport c = KindI2c" and "load_image (sim_env texts files ios) path = Ok bs"
    and "from_bin bs 128 32 = Ok img" and "sim_up (bus_dev w)" and "hw_ops (sim_hw (bus_dev w)) = 0" and "n \<noteq> 0"
  shows "\<exists>r w1 w2 prog w3.
       cli_main (sim_env texts files ios) c (w\<lparr>bus_dev := sim_powercut_after n (bus_dev w)\<rparr>) = (r, w1)
     \<and> (is_ok r \<or> (\<exists>e prog. r = Err (FlashFailed e prog)))
     \<and> cut_outcome img (unat n) (hw_flash (sim_hw (bus_dev w))) (is_ok r) (sim_hw (bus_dev w1))
     \<and> (let again = w1\<lparr>bus_dev := sim_reset True (bus_dev w1)\<rparr>; v = region_valid (hw_flash (sim_hw (bus_dev w1))) in
        cli_main (sim_env texts files ios) (c\<lparr>cli_cmd := CmdBoot\<rparr>) again =
          (if v then Ok OutBoot else Err (BootRefused (Core (Device ST_NO_APP))), w2)
      \<and> hw_jumped (sim_hw (bus_dev w2)) = v
      \<and> cli_main (sim_env texts files ios) c again =
          (Ok (OutFlash (img_len img) (img_crc img) (describe (SpecI2c (cli_bus c) (cli_addr c))) prog), w3)
      \<and> hw_flash (sim_hw (bus_dev w3)) = bs @ replicate (4080 - length bs) 0xFF @ footer img)"
proof -
  let ?w0 = "w\<lparr>bus_dev := sim_powercut_after n (bus_dev w)\<rparr>"
  have edge: "on_edge (unat n) (core_of (bus_dev ?w0))" and old: "hw_flash (sim_hw (bus_dev ?w0)) = hw_flash (sim_hw (bus_dev w))"
    using powercut_edge [OF assms(5-7)] by simp_all
  from bus_cut_cli.main_cut_and_again [OF assms(2) TrueI env_sim assms(1,3,4) edge, unfolded snd_core flash_dev old Let_def] show ?thesis
    unfolding Let_def by blast
qed

lemma fresh_bus_ops: "hw_ops (sim_hw (bus_dev fresh_bus)) = 0"
  by (simp add: fresh_bus_def sim_acquire_def sim_reset_def)

lemma blinky_pages: "1 \<le> length (pages_list (pages blinky))"
proof -
  have "valid_image blinky"
    using from_bin_valid [OF blinky_from_bin] by simp
  then show ?thesis
    using pages_last [of blinky] by (simp add: Suc_le_eq)
qed

theorem cli_power_cut_witness:
  "\<exists>e prog w1 w2 w3 out.
       cli_main (sim_env demo_texts demo_files no_tools) (cli_default (CmdFlash ''app.hex''))
         (fresh_bus\<lparr>bus_dev := sim_powercut_after 33 (bus_dev fresh_bus)\<rparr>) = (Err (FlashFailed e prog), w1)
     \<and> cli_main (sim_env demo_texts demo_files no_tools) (cli_default CmdBoot) (w1\<lparr>bus_dev := sim_reset True (bus_dev w1)\<rparr>) =
         (Err (BootRefused (Core (Device ST_NO_APP))), w2)
     \<and> cli_main (sim_env demo_texts demo_files no_tools) (cli_default (CmdFlash ''app.hex'')) (w1\<lparr>bus_dev := sim_reset True (bus_dev w1)\<rparr>) =
         (Ok out, w3)"
  using cli_power_cut [OF _ _ load_demo blinky_from_bin fresh_bus_up fresh_bus_ops, of "cli_default (CmdFlash ''app.hex'')" 33] blinky_pages
  by (auto simp: cli_default_def cut_outcome_def Let_def)

text \<open>
  C9: the same over a serial port. With the byte-stream link between them and any supported
  baud rate, the command ends when the device falls silent, by its poll budget; the region
  is the old one with its front erased, or, once pages are being written, one that the gate
  rejects, and with the power back \<open>info\<close> reports what the boot gate
  would say and the same command succeeds with the complete region.
\<close>

theorem cli_power_cut_serial:
  assumes "cli_transport c = KindUart" and "cli_baud c \<in> set SUPPORTED_BAUDS" and "cli_cmd c = CmdFlash path" and "line_up w"
    and "load_image (line_env texts files ios) path = Ok bs" and "from_bin bs 128 32 = Ok img"
    and "hw_ops (sim_hw (ln_dev w)) = 0" and "n \<noteq> 0"
  shows "\<exists>r w1 w2 prog w3.
       cli_main (line_env texts files ios) c (w\<lparr>ln_dev := sim_powercut_after n (ln_dev w)\<rparr>) = (r, w1)
     \<and> (is_ok r \<or> (\<exists>e prog. r = Err (FlashFailed e prog)))
     \<and> cut_outcome img (unat n) (hw_flash (sim_hw (ln_dev w))) (is_ok r) (sim_hw (ln_dev w1))
     \<and> (let again = w1\<lparr>ln_dev := sim_reset True (ln_dev w1)\<rparr> in
        cli_main (line_env texts files ios) (c\<lparr>cli_cmd := CmdInfo\<rparr>) again =
          (Ok (OutInfo (reported sim_port_info \<lparr>dev_flash = hw_flash (sim_hw (ln_dev w1)), dev_erased = False\<rparr>) 4096 4080), w2)
      \<and> cli_main (line_env texts files ios) c again =
          (Ok (OutFlash (img_len img) (img_crc img) (describe (uart_spec c)) prog), w3)
      \<and> hw_flash (sim_hw (ln_dev w3)) = bs @ replicate (4080 - length bs) 0xFF @ footer img)"
proof -
  let ?w0 = "w\<lparr>ln_dev := sim_powercut_after n (ln_dev w)\<rparr>"
  have up: "sim_up (ln_dev w)" "link_idle (sim_link (ln_dev w))" "ln_tx w = []" "ln_rx w = []"
    using assms(4) by (simp_all add: line_up_def)
  have edge: "on_edge (unat n) (core_of (ln_dev ?w0))" and held: "link_idle (sim_link (ln_dev ?w0)) \<and> ln_tx ?w0 = [] \<and> ln_rx ?w0 = []"
    and old: "hw_flash (sim_hw (ln_dev ?w0)) = hw_flash (sim_hw (ln_dev w))"
    using powercut_edge [OF up(1) assms(7,8)] up(2-4) by simp_all
  from line_cut_cli.main_cut_and_again [OF conjI [OF assms(1,2)] held env_wires assms(3,5,6) edge, unfolded snd_core flash_dev old Let_def] show ?thesis
    unfolding Let_def by blast
qed

lemma fresh_line_ops: "hw_ops (sim_hw (ln_dev fresh_line)) = 0"
  by (simp add: fresh_line_def sim_acquire_def sim_reset_def)

theorem cli_power_cut_serial_witness:
  "\<exists>e prog w1 out w3.
       cli_main (line_env demo_texts demo_files line_no_tools) ((cli_default (CmdFlash ''app.hex''))\<lparr>cli_transport := KindUart\<rparr>)
         (fresh_line\<lparr>ln_dev := sim_powercut_after 7 (ln_dev fresh_line)\<rparr>) = (Err (FlashFailed e prog), w1)
     \<and> hw_flash (sim_hw (ln_dev w1)) = replicate 832 0xFF @ drop 832 (hw_flash (sim_hw (ln_dev fresh_line)))
     \<and> cli_main (line_env demo_texts demo_files line_no_tools) ((cli_default (CmdFlash ''app.hex''))\<lparr>cli_transport := KindUart\<rparr>)
         (w1\<lparr>ln_dev := sim_reset True (ln_dev w1)\<rparr>) = (Ok out, w3)"
proof -
  have load: "load_image (line_env demo_texts demo_files line_no_tools) ''app.hex'' = Ok [1, 2, 3]"
    by (rule load_image_line [THEN trans, OF load_demo])
  have baud: "(115200 :: u32) \<in> set SUPPORTED_BAUDS"
    by (simp add: SUPPORTED_BAUDS_def)
  from cli_power_cut_serial [OF _ _ _ fresh_line_up load blinky_from_bin fresh_line_ops,
      of "(cli_default (CmdFlash ''app.hex''))\<lparr>cli_transport := KindUart\<rparr>" 7] baud
  show ?thesis
    by (auto simp: cli_default_def cut_outcome_def Let_def)
qed

end
