(* ===== verification/Cli_Texts.thy ===== *)
theory Cli_Texts
  imports Cli_Main
begin

text \<open>
  What the program tells its user: the \<open>Display\<close> texts of the error types of all crates and
  the lines the command line prints. Texts are the UTF-8 bytes written. How a foreign error
  prints is a parameter. Shown: which errors the user can tell apart, and where the text of a
  failure loses its cause.
\<close>

section \<open>Display of the errors\<close>

text \<open>The dash of the messages.\<close>

definition em_dash :: string where
  "em_dash = [CHR 0xE2, CHR 0x80, CHR 0x94]"

definition display_core :: "core_error \<Rightarrow> string" where
  "display_core e =
     (case e of
        BadFrame \<Rightarrow> ''malformed frame (length or CRC-8 mismatch)''
      | Device st \<Rightarrow> ''device reported status '' @ hex_04 (unat st) @ '' ('' @ st_name st @ '')''
      | PayloadTooLarge len \<Rightarrow> ''payload of '' @ dec len @ '' bytes exceeds the frame limit''
      | BufferTooSmall needed \<Rightarrow> ''output buffer too small, need '' @ dec needed @ '' bytes''
      | ImageTooLarge len capacity \<Rightarrow>
          ''image of '' @ dec len @ '' bytes exceeds region capacity of '' @ dec capacity @ '' bytes''
      | BadGeometry page_size app_pages \<Rightarrow>
          ''unusable geometry: page_size '' @ dec (unat page_size) @ '', app_pages '' @ dec (unat app_pages)
      | PageOutOfRange index \<Rightarrow> ''page index '' @ dec (unat index) @ '' out of range''
      | ProtocolVersion device \<Rightarrow> ''unsupported device protocol version '' @ dec (unat device))"

definition display_error :: "('e \<Rightarrow> string) \<Rightarrow> 'e error \<Rightarrow> string" where
  "display_error show e = (case e of Transport t \<Rightarrow> ''transport error: '' @ show t | Core c \<Rightarrow> display_core c)"

text \<open>\<open>kind\<close> is the text of \<open>e.kind()\<close>: of the embedded error traits the adapters print only that.\<close>

definition display_i2c_error :: "('e \<Rightarrow> string) \<Rightarrow> 'e i2c_error \<Rightarrow> string" where
  "display_i2c_error kind e =
     (case e of
        I2cWrite e \<Rightarrow> ''i2c write failed: '' @ kind e
      | I2cExhausted attempts last' \<Rightarrow>
          ''device did not answer within '' @ dec (unat attempts) @ '' poll attempt(s) '' @ em_dash @
          '' is it in the bootloader, at this address? if this was erase/flash, the device may still be erasing '' @ em_dash @
          '' widen the poll budget (`with_poll`); last i2c error: '' @ kind last')"

definition display_spi_error :: "('e \<Rightarrow> string) \<Rightarrow> 'e spi_error \<Rightarrow> string" where
  "display_spi_error kind e =
     (case e of
        SpiWrite e \<Rightarrow> ''spi write failed: '' @ kind e
      | SpiRead e \<Rightarrow> ''spi read failed: '' @ kind e
      | SpiExhausted attempts \<Rightarrow>
          ''no response within '' @ dec (unat attempts) @ '' clocked byte(s) '' @ em_dash @
          '' is the device in the bootloader? if this was erase/flash, it may still be erasing '' @ em_dash @
          '' widen the poll budget (`with_poll`)'')"

definition display_uart_error :: "('e \<Rightarrow> string) \<Rightarrow> 'e uart_error \<Rightarrow> string" where
  "display_uart_error show e =
     (case e of
        UartWrite e \<Rightarrow> ''uart write failed: '' @ show e
      | UartRead e \<Rightarrow> ''uart read failed: '' @ show e
      | UartExhausted attempts \<Rightarrow>
          ''device sent nothing within '' @ dec (unat attempts) @ '' poll attempt(s) '' @ em_dash @
          '' is it in the bootloader? if this was erase/flash, it may still be erasing '' @ em_dash @
          '' widen the poll budget (`with_poll`)''
      | UartDesync scanned \<Rightarrow>
          ''no valid frame in '' @ dec (unat scanned) @ '' scanned byte(s) '' @ em_dash @ '' wrong baud rate or wrong port?'')"

definition display_softuart_error :: "('t \<Rightarrow> string) \<Rightarrow> ('r \<Rightarrow> string) \<Rightarrow> ('t, 'r) softuart_error \<Rightarrow> string" where
  "display_softuart_error debug_tx debug_rx e =
     (case e of
        SoftTx e \<Rightarrow> ''softuart tx pin failed: '' @ debug_tx e
      | SoftRx e \<Rightarrow> ''softuart rx pin failed: '' @ debug_rx e
      | SoftExhausted attempts \<Rightarrow>
          ''line stayed idle for '' @ dec (unat attempts) @ '' sample(s) '' @ em_dash @
          '' is the device in the bootloader? if this was erase/flash, it may still be erasing '' @ em_dash @
          '' widen the poll budget (`with_poll`)''
      | SoftDesync scanned \<Rightarrow>
          ''no valid frame in '' @ dec (unat scanned) @ '' received byte(s) '' @ em_dash @ '' noise, or wrong pins?'')"

definition display_linux_i2c_error :: "('e \<Rightarrow> string) \<Rightarrow> 'e linux_i2c_error \<Rightarrow> string" where
  "display_linux_i2c_error show e =
     (case e of
        LiOpen e \<Rightarrow> ''cannot open i2c device: '' @ show e
      | LiWrite e \<Rightarrow> ''i2c write failed: '' @ show e
      | LiExhausted attempts last' \<Rightarrow>
          ''device did not answer within '' @ dec (unat attempts) @
          '' poll attempts (is it in the bootloader, at this address? if this was erase/flash, the device may still be erasing ''
          @ em_dash @ '' raise --poll-attempts): '' @ show last')"

definition display_spidev_error :: "('e \<Rightarrow> string) \<Rightarrow> 'e spidev_error \<Rightarrow> string" where
  "display_spidev_error show e =
     (case e of
        SpiIo e \<Rightarrow> ''spidev transfer failed: '' @ show e
      | SpiUnsupported what \<Rightarrow> ''spidev backend cannot do this: '' @ what)"

definition display_pin_error :: "('e \<Rightarrow> string) \<Rightarrow> 'e \<Rightarrow> string" where
  "display_pin_error show e = ''gpio line access failed: '' @ show e"

text \<open>
  How the foreign errors of a host print: \<open>Display\<close> and \<open>Debug\<close> of an operating system
  error, and \<open>Display\<close> of \<open>embedded_hal::spi::ErrorKind::Other\<close>.
\<close>

record 'e texts =
  tx_show :: "'e \<Rightarrow> string"
  tx_debug :: "'e \<Rightarrow> string"
  tx_kind_other :: string

text \<open>\<open>kind()\<close> of \<open>SpiError\<close>, as text: every error is \<open>Other\<close>.\<close>

definition spidev_kind :: "'e texts \<Rightarrow> 'e spidev_error \<Rightarrow> string" where
  "spidev_kind tx e = tx_kind_other tx"

text \<open>The derived \<open>Debug\<close> of \<open>PinError\<close>.\<close>

definition debug_pin_error :: "'e texts \<Rightarrow> 'e \<Rightarrow> string" where
  "debug_pin_error tx e = ''PinError('' @ tx_debug tx e @ '')''"

text \<open>\<open>anyhow!("{e}")\<close> in \<open>Erased::request\<close>: the text is all that is left of the error.\<close>

definition display_backend_error :: "'e texts \<Rightarrow> 'e backend_error \<Rightarrow> string" where
  "display_backend_error tx e =
     (case e of
        EI2c e \<Rightarrow> display_linux_i2c_error (tx_show tx) e
      | EUart e \<Rightarrow> display_uart_error (tx_show tx) e
      | ESpi e \<Rightarrow> display_spi_error (spidev_kind tx) e
      | EGpio e \<Rightarrow> display_softuart_error (debug_pin_error tx) (debug_pin_error tx) e)"

section \<open>Numbers in texts\<close>

definition is_digit :: "char \<Rightarrow> bool" where
  "is_digit c \<longleftrightarrow> 48 \<le> (of_char c :: nat) \<and> (of_char c :: nat) \<le> 57"

definition is_lower_hex :: "char \<Rightarrow> bool" where
  "is_lower_hex c \<longleftrightarrow> is_digit c \<or> 97 \<le> (of_char c :: nat) \<and> (of_char c :: nat) \<le> 102"

definition hex_value :: "char \<Rightarrow> nat" where
  "hex_value c = (let n = of_char c in if n < 58 then n - 48 else n - 87)"

lemma dec_digits: "list_all is_digit (dec n)"
proof (induction n rule: dec.induct)
  case (1 n)
  have "is_digit (char_of (48 + n mod 10))" for n :: nat
    by (simp add: is_digit_def)
  from this [of n] 1 show ?case
    by (cases "n < 10") (simp_all add: dec.simps [of n])
qed

lemma dec_value: "foldl (\<lambda>v c. 10 * v + (of_char c - 48)) 0 (dec n) = n"
proof (induction n rule: dec.induct)
  case (1 n)
  then show ?case
    by (cases "n < 10") (simp_all add: dec.simps [of n])
qed

lemma dec_inject [simp]: "dec a = dec b \<longleftrightarrow> a = b"
  by (metis dec_value)

lemma lower_hex_digits: "list_all is_lower_hex (lower_hex n)"
proof (induction n rule: lower_hex.induct)
  case (1 n)
  have "is_lower_hex (lower_digit m)" if "m < 16" for m
    using that by (auto simp: is_lower_hex_def is_digit_def lower_digit_def)
  with 1 show ?case
    by (cases "n < 16") (simp_all add: lower_hex.simps [of n])
qed

lemma lower_hex_value: "foldl (\<lambda>v c. 16 * v + hex_value c) 0 (lower_hex n) = n"
proof (induction n rule: lower_hex.induct)
  case (1 n)
  have "hex_value (lower_digit m) = m" if "m < 16" for m
    using that by (auto simp: hex_value_def lower_digit_def)
  with 1 show ?case
    by (cases "n < 16") (simp_all add: lower_hex.simps [of n])
qed

text \<open>A run of characters of one class ends at the first other one.\<close>

lemma run_append_inject:
  assumes "list_all P xs" and "list_all P ys" and "\<not> P c" and "\<not> P d"
  shows "xs @ c # s = ys @ d # t \<longleftrightarrow> xs = ys \<and> c = d \<and> s = t"
  using assms
proof (induction xs arbitrary: ys)
  case Nil
  then show ?case by (cases ys) auto
next
  case (Cons x xs)
  then show ?case by (cases ys) auto
qed

lemma dec_append_inject [simp]:
  "\<not> is_digit c \<Longrightarrow> \<not> is_digit d \<Longrightarrow> dec a @ c # s = dec b @ d # t \<longleftrightarrow> a = b \<and> c = d \<and> s = t"
  by (simp add: run_append_inject [OF dec_digits dec_digits])

lemma hex_04_append_inject:
  "\<not> is_lower_hex c \<Longrightarrow> \<not> is_lower_hex d \<Longrightarrow> hex_04 a @ c # s = hex_04 b @ d # t \<longleftrightarrow> a = b \<and> c = d \<and> s = t"
proof
  assume c: "\<not> is_lower_hex c" and d: "\<not> is_lower_hex d" and eq: "hex_04 a @ c # s = hex_04 b @ d # t"
  let ?x = "\<lambda>n. (if n < 16 then ''0'' else []) @ lower_hex n"
  have digits: "list_all is_lower_hex (?x n)" for n
    using lower_hex_digits [of n] by (simp add: is_lower_hex_def is_digit_def)
  have val: "foldl (\<lambda>v c. 16 * v + hex_value c) 0 (?x n) = n" for n
    using lower_hex_value [of n] by (simp add: hex_value_def)
  have "?x a @ c # s = ?x b @ d # t"
    using eq by (simp add: hex_04_def)
  then have "?x a = ?x b \<and> c = d \<and> s = t"
    using run_append_inject [OF digits digits c d] by blast
  then show "a = b \<and> c = d \<and> s = t"
    using val [of a] val [of b] by metis
qed simp

section \<open>Texts that tell errors apart\<close>

lemma not_digit [simp]: "\<not> is_digit CHR '' ''" "\<not> is_digit CHR '',''"
  by (simp_all add: is_digit_def)

lemma not_lower_hex [simp]: "\<not> is_lower_hex CHR '' ''"
  by (simp add: is_lower_hex_def is_digit_def)

lemma unat_inject [simp]: "unat a = unat b \<longleftrightarrow> a = b"
  by (simp add: word_unat_eq_iff)

lemma display_core_inject [simp]: "display_core a = display_core b \<longleftrightarrow> a = b"
  by (cases a; cases b) (auto simp: display_core_def hex_04_append_inject)

lemma transport_not_core [simp]:
  "''transport error: '' @ s \<noteq> display_core c" "display_core c \<noteq> ''transport error: '' @ s"
  by (cases c; simp add: display_core_def)+

text \<open>An SPI fault of the command line without its cause.\<close>

fun blur :: "'e backend_error error \<Rightarrow> 'e backend_error error" where
  "blur (Transport (ESpi (SpiWrite _))) = Transport (ESpi (SpiWrite (SpiUnsupported [])))"
| "blur (Transport (ESpi (SpiRead _))) = Transport (ESpi (SpiRead (SpiUnsupported [])))"
| "blur e = e"

lemma linux_i2c_text_inject:
  "inj show \<Longrightarrow> display_linux_i2c_error show a = display_linux_i2c_error show b \<longleftrightarrow> a = b"
  by (cases a; cases b) (auto simp: display_linux_i2c_error_def inj_eq)

lemma uart_text_inject: "inj show \<Longrightarrow> display_uart_error show a = display_uart_error show b \<longleftrightarrow> a = b"
  by (cases a; cases b) (auto simp: display_uart_error_def inj_eq)

lemma softuart_text_inject:
  "inj f \<Longrightarrow> inj g \<Longrightarrow> display_softuart_error f g a = display_softuart_error f g b \<longleftrightarrow> a = b"
  by (cases a; cases b) (auto simp: display_softuart_error_def inj_eq)

lemma i2c_text_inject: "inj kind \<Longrightarrow> display_i2c_error kind a = display_i2c_error kind b \<longleftrightarrow> a = b"
  by (cases a; cases b) (auto simp: display_i2c_error_def inj_eq)

lemma spi_text_inject: "inj kind \<Longrightarrow> display_spi_error kind a = display_spi_error kind b \<longleftrightarrow> a = b"
  by (cases a; cases b) (auto simp: display_spi_error_def inj_eq)

lemma spi_text_blur:
  "display_spi_error (spidev_kind tx) a = display_spi_error (spidev_kind tx) b \<longleftrightarrow>
     blur (Transport (ESpi a)) = blur (Transport (ESpi b))"
  by (cases a; cases b) (simp_all add: display_spi_error_def spidev_kind_def)

lemma inj_debug_pin: "inj (tx_debug tx) \<Longrightarrow> inj (debug_pin_error tx)"
  by (auto simp: inj_def debug_pin_error_def)

lemmas adapter_texts = display_linux_i2c_error_def display_uart_error_def display_spi_error_def display_softuart_error_def

text \<open>Texts of different wires differ.\<close>

lemma wires_differ:
  shows "display_linux_i2c_error f a \<noteq> display_uart_error g b"
    and "display_linux_i2c_error f a \<noteq> display_spi_error h c"
    and "display_linux_i2c_error f a \<noteq> display_softuart_error i j d"
    and "display_uart_error g b \<noteq> display_spi_error h c"
    and "display_uart_error g b \<noteq> display_softuart_error i j d"
    and "display_spi_error h c \<noteq> display_softuart_error i j d"
proof -
  show "display_linux_i2c_error f a \<noteq> display_uart_error g b"
    by (cases a; cases b) (simp_all add: adapter_texts)
  show "display_linux_i2c_error f a \<noteq> display_spi_error h c"
    by (cases a; cases c) (simp_all add: adapter_texts)
  show "display_linux_i2c_error f a \<noteq> display_softuart_error i j d"
    by (cases a; cases d) (simp_all add: adapter_texts)
  show "display_uart_error g b \<noteq> display_spi_error h c"
    by (cases b; cases c) (simp_all add: adapter_texts)
  show "display_uart_error g b \<noteq> display_softuart_error i j d"
    by (cases b; cases d) (simp_all add: adapter_texts)
  show "display_spi_error h c \<noteq> display_softuart_error i j d"
    by (cases c; cases d) (simp_all add: adapter_texts)
qed

lemma backend_text_blur:
  assumes "inj (tx_show tx)" and "inj (tx_debug tx)"
  shows "display_backend_error tx a = display_backend_error tx b \<longleftrightarrow> blur (Transport a) = blur (Transport b)"
proof -
  note inject = linux_i2c_text_inject [OF assms(1)] uart_text_inject [OF assms(1)] spi_text_blur
    softuart_text_inject [OF inj_debug_pin inj_debug_pin, OF assms(2) assms(2)]
  have spi: "blur (Transport (ESpi x)) \<noteq> Transport (EI2c y)" "blur (Transport (ESpi x)) \<noteq> Transport (EUart z)"
    "blur (Transport (ESpi x)) \<noteq> Transport (EGpio u)" for x :: "'a spidev_error spi_error" and y z u
    by (cases x; simp)+
  show ?thesis
    by (cases a; cases b) (simp_all add: display_backend_error_def inject wires_differ wires_differ [symmetric] spi spi [symmetric])
qed

section \<open>What the commands print\<close>

text \<open>\<open>{:02X}\<close> and \<open>{:08X}\<close>.\<close>

definition upper_digit :: "nat \<Rightarrow> char" where
  "upper_digit n = char_of (if n < 10 then 48 + n else 55 + n)"

fun upper_hex :: "nat \<Rightarrow> nat \<Rightarrow> string" where
  "upper_hex 0 n = []"
| "upper_hex (Suc w) n = upper_hex w (n div 16) @ [upper_digit (n mod 16)]"

text \<open>A byte has two digits and a \<open>u32\<close> eight, so the padded width is the whole text.\<close>

definition info_lines :: "device_info \<Rightarrow> u32 \<Rightarrow> u32 \<Rightarrow> string list" where
  "info_lines di region usable =
     [''protocol:           '' @ dec (unat (di_proto di)),
      ''bootloader:         v'' @ dec (unat (di_bl_version di)),
      ''device id:          '' @ join_space (map (\<lambda>b. upper_hex 2 (unat b)) (di_device_id di)),
      ''protocol page size: '' @ dec (unat (di_page_size di)) @ '' bytes'',
      ''app pages:          '' @ dec (unat (di_app_pages di)),
      ''app region:         '' @ dec (unat region) @ '' bytes ('' @ dec (unat usable) @ '' usable)'',
      ''app valid:          '' @ (if di_app_valid di then ''yes'' else ''no'')]"

text \<open>The lines on the standard output; \<open>install\<close> prints its own.\<close>

definition cli_stdout :: "cli_output \<Rightarrow> string list" where
  "cli_stdout out =
     (case out of
        OutInfo di region usable \<Rightarrow> info_lines di region usable
      | OutEcho n \<Rightarrow> [''echo OK ('' @ dec n @ '' bytes round-tripped)'']
      | OutFlash len crc target_name prog \<Rightarrow> [''flash OK: '' @ dec (unat len) @ '' bytes written and verified'']
      | OutBoot \<Rightarrow> [''boot: OK'']
      | OutInstall \<Rightarrow> [])"

text \<open>What a successful flash writes to the standard error: where it goes, then the progress in one line.\<close>

definition page_note :: "u16 \<times> u16 \<Rightarrow> string" where
  "page_note p = [carriage] @ ''  page '' @ dec (unat (fst p)) @ ''/'' @ dec (unat (snd p))"

definition flash_stderr :: "u32 \<Rightarrow> u32 \<Rightarrow> string \<Rightarrow> (u16 \<times> u16) list \<Rightarrow> string" where
  "flash_stderr len crc target_name prog =
     ''flashing '' @ dec (unat len) @ '' bytes (crc32 '' @ upper_hex 8 (unat crc) @ '') to '' @ target_name @ [newline]
     @ concat (map page_note prog) @ [newline]"

section \<open>Properties\<close>

text \<open>
  C36: an error message says what went wrong. With operating system errors that print
  differently, two failures of an operation of the command line, be it of the protocol, the
  device or any of the four wires, print the same text only if they are the same failure,
  number for number; the one exception is a failed SPI transfer, whose cause is not in the
  text (a read and a write can still be told apart).
\<close>

theorem error_texts_tell:
  assumes "inj (tx_show tx)" and "inj (tx_debug tx)"
  shows "display_error (display_backend_error tx) a = display_error (display_backend_error tx) b \<longleftrightarrow> blur a = blur b"
proof (cases a)
  case a: (Transport x)
  show ?thesis
  proof (cases b)
    case (Transport y)
    with a backend_text_blur [OF assms, of x y] show ?thesis
      by (simp add: display_error_def)
  next
    case (Core d)
    have "blur (Transport x) \<noteq> Core d"
      by (cases "Transport x" rule: blur.cases) auto
    with a Core show ?thesis
      using transport_not_core(1) [of "display_backend_error tx x" d] by (simp add: display_error_def)
  qed
next
  case a: (Core c)
  show ?thesis
  proof (cases b)
    case (Transport y)
    have "Core c \<noteq> blur (Transport y)"
      by (cases "Transport y" rule: blur.cases) auto
    with a Transport show ?thesis
      using transport_not_core(2) [of c "display_backend_error tx y"] by (simp add: display_error_def)
  next
    case (Core d)
    with a show ?thesis
      by (simp add: display_error_def)
  qed
qed

definition plain_texts :: "string texts" where
  "plain_texts = \<lparr>tx_show = id, tx_debug = id, tx_kind_other = ''other''\<rparr>"

theorem error_texts_tell_witness:
  "display_error (display_backend_error plain_texts) (Transport (ESpi (SpiWrite (SpiIo ''EIO'')))) =
     display_error (display_backend_error plain_texts) (Transport (ESpi (SpiWrite (SpiIo ''EPERM''))))
   \<and> display_error (display_backend_error plain_texts) (Transport (EI2c (LiWrite ''EIO''))) \<noteq>
     display_error (display_backend_error plain_texts) (Transport (EI2c (LiWrite ''EPERM'')))"
proof -
  have inj: "inj (tx_show plain_texts)" "inj (tx_debug plain_texts)"
    by (simp_all add: plain_texts_def inj_def)
  show ?thesis
    using error_texts_tell [OF inj, of "Transport (ESpi (SpiWrite (SpiIo ''EIO'')))" "Transport (ESpi (SpiWrite (SpiIo ''EPERM'')))"]
      error_texts_tell [OF inj, of "Transport (EI2c (LiWrite ''EIO''))" "Transport (EI2c (LiWrite ''EPERM''))"]
    by simp
qed

end
