(* ===== verification/Cli_Reports.thy ===== *)
theory Cli_Reports
  imports Cli_Texts
begin

text \<open>
  What the command line reports when it fails: the messages of \<^verbatim>\<open>ihex.rs\<close>,
  \<^verbatim>\<open>install.rs\<close>, \<^verbatim>\<open>transport.rs\<close> and \<^verbatim>\<open>main.rs\<close>, with the context each
  layer adds. A report is the chain of its messages, the outermost first, as \<open>anyhow\<close> keeps
  it; \<open>{:#}\<close> prints the chain with colons between. How foreign errors print is a parameter,
  as in \<open>texts\<close>; so are the quoting of a string by \<open>{:?}\<close> and the text of a \<open>Utf8Error\<close>.
\<close>

section \<open>Chains\<close>

record 'e report_texts =
  rt_texts :: "'e texts"
  rt_debug_str :: "string \<Rightarrow> string"
  rt_utf8_error :: "string \<Rightarrow> string"

fun join_by :: "string \<Rightarrow> string list \<Rightarrow> string" where
  "join_by sep [] = []"
| "join_by sep [s] = s"
| "join_by sep (s # ss) = s @ sep @ join_by sep ss"

definition alternate :: "string list \<Rightarrow> string" where
  "alternate chain = join_by '': '' chain"

definition quoted :: "string \<Rightarrow> string" where
  "quoted s = CHR 0x22 # s @ [CHR 0x22]"

definition tick :: string where
  "tick = [CHR 0x27]"

definition supported_bauds :: string where
  "supported_bauds = join_by '', '' (map (\<lambda>b. dec (unat b)) SUPPORTED_BAUDS)"

section \<open>Images and data\<close>

text \<open>Every message of the Intel HEX reader but the last names the line.\<close>

definition hex_text :: "'e report_texts \<Rightarrow> hex_error \<Rightarrow> string" where
  "hex_text rt e =
     (case e of
        OddDigits \<Rightarrow> ''odd number of hex digits''
      | NotUtf8 pair' \<Rightarrow> rt_utf8_error rt pair'
      | InvalidDigits pair' \<Rightarrow> ''invalid hex digits '' @ rt_debug_str rt pair')"

definition at_line :: "nat \<Rightarrow> string \<Rightarrow> string" where
  "at_line lineno msg = ''line '' @ dec lineno @ '': '' @ msg"

definition ihex_text :: "'e report_texts \<Rightarrow> ihex_error \<Rightarrow> string" where
  "ihex_text rt e =
     (case e of
        AfterEof n \<Rightarrow> at_line n ''record after EOF record''
      | NoColon n \<Rightarrow> at_line n (''record does not start with '' @ tick @ '':'' @ tick)
      | BadHex n e \<Rightarrow> at_line n (hex_text rt e)
      | TooShort n len \<Rightarrow> at_line n (''record too short ('' @ dec len @ '' bytes, need at least 5)'')
      | MissingChecksum n \<Rightarrow> at_line n ''record too short (missing checksum)''
      | LengthMismatch n ll len \<Rightarrow>
          at_line n (''length field says '' @ dec (unat ll) @ '' data byte(s) but record carries '' @ dec len)
      | BadChecksum n \<Rightarrow> at_line n ''checksum mismatch''
      | ExtendedAddress n rtype \<Rightarrow>
          at_line n (''extended address record (type '' @ hex_04 (unat rtype) @ '') is not supported '' @ em_dash @
            '' the updater image must fit 16-bit addresses starting at 0; for ARM-class images produce a raw binary instead: '' @
            ''arm-none-eabi-objcopy -O binary app.elf app.bin'')
      | UnsupportedType n rtype \<Rightarrow> at_line n (''unsupported record type '' @ hex_04 (unat rtype))
      | MissingEof \<Rightarrow> ''missing EOF record (:00000001FF)'')"

definition load_chain :: "'e report_texts \<Rightarrow> 'e load_error \<Rightarrow> string list" where
  "load_chain rt e =
     (case e of
        ReadingImage path e \<Rightarrow> [''reading '' @ path, tx_show (rt_texts rt) e]
      | ParsingHex path e \<Rightarrow> [''parsing '' @ path @ '' as Intel HEX'', ihex_text rt e])"

text \<open>The data of \<open>echo\<close>; a bad pair of digits carries the \<open>ParseIntError\<close> along.\<close>

definition hex_data_chain :: "'e report_texts \<Rightarrow> hex_error \<Rightarrow> string list" where
  "hex_data_chain rt e =
     (case e of
        OddDigits \<Rightarrow> [''odd number of hex digits'']
      | NotUtf8 pair' \<Rightarrow> [rt_utf8_error rt pair']
      | InvalidDigits pair' \<Rightarrow> [''invalid hex byte '' @ rt_debug_str rt pair', ''invalid digit found in string''])"

section \<open>The wire\<close>

definition addr_text :: "'e report_texts \<Rightarrow> addr_error \<Rightarrow> string" where
  "addr_text rt e =
     (case e of
        NotANumber s \<Rightarrow> ''not a number: '' @ rt_debug_str rt s
      | NotSevenBit value \<Rightarrow> hex_04 (unat value) @ '' is not a 7-bit I2C address'')"

definition spec_text :: "spec_error \<Rightarrow> string" where
  "spec_text e =
     (case e of
        BaudUnsupported baud \<Rightarrow> ''unsupported baud rate '' @ dec (unat baud) @ '' (supported: '' @ supported_bauds @ '')''
      | PinsMissing chip \<Rightarrow> ''--transport gpio needs both --pin-tx and --pin-rx (GPIO line offsets on '' @ chip @ '')''
      | SamePins pin_tx \<Rightarrow> ''--pin-tx and --pin-rx must be different lines (both are '' @ dec (unat pin_tx) @ '')'')"

definition serial_chain :: "'e report_texts \<Rightarrow> 'e serial_error \<Rightarrow> string list" where
  "serial_chain rt e =
     (let os = tx_show (rt_texts rt) in
      case e of
        UnsupportedBaud baud \<Rightarrow> [''unsupported baud rate '' @ dec (unat baud) @ '' (supported: ['' @ supported_bauds @ ''])'']
      | SerialOpen dev e \<Rightarrow> [''opening serial device '' @ dev, os e]
      | NotATerminal dev e \<Rightarrow> [dev @ '': not a terminal?'', os e]
      | SettingBaud e \<Rightarrow> [''setting baud rate'', os e]
      | ApplyingTermios e \<Rightarrow> [''applying termios settings'', os e]
      | FlushingStale e \<Rightarrow> [''flushing stale bytes'', os e])"

definition spidev_open_chain :: "'e report_texts \<Rightarrow> 'e spidev_open_error \<Rightarrow> string list" where
  "spidev_open_chain rt e =
     (case e of
        SpidevOpen dev e \<Rightarrow> [''opening SPI device '' @ dev, tx_show (rt_texts rt) e]
      | SpidevConfigure dev speed_hz e \<Rightarrow>
          [''configuring '' @ dev @ '' at '' @ dec (unat speed_hz) @ '' Hz'', tx_show (rt_texts rt) e])"

definition gpio_chain :: "'e report_texts \<Rightarrow> 'e gpio_error \<Rightarrow> string list" where
  "gpio_chain rt e =
     (case e of
        GpioChip chip e \<Rightarrow> [''opening GPIO chip '' @ chip, tx_show (rt_texts rt) e]
      | GpioTx pin e \<Rightarrow> [''claiming TX line '' @ dec (unat pin), tx_show (rt_texts rt) e]
      | GpioRx pin e \<Rightarrow> [''claiming RX line '' @ dec (unat pin), tx_show (rt_texts rt) e])"

definition open_chain :: "'e report_texts \<Rightarrow> 'e open_error \<Rightarrow> string list" where
  "open_chain rt e =
     (case e of
        OpenI2c bus addr e \<Rightarrow>
          [''opening '' @ bus @ '' (address '' @ hex_04 (unat addr) @ '')'', display_linux_i2c_error (tx_show (rt_texts rt)) e]
      | OpenUart e \<Rightarrow> serial_chain rt e
      | OpenSpi e \<Rightarrow> spidev_open_chain rt e
      | OpenGpio e \<Rightarrow> gpio_chain rt e)"

section \<open>The installer\<close>

definition dec_int :: "int \<Rightarrow> string" where
  "dec_int i = (if i < 0 then ''-'' @ dec (nat (- i)) else dec (nat i))"

text \<open>
  The errors of each step; an error of another step has no text here. A panic is not a report.
\<close>

definition read_config_chain :: "'e report_texts \<Rightarrow> 'e install_error \<Rightarrow> string list" where
  "read_config_chain rt e =
     (let os = tx_show (rt_texts rt) in
      case e of
        NoConfig \<Rightarrow>
          [''no install.toml in the current directory '' @ em_dash @
           '' run where one lives, pass --config <file>, or start from the reference install.toml at the updater-sdk repo root'']
      | ReadingConfig path e \<Rightarrow> [''reading '' @ path @ '' '' @ em_dash @ '' pass --config an existing install.toml'', os e]
      | _ \<Rightarrow> [])"

definition config_chain :: "'e report_texts \<Rightarrow> 'e install_error \<Rightarrow> string list" where
  "config_chain rt e =
     (let os = tx_show (rt_texts rt); dbg = rt_debug_str rt in
      case e of
        ParsingConfig source e \<Rightarrow> [''parsing '' @ source, os e]
      | EmptyTool source name \<Rightarrow>
          [source @ '': targets.'' @ name @ '': tool is empty '' @ em_dash @ '' name the programmer executable to run (e.g. ''
           @ quoted ''avrdude'' @ '' or '' @ quoted ''probe-rs'' @ '')'']
      | EmptyPre source name i \<Rightarrow>
          [source @ '': targets.'' @ name @ '': pre['' @ dec i @ ''] is empty '' @ em_dash @
           '' each pre step is an argv list starting with the tool to run, e.g. ['' @
           quoted ''avrdude'' @ '', '' @ quoted ''-U'' @ '', '' @ quoted ''bootsize:w:8:m'' @ '']'']
      | NoTarget source name available \<Rightarrow>
          [''no target '' @ dbg name @ '' in '' @ source @ '' '' @ em_dash @ '' available: '' @ join_by '', '' available @
           '' (add a [targets.'' @ name @ ''] table to define it)'']
      | _ \<Rightarrow> [])"

definition template_chain :: "'e report_texts \<Rightarrow> 'e install_error \<Rightarrow> string list" where
  "template_chain rt e =
     (let dbg = rt_debug_str rt in
      case e of
        UnclosedBrace arg \<Rightarrow>
          [''unclosed '' @ tick @ ''{'' @ tick @ '' in template argument '' @ dbg arg @ '' '' @ em_dash @
           '' placeholders are {image} and {port}; fix the argument in install.toml'']
      | NeedsPort arg \<Rightarrow>
          [''template argument '' @ dbg arg @ '' needs a port '' @ em_dash @
           '' pass --port <dev> (e.g. --port /dev/ttyACM0)'']
      | UnknownPlaceholder other arg \<Rightarrow>
          [''unknown placeholder {'' @ other @ ''} in template argument '' @ dbg arg @ '' '' @ em_dash @
           '' only {image} and {port} are substituted; fix install.toml'']
      | PortNotAccepted p \<Rightarrow>
          [''this target does not accept a port: its template has no {port} placeholder and no port_arg '' @ em_dash @
           '' add one of them to the target in install.toml, or drop --port (got '' @ dbg p @ '')'']
      | _ \<Rightarrow> [])"

definition tool_chain :: "'e report_texts \<Rightarrow> 'e install_error \<Rightarrow> string list" where
  "tool_chain rt e =
     (let dbg = rt_debug_str rt in
      case e of
        ToolNotExecutable tool \<Rightarrow>
          [tool @ '' does not exist or is not executable '' @ em_dash @ '' fix the tool path in install.toml'']
      | ToolNotFound tool \<Rightarrow>
          [dbg tool @ '' not found on PATH '' @ em_dash @ '' install it first:'' @ newline #
           ''  avrdude:   apt install avrdude       (or dnf/pacman/brew equivalent)'' @ newline #
           ''  probe-rs:  cargo install probe-rs-tools   (https://probe.rs)'' @ newline #
           ''  openocd:   apt install openocd'' @ newline #
           ''or point the target'' @ tick @ ''s tool at an absolute path in install.toml'']
      | _ \<Rightarrow> [])"

definition run_chain :: "'e report_texts \<Rightarrow> 'e install_error \<Rightarrow> string list" where
  "run_chain rt e =
     (let os = tx_show (rt_texts rt) in
      case e of
        ImageMissing img \<Rightarrow>
          [''image '' @ img @ '' does not exist '' @ em_dash @
           '' build the bootloader hex first (e.g. make -C device/ports/avr_ea_twi) or fix the --image path'']
      | ImageNotUtf8 img \<Rightarrow> [''image path '' @ img @ '' is not valid UTF-8'']
      | SpawnFailed exe e \<Rightarrow> [''failed to start '' @ exe, os e]
      | ToolFailed exe code \<Rightarrow>
          [exe @ '' failed with exit status '' @ dec_int code @ '' '' @ em_dash @ '' its output above says why; fix that and re-run'']
      | ToolKilled exe \<Rightarrow> [exe @ '' was killed by a signal'']
      | _ \<Rightarrow> [])"

definition install_chain :: "'e report_texts \<Rightarrow> 'e install_error \<Rightarrow> string list" where
  "install_chain rt e = read_config_chain rt e @ config_chain rt e @ template_chain rt e @ tool_chain rt e @ run_chain rt e"

lemmas install_chain_defs = install_chain_def read_config_chain_def config_chain_def template_chain_def tool_chain_def run_chain_def

section \<open>The run\<close>

definition cli_chain :: "'e report_texts \<Rightarrow> 'e cli_error \<Rightarrow> string list" where
  "cli_chain rt e =
     (let proto = display_error (display_backend_error (rt_texts rt)) in
      case e of
        TransportFlags offenders \<Rightarrow>
          [''install talks to a debug adapter (avrdude/probe-rs/...), never the updater wire '' @ em_dash @
           '' drop '' @ join_by '', '' offenders]
      | InstallFailed e \<Rightarrow> install_chain rt e
      | LoadFailed e \<Rightarrow> load_chain rt e
      | DataNotHex e \<Rightarrow> ''--data must be hex digits'' # hex_data_chain rt e
      | DataLength n \<Rightarrow> [''--data must be 1..=16 bytes ('' @ dec n @ '' given)'']
      | BadSpec e \<Rightarrow> [spec_text e]
      | OpenFailed e \<Rightarrow> open_chain rt e
      | InfoFailed e \<Rightarrow> [''INFO failed'', proto e]
      | EchoFailed e \<Rightarrow> [''ECHO failed'', proto e]
      | DoesNotFit len app_pages page_size e \<Rightarrow>
          [''image does not fit the device ('' @ dec len @ '' bytes into '' @ dec (unat app_pages) @ '' pages of '' @
           dec (unat page_size) @ '' bytes, 16 reserved for the footer)'', display_core e]
      | FlashFailed e _ \<Rightarrow> [''flash failed'', proto e]
      | NoBootAck e \<Rightarrow>
          [''no BOOT ACK '' @ em_dash @ '' the device may have booted anyway; check whether the app came up ('' @
           display_backend_error (rt_texts rt) e @ '')'']
      | BootRefused e \<Rightarrow> [''BOOT refused'', proto e])"

section \<open>The line of a bad image\<close>

text \<open>What the reader prints on the standard error output for a start-address record.\<close>

definition note_text :: "nat \<times> u8 \<Rightarrow> string" where
  "note_text = (\<lambda>(lineno, rtype).
     ''note: '' @ at_line lineno (''ignoring start-address record (type '' @ hex_04 (unat rtype) @ '') '' @ em_dash @
       '' the updater boots the app via its own vector, not a HEX entry point''))"

fun error_line :: "ihex_error \<Rightarrow> nat option" where
  "error_line (AfterEof n) = Some n"
| "error_line (NoColon n) = Some n"
| "error_line (BadHex n _) = Some n"
| "error_line (TooShort n _) = Some n"
| "error_line (MissingChecksum n) = Some n"
| "error_line (LengthMismatch n _ _) = Some n"
| "error_line (BadChecksum n) = Some n"
| "error_line (ExtendedAddress n _) = Some n"
| "error_line (UnsupportedType n _) = Some n"
| "error_line MissingEof = None"

lemma error_line_text: "error_line e = Some n \<Longrightarrow> \<exists>msg. ihex_text rt e = at_line n msg"
  by (cases e; simp only: ihex_text_def ihex_error.case error_line.simps option.inject option.simps; blast)

lemma ihex_record_Err: "ihex_record n bs st = Err e \<Longrightarrow> error_line e = Some n"
  by (auto simp: ihex_record_def Let_def split: list.splits option.splits if_splits)

lemma ihex_line_Err:
  assumes "ihex_line n l st = Err e"
  shows "error_line e = Some n"
proof (cases "strip_prefix '':'' (trim l)")
  case None
  with assms show ?thesis
    by (auto simp: ihex_line_def Let_def split: if_splits)
next
  case (Some hex)
  then show ?thesis
    using assms by (cases "decode_hex hex") (auto simp: ihex_line_def Let_def ihex_record_Err split: if_splits)
qed

lemma ihex_lines_Err:
  assumes "ihex_lines n ls st = Err e"
  shows "\<exists>pre l post st'. ls = pre @ l # post \<and> ihex_lines n pre st = Ok st' \<and> ihex_line (n + length pre) l st' = Err e"
  using assms
proof (induction ls arbitrary: n st)
  case (Cons l ls)
  show ?case
  proof (cases "ihex_line n l st")
    case (Inl e')
    then have "l # ls = [] @ l # ls" and "ihex_lines n [] st = Ok st" and "ihex_line (n + length ([] :: string list)) l st = Err e"
      using Cons.prems by simp_all
    then show ?thesis
      by blast
  next
    case (Inr st1)
    then obtain pre m post st' where "ls = pre @ m # post" "ihex_lines (n + 1) pre st1 = Ok st'"
        "ihex_line (n + 1 + length pre) m st' = Err e"
      using Cons.IH [of "n + 1" st1] Cons.prems by auto
    with Inr show ?thesis
      by (intro exI [of _ "l # pre"] exI [of _ m] exI [of _ post] exI [of _ st']) simp
  qed
qed simp

text \<open>
  The report on a text the reader refuses: the first line that fails, by its number, every
  line before it being accepted; or the missing end when every line is accepted.
\<close>

definition pinpoints :: "string \<Rightarrow> string \<Rightarrow> bool" where
  "pinpoints text' report \<longleftrightarrow>
     (if is_ok (ihex_lines 1 (lines text') ihex_init) then report = ''missing EOF record (:00000001FF)''
      else \<exists>pre l post st msg. lines text' = pre @ l # post \<and> ihex_lines 1 pre ihex_init = Ok st \<and>
             \<not> is_ok (ihex_line (length pre + 1) l st) \<and> report = ''line '' @ dec (length pre + 1) @ '': '' @ msg)"

lemma ihex_parse_Err:
  assumes "ihex_parse text' = Err e"
  shows "pinpoints text' (ihex_text rt e)"
proof (cases "ihex_lines 1 (lines text') ihex_init")
  case (Inl e')
  then have fails: "ihex_lines 1 (lines text') ihex_init = Err e"
    using assms by (simp add: ihex_parse_def)
  from ihex_lines_Err [OF this] obtain pre l post st where
    at: "lines text' = pre @ l # post" "ihex_lines 1 pre ihex_init = Ok st" "ihex_line (length pre + 1) l st = Err e"
    by (metis add.commute)
  obtain msg where "ihex_text rt e = ''line '' @ dec (length pre + 1) @ '': '' @ msg"
    using error_line_text [OF ihex_line_Err [OF at(3)]] unfolding at_line_def by blast
  with at have "\<exists>pre l post st msg. lines text' = pre @ l # post \<and> ihex_lines 1 pre ihex_init = Ok st \<and>
      \<not> is_ok (ihex_line (length pre + 1) l st) \<and> ihex_text rt e = ''line '' @ dec (length pre + 1) @ '': '' @ msg"
    by (metis is_ok_simps(1))
  then show ?thesis
    unfolding pinpoints_def fails is_ok_def by (simp only: sum.case if_False)
next
  case (Inr st)
  then show ?thesis
    using assms by (auto simp: pinpoints_def ihex_parse_def ihex_text_def split: if_splits)
qed

section \<open>Properties\<close>

text \<open>
  C21: a bad image is reported by its line. When \<open>flash\<close> is given a \<open>.hex\<close> file whose text
  the reader refuses, no device is touched, and the report is two messages: the outer names
  the file; the inner names the first line that fails, every line before it being accepted,
  or says that the end-of-file record is missing when every line is accepted.
\<close>

theorem bad_hex_reported:
  assumes "cli_cmd c = CmdFlash path" and "path_extension path = Some ext" and "eq_ignore_ascii_case ext ''hex''"
    and "ce_read_to_string env path = Ok text'" and "\<not> is_ok (ihex_parse text')"
  shows "\<exists>e report. cli_main env c w = (Err e, w) \<and> cli_chain rt e = [''parsing '' @ path @ '' as Intel HEX'', report] \<and>
    pinpoints text' report"
proof -
  obtain e where e: "ihex_parse text' = Err e"
    using assms(5) by (cases "ihex_parse text'") auto
  let ?e = "LoadFailed (ParsingHex path e)"
  have "cli_main env c w = (Err ?e, w)"
    using assms(1-4) e by (simp add: cli_main_def flash_input_def load_image_def)
  moreover have "cli_chain rt ?e = [''parsing '' @ path @ '' as Intel HEX'', ihex_text rt e]"
    by (simp add: cli_chain_def load_chain_def)
  ultimately show ?thesis
    using ihex_parse_Err [OF e, of rt] by blast
qed

theorem bad_hex_reported_witness:
  "\<forall>rt. \<exists>e msg. cli_main idle_env (cli_default (CmdFlash ''app.hex'')) 0 = (Err e, 0) \<and>
     cli_chain rt e = [''parsing '' @ ''app.hex'' @ '' as Intel HEX'', ''line '' @ ''1'' @ '': '' @ msg]"
proof
  fix rt :: "unit report_texts"
  let ?c = "cli_default (CmdFlash ''app.hex'')"
  have cmd: "cli_cmd ?c = CmdFlash ''app.hex''" and ext: "path_extension ''app.hex'' = Some ''hex''"
      and hex: "eq_ignore_ascii_case ''hex'' ''hex''" and read: "ce_read_to_string idle_env ''app.hex'' = Ok '':0''"
    by (simp_all add: cli_default_def path_extension_def path_file_name_def eq_ignore_ascii_case_def idle_env_def)
  have lines: "lines '':0'' = ['':0'']"
    by (simp add: lines_def strip_line_def strip_suffix_def)
  have "trim '':0'' = '':0''"
    by (rule trim_plain) (simp_all add: plain_def)
  then have bad: "ihex_lines 1 (lines '':0'') ihex_init = Err (BadHex 1 OddDigits)"
    by (simp add: lines ihex_line_def ihex_init_def decode_hex_def)
  then have fails: "\<not> is_ok (ihex_lines 1 (lines '':0'') ihex_init)"
    by (simp only: is_ok_simps not_False_eq_True)
  have "\<not> is_ok (ihex_parse '':0'')"
    using bad by (simp add: ihex_parse_def)
  from bad_hex_reported [OF cmd ext hex read this, of 0 rt] obtain e report
    where run: "cli_main idle_env ?c 0 = (Err e, 0)" "cli_chain rt e = [''parsing '' @ ''app.hex'' @ '' as Intel HEX'', report]"
      and at: "pinpoints '':0'' report"
    by blast
  from at obtain pre l post msg where "['':0''] = pre @ l # post" and report: "report = ''line '' @ dec (length pre + 1) @ '': '' @ msg"
    unfolding pinpoints_def if_not_P [OF fails] unfolding lines by (elim exE conjE) (rule that; assumption)
  then have "length pre + 1 = 1"
    by (cases pre) simp_all
  moreover have "dec 1 = ''1''"
    by (simp add: dec.simps char_of_def bit_0)
  ultimately have "report = ''line '' @ ''1'' @ '': '' @ msg"
    unfolding report by (simp only:)
  with run show "\<exists>e msg. cli_main idle_env ?c 0 = (Err e, 0) \<and>
      cli_chain rt e = [''parsing '' @ ''app.hex'' @ '' as Intel HEX'', ''line '' @ ''1'' @ '': '' @ msg]"
    by blast
qed

end
