(* ===== verification/Unit_Tests.thy ===== *)
theory Unit_Tests
  imports Cli_Reports
begin

text \<open>
  The unit tests of \<^verbatim>\<open>ihex.rs\<close>, \<^verbatim>\<open>transport.rs\<close>, \<^verbatim>\<open>install.rs\<close> and
  \<^verbatim>\<open>main.rs\<close> on the model. A test is the conjunction of its assertions, \<open>unwrap\<close>
  and \<open>expect\<close> included: it is false where the test would panic. What a test takes from a
  library (the TOML parser, the argument parser, the quoting by \<open>{:?}\<close>) is an argument of it.
\<close>

section \<open>Assertions\<close>

fun contains :: "string \<Rightarrow> string \<Rightarrow> bool" where
  "contains [] needle \<longleftrightarrow> needle = []"
| "contains (c # s) needle \<longleftrightarrow> strip_prefix needle (c # s) \<noteq> None \<or> contains s needle"

text \<open>\<open>x.unwrap() == v\<close>, and an assertion on the text of \<open>x.unwrap_err()\<close>.\<close>

definition unwraps_to :: "'e + 'a \<Rightarrow> 'a \<Rightarrow> bool" where
  "unwraps_to x v \<longleftrightarrow> (case x of Err _ \<Rightarrow> False | Ok a \<Rightarrow> a = v)"

definition fails_with :: "('e \<Rightarrow> string) \<Rightarrow> 'e + 'a \<Rightarrow> string list \<Rightarrow> bool" where
  "fails_with show x needles \<longleftrightarrow> (case x of Err e \<Rightarrow> list_all (contains (show e)) needles | Ok _ \<Rightarrow> False)"

section \<open>Intel HEX\<close>

text \<open>\<open>parse\<close> without the notes.\<close>

definition parse :: "string \<Rightarrow> ihex_error + bytes" where
  "parse text' = try_bind (ihex_parse text') (\<lambda>(out, _). Ok out)"

definition GOLDEN :: string where
  "GOLDEN = '':04000000DEADBEEFC4'' @ newline # '':00000001FF'' @ [newline]"

definition golden_tiny_hex :: bool where
  "golden_tiny_hex \<longleftrightarrow> unwraps_to (parse GOLDEN) [0xDE, 0xAD, 0xBE, 0xEF]"

definition gaps_are_filled_with_ff_and_records_may_be_unordered :: bool where
  "gaps_are_filled_with_ff_and_records_may_be_unordered \<longleftrightarrow>
     (let text' = '':020004001122C7'' @ newline # '':02000000334487'' @ newline # '':00000001FF'' @ [newline]
      in unwraps_to (parse text') [0x33, 0x44, 0xFF, 0xFF, 0x11, 0x22])"

definition bad_checksum_names_the_line :: "'e report_texts \<Rightarrow> bool" where
  "bad_checksum_names_the_line rt \<longleftrightarrow>
     fails_with (ihex_text rt) (parse ('':04000000DEADBEEFC5'' @ newline # '':00000001FF'' @ [newline])) [''checksum'', ''line 1'']"

definition extended_address_records_are_rejected_with_line_number :: "'e report_texts \<Rightarrow> bool" where
  "extended_address_records_are_rejected_with_line_number rt \<longleftrightarrow>
     list_all (\<lambda>(rec, ty).
       fails_with (ihex_text rt) (parse ('':04000000DEADBEEFC4'' @ newline # rec @ newline # '':00000001FF'' @ [newline]))
         [''extended address'', ''line 2'', ty, ''arm-none-eabi-objcopy -O binary''])
       [('':020000021000EC'', ''0x02''), ('':020000040800F2'', ''0x04'')]"

definition start_address_records_are_ignored :: bool where
  "start_address_records_are_ignored \<longleftrightarrow>
     list_all (\<lambda>rec.
       unwraps_to (parse ('':04000000DEADBEEFC4'' @ newline # rec @ newline # '':00000001FF'' @ [newline])) [0xDE, 0xAD, 0xBE, 0xEF])
       ['':0400000300003800C1'', '':0400000500003800BF'']"

definition other_record_types_are_rejected :: "'e report_texts \<Rightarrow> bool" where
  "other_record_types_are_rejected rt \<longleftrightarrow>
     fails_with (ihex_text rt) (parse ('':00000006FA'' @ newline # '':00000001FF'' @ [newline])) [''line 1'', ''0x06'']"

definition structural_defects_are_rejected :: bool where
  "structural_defects_are_rejected \<longleftrightarrow>
     \<not> is_ok (parse ('':04000000DEADBEEFC4'' @ [newline]))
   \<and> \<not> is_ok (parse ('':00000001FF'' @ newline # '':04000000DEADBEEFC4'' @ [newline]))
   \<and> \<not> is_ok (parse (''04000000DEADBEEFC4'' @ newline # '':00000001FF'' @ [newline]))
   \<and> \<not> is_ok (parse ('':04000000DEADBEEFC'' @ newline # '':00000001FF'' @ [newline]))
   \<and> \<not> is_ok (parse ('':04000000DEADBEEFZZ'' @ newline # '':00000001FF'' @ [newline]))
   \<and> \<not> is_ok (parse ('':0400'' @ newline # '':00000001FF'' @ [newline]))
   \<and> \<not> is_ok (parse ('':05000000DEADBEEFC3'' @ newline # '':00000001FF'' @ [newline]))
   \<and> \<not> is_ok (parse [])"

definition blank_lines_and_crlf_are_tolerated :: bool where
  "blank_lines_and_crlf_are_tolerated \<longleftrightarrow>
     (let text' = '':04000000DEADBEEFC4'' @ carriage # newline # carriage # newline # '':00000001FF'' @ [carriage, newline]
      in unwraps_to (parse text') [0xDE, 0xAD, 0xBE, 0xEF])"

lemma trim_Nil [simp]: "trim [] = []"
  by (simp add: trim_def trim_start.simps [of "[]"] trim_end.simps [of "[]"] ws_start_def ws_end_def)

lemmas ihex_eval = parse_def unwraps_to_def ihex_parse_def lines_def strip_line_def strip_suffix_def ihex_line_def
  trim_plain plain_def ihex_init_def decode_hex_def utf8_pair_def from_str_radix_def to_digit_def ihex_record_def
  split_last_def place_def put_at_def u16_from_le_bytes_def replicate_numeral

lemmas text_eval = em_dash_def fails_with_def ihex_text_def at_line_def hex_04_def lower_hex.simps lower_digit_def dec.simps char_of_def bit_0

lemma ihex_tests_pass: golden_tiny_hex gaps_are_filled_with_ff_and_records_may_be_unordered
  start_address_records_are_ignored structural_defects_are_rejected blank_lines_and_crlf_are_tolerated
proof -
  show golden_tiny_hex
    by (simp add: golden_tiny_hex_def GOLDEN_def ihex_eval Let_def)
  show gaps_are_filled_with_ff_and_records_may_be_unordered
    by (simp add: gaps_are_filled_with_ff_and_records_may_be_unordered_def ihex_eval Let_def)
  show start_address_records_are_ignored
    by (simp add: start_address_records_are_ignored_def ihex_eval Let_def)
  show structural_defects_are_rejected
    by (simp add: structural_defects_are_rejected_def ihex_eval Let_def)
  show blank_lines_and_crlf_are_tolerated
    by (simp add: blank_lines_and_crlf_are_tolerated_def ihex_eval Let_def)
qed

lemma ihex_error_tests_pass: "bad_checksum_names_the_line rt" "extended_address_records_are_rejected_with_line_number rt"
  "other_record_types_are_rejected rt"
proof -
  show "bad_checksum_names_the_line rt"
    by (simp add: bad_checksum_names_the_line_def ihex_eval text_eval Let_def)
  show "extended_address_records_are_rejected_with_line_number rt"
    by (simp add: extended_address_records_are_rejected_with_line_number_def ihex_eval text_eval Let_def)
  show "other_record_types_are_rejected rt"
    by (simp add: other_record_types_are_rejected_def ihex_eval text_eval Let_def)
qed

section \<open>The poll budget policy\<close>

text \<open>A backend that records the attempt budget in force at each request.\<close>

record fake_backend =
  fb_seen :: "u32 list"
  fb_attempts :: u32

definition fake_request :: "(fake_backend, unit) request_fn" where
  "fake_request t req rsp = (Ok 0, t\<lparr>fb_seen := fb_seen t @ [fb_attempts t]\<rparr>, rsp)"

definition fake_set_poll_budget :: "poll_budget \<Rightarrow> fake_backend \<Rightarrow> fake_backend" where
  "fake_set_poll_budget poll t = t\<lparr>fb_attempts := max (pb_attempts poll) 1\<rparr>"

definition dyn_over_fake :: "poll_budget \<Rightarrow> fake_backend dyn_transport" where
  "dyn_over_fake base =
     (let inner = fake_set_poll_budget base \<lparr>fb_seen = [], fb_attempts = 0\<rparr>
      in \<lparr>dt_inner = inner, dt_base = base, dt_erase_attempts = pb_attempts base\<rparr>)"

text \<open>The requests of a test in order; every result is unwrapped.\<close>

fun all_unwrap :: "fake_backend dyn_transport \<Rightarrow> bytes list \<Rightarrow> bytes \<Rightarrow> fake_backend dyn_transport option" where
  "all_unwrap t [] rsp = Some t"
| "all_unwrap t (req # reqs) rsp =
     (case dyn_request fake_request fake_set_poll_budget t req rsp of
        (Err _, _, _) \<Rightarrow> None
      | (Ok _, t, rsp) \<Rightarrow> all_unwrap t reqs rsp)"

definition only_erase_requests_run_with_the_raised_budget :: bool where
  "only_erase_requests_run_with_the_raised_budget \<longleftrightarrow>
     (let t = set_erase_attempts (dyn_over_fake \<lparr>pb_attempts = 100, pb_delay_ms = 10\<rparr>) 480
      in map_option (\<lambda>t. fb_seen (dt_inner t))
           (all_unwrap t [[CMD_ERASE_APP, 0, 0], [CMD_INFO, 0, 0], [CMD_ERASE_APP, 0, 0]] [0, 0, 0, 0]) = Some [480, 100, 480])"

definition erase_budget_never_drops_below_the_base :: bool where
  "erase_budget_never_drops_below_the_base \<longleftrightarrow>
     (let t = set_erase_attempts (dyn_over_fake \<lparr>pb_attempts = 1000, pb_delay_ms = 10\<rparr>) 5
      in map_option (\<lambda>t. fb_seen (dt_inner t)) (all_unwrap t [[CMD_ERASE_APP, 0, 0]] [0, 0, 0, 0]) = Some [1000])"

lemma budget_tests_pass: only_erase_requests_run_with_the_raised_budget erase_budget_never_drops_below_the_base
  by (simp_all add: only_erase_requests_run_with_the_raised_budget_def erase_budget_never_drops_below_the_base_def
      dyn_over_fake_def fake_request_def fake_set_poll_budget_def set_erase_attempts_def dyn_request_def get_at_def
      CMD_ERASE_APP_def CMD_INFO_def Let_def)

section \<open>Flags and budgets\<close>

definition addr_parser_accepts_hex_and_decimal_rejects_wide :: bool where
  "addr_parser_accepts_hex_and_decimal_rejects_wide \<longleftrightarrow>
     unwraps_to (parse_addr ''0x20'') 0x20 \<and> unwraps_to (parse_addr ''32'') 32
     \<and> \<not> is_ok (parse_addr ''0x80'') \<and> \<not> is_ok (parse_addr ''nope'')"

definition hex_bytes_parser :: bool where
  "hex_bytes_parser \<longleftrightarrow>
     unwraps_to (parse_hex_bytes ''DEad be ef'') [0xDE, 0xAD, 0xBE, 0xEF]
     \<and> \<not> is_ok (parse_hex_bytes ''ABC'') \<and> \<not> is_ok (parse_hex_bytes ''ZZ'')"

definition erase_attempts_scale_with_the_device_geometry :: bool where
  "erase_attempts_scale_with_the_device_geometry \<longleftrightarrow>
     (let base = \<lparr>pb_attempts = 100, pb_delay_ms = 10\<rparr> in
      erase_poll_attempts 480 base = 480
      \<and> erase_poll_attempts 8192 base = 8192
      \<and> erase_poll_attempts 480 \<lparr>pb_attempts = 1, pb_delay_ms = 7\<rparr> = 686
      \<and> erase_poll_attempts 480 \<lparr>pb_attempts = 1, pb_delay_ms = 0\<rparr> = 4800)"

definition user_poll_attempts_win_when_larger :: bool where
  "user_poll_attempts_win_when_larger \<longleftrightarrow> erase_poll_attempts 8192 \<lparr>pb_attempts = 12000, pb_delay_ms = 10\<rparr> = 12000"

definition describe_names_the_wire :: bool where
  "describe_names_the_wire \<longleftrightarrow>
     describe (SpecI2c ''/dev/i2c-1'' 0x20) = ''/dev/i2c-1 @ 0x20''
     \<and> contains (describe (SpecUart ''/dev/ttyUSB0'' 115200)) ''115200''"

lemma flag_tests_pass: addr_parser_accepts_hex_and_decimal_rejects_wide hex_bytes_parser
  erase_attempts_scale_with_the_device_geometry user_poll_attempts_win_when_larger describe_names_the_wire
proof -
  show addr_parser_accepts_hex_and_decimal_rejects_wide
    by (simp add: addr_parser_accepts_hex_and_decimal_rejects_wide_def parse_addr_def unwraps_to_def from_str_radix_def
        to_digit_def Let_def)
  show hex_bytes_parser
    by (simp add: hex_bytes_parser_def parse_hex_bytes_def unwraps_to_def ws_start_def from_str_radix_def to_digit_def
        utf8_pair_def Let_def)
  show erase_attempts_scale_with_the_device_geometry
    by (simp add: erase_attempts_scale_with_the_device_geometry_def erase_poll_attempts_def div_ceil_def
        u32_saturating_mul_def PER_PAGE_ERASE_WORST_MS_def)
  show user_poll_attempts_win_when_larger
    by (simp add: user_poll_attempts_win_when_larger_def erase_poll_attempts_def div_ceil_def
        u32_saturating_mul_def PER_PAGE_ERASE_WORST_MS_def)
  show describe_names_the_wire
    by (simp add: describe_names_the_wire_def describe_def hex_04_def lower_hex.simps lower_digit_def dec.simps char_of_def bit_0)
qed

section \<open>The wire the flags describe\<close>

text \<open>
  \<open>args\<close> is the argument parser: what it makes of a command line that it accepts. The tests
  below are about these command lines, with what the parser's declarations say of each.
\<close>

definition cli_args :: "(string list \<times> cli) list" where
  "cli_args =
    (let info' = cli_default CmdInfo;
         uart = info'\<lparr>cli_transport := KindUart\<rparr>;
         spi = info'\<lparr>cli_transport := KindSpi\<rparr>;
         gpio = info'\<lparr>cli_transport := KindGpio\<rparr>
     in [([''info''], info'),
         ([''--bus'', ''/dev/i2c-7'', ''--addr'', ''0x11'', ''info''], info'\<lparr>cli_bus := ''/dev/i2c-7'', cli_addr := 0x11\<rparr>),
         ([''--transport'', ''uart'', ''info''], uart),
         ([''--transport'', ''uart'', ''--dev'', ''/dev/ttyACM3'', ''--baud'', ''57600'', ''info''],
           uart\<lparr>cli_dev := Some ''/dev/ttyACM3'', cli_baud := 57600\<rparr>),
         ([''--transport'', ''uart'', ''--baud'', ''12345'', ''info''], uart\<lparr>cli_baud := 12345\<rparr>),
         ([''--transport'', ''spi'', ''info''], spi),
         ([''--transport'', ''spi'', ''--dev'', ''/dev/spidev1.2'', ''--speed-hz'', ''250000'', ''info''],
           spi\<lparr>cli_dev := Some ''/dev/spidev1.2'', cli_speed_hz := 250000\<rparr>),
         ([''--transport'', ''gpio'', ''info''], gpio),
         ([''--transport'', ''gpio'', ''--pin-tx'', ''4'', ''info''], gpio\<lparr>cli_pin_tx := Some 4\<rparr>),
         ([''--transport'', ''gpio'', ''--pin-tx'', ''4'', ''--pin-rx'', ''4'', ''info''],
           gpio\<lparr>cli_pin_tx := Some 4, cli_pin_rx := Some 4\<rparr>),
         ([''--transport'', ''gpio'', ''--chip'', ''/dev/gpiochip2'', ''--pin-tx'', ''17'', ''--pin-rx'', ''27'', ''info''],
           gpio\<lparr>cli_chip := ''/dev/gpiochip2'', cli_pin_tx := Some 17, cli_pin_rx := Some 27\<rparr>)])"

definition parses_args :: "(string list \<Rightarrow> cli) \<Rightarrow> bool" where
  "parses_args args \<longleftrightarrow> list_all (\<lambda>(words, c). args words = c) cli_args"

definition default_spec_is_i2c_with_bus_and_addr :: "(string list \<Rightarrow> cli) \<Rightarrow> bool" where
  "default_spec_is_i2c_with_bus_and_addr args \<longleftrightarrow>
     (let c = args [''info'']
      in unwraps_to (build_spec c) (SpecI2c ''/dev/i2c-1'' 0x20) \<and> (cli_poll_attempts c, cli_poll_delay_ms c) = (100, 10))"

definition i2c_spec_honors_bus_and_addr_flags :: "(string list \<Rightarrow> cli) \<Rightarrow> bool" where
  "i2c_spec_honors_bus_and_addr_flags args \<longleftrightarrow>
     unwraps_to (build_spec (args [''--bus'', ''/dev/i2c-7'', ''--addr'', ''0x11'', ''info''])) (SpecI2c ''/dev/i2c-7'' 0x11)"

definition uart_spec_defaults_dev_and_baud :: "(string list \<Rightarrow> cli) \<Rightarrow> bool" where
  "uart_spec_defaults_dev_and_baud args \<longleftrightarrow>
     unwraps_to (build_spec (args [''--transport'', ''uart'', ''info''])) (SpecUart ''/dev/ttyUSB0'' 115200)"

definition uart_spec_honors_dev_and_baud :: "(string list \<Rightarrow> cli) \<Rightarrow> bool" where
  "uart_spec_honors_dev_and_baud args \<longleftrightarrow>
     unwraps_to (build_spec (args [''--transport'', ''uart'', ''--dev'', ''/dev/ttyACM3'', ''--baud'', ''57600'', ''info'']))
       (SpecUart ''/dev/ttyACM3'' 57600)"

definition uart_spec_rejects_unsupported_baud_naming_the_supported_set :: "(string list \<Rightarrow> cli) \<Rightarrow> bool" where
  "uart_spec_rejects_unsupported_baud_naming_the_supported_set args \<longleftrightarrow>
     fails_with spec_text (build_spec (args [''--transport'', ''uart'', ''--baud'', ''12345'', ''info''])) [''12345'', ''115200'']"

definition spi_spec_defaults_dev_and_speed :: "(string list \<Rightarrow> cli) \<Rightarrow> bool" where
  "spi_spec_defaults_dev_and_speed args \<longleftrightarrow>
     unwraps_to (build_spec (args [''--transport'', ''spi'', ''info''])) (SpecSpi ''/dev/spidev0.0'' 100000)"

definition spi_spec_honors_dev_and_speed :: "(string list \<Rightarrow> cli) \<Rightarrow> bool" where
  "spi_spec_honors_dev_and_speed args \<longleftrightarrow>
     unwraps_to (build_spec (args [''--transport'', ''spi'', ''--dev'', ''/dev/spidev1.2'', ''--speed-hz'', ''250000'', ''info'']))
       (SpecSpi ''/dev/spidev1.2'' 250000)"

definition gpio_spec_requires_both_pins :: "(string list \<Rightarrow> cli) \<Rightarrow> bool" where
  "gpio_spec_requires_both_pins args \<longleftrightarrow>
     fails_with spec_text (build_spec (args [''--transport'', ''gpio'', ''info''])) [''--pin-tx'']
     \<and> fails_with spec_text (build_spec (args [''--transport'', ''gpio'', ''--pin-tx'', ''4'', ''info''])) [''--pin-rx'']"

definition gpio_spec_rejects_equal_pins :: "(string list \<Rightarrow> cli) \<Rightarrow> bool" where
  "gpio_spec_rejects_equal_pins args \<longleftrightarrow>
     \<not> is_ok (build_spec (args [''--transport'', ''gpio'', ''--pin-tx'', ''4'', ''--pin-rx'', ''4'', ''info'']))"

definition gpio_spec_builds_with_chip_and_pins :: "(string list \<Rightarrow> cli) \<Rightarrow> bool" where
  "gpio_spec_builds_with_chip_and_pins args \<longleftrightarrow>
     unwraps_to (build_spec (args [''--transport'', ''gpio'', ''--chip'', ''/dev/gpiochip2'', ''--pin-tx'', ''17'', ''--pin-rx'', ''27'', ''info'']))
       (SpecGpio ''/dev/gpiochip2'' 17 27)"

lemmas spec_tests = default_spec_is_i2c_with_bus_and_addr_def i2c_spec_honors_bus_and_addr_flags_def
  uart_spec_defaults_dev_and_baud_def uart_spec_honors_dev_and_baud_def uart_spec_rejects_unsupported_baud_naming_the_supported_set_def
  spi_spec_defaults_dev_and_speed_def spi_spec_honors_dev_and_speed_def gpio_spec_requires_both_pins_def
  gpio_spec_rejects_equal_pins_def gpio_spec_builds_with_chip_and_pins_def

lemma supported_bauds_text: "supported_bauds = ''9600, 19200, 38400, 57600, 115200, 230400''"
  by (simp add: supported_bauds_def SUPPORTED_BAUDS_def, simp add: dec.simps char_of_def bit_0)

lemma spec_tests_pass:
  assumes "parses_args args"
  shows "default_spec_is_i2c_with_bus_and_addr args" "i2c_spec_honors_bus_and_addr_flags args"
    "uart_spec_defaults_dev_and_baud args" "uart_spec_honors_dev_and_baud args" "uart_spec_rejects_unsupported_baud_naming_the_supported_set args"
    "spi_spec_defaults_dev_and_speed args" "spi_spec_honors_dev_and_speed args" "gpio_spec_requires_both_pins args"
    "gpio_spec_rejects_equal_pins args" "gpio_spec_builds_with_chip_and_pins args"
proof -
  have args: "list_all (\<lambda>(words, c). args words = c) cli_args"
    using assms by (simp add: parses_args_def)
  note read = args [unfolded cli_args_def Let_def list.pred_inject prod.case]
  note eval = build_spec_def unwraps_to_def cli_default_def SUPPORTED_BAUDS_def
  show "default_spec_is_i2c_with_bus_and_addr args"
    using read by (simp only: default_spec_is_i2c_with_bus_and_addr_def Let_def) (simp add: eval CLI_POLL_ATTEMPTS_def CLI_POLL_DELAY_MS_def)
  show "i2c_spec_honors_bus_and_addr_flags args"
    using read by (simp only: i2c_spec_honors_bus_and_addr_flags_def) (simp add: eval)
  show "uart_spec_defaults_dev_and_baud args"
    using read by (simp only: uart_spec_defaults_dev_and_baud_def) (simp add: eval)
  show "uart_spec_honors_dev_and_baud args"
    using read by (simp only: uart_spec_honors_dev_and_baud_def) (simp add: eval)
  show "uart_spec_rejects_unsupported_baud_naming_the_supported_set args"
    using read by (simp only: uart_spec_rejects_unsupported_baud_naming_the_supported_set_def)
      (simp add: eval fails_with_def spec_text_def supported_bauds_text dec.simps char_of_def bit_0)
  show "spi_spec_defaults_dev_and_speed args"
    using read by (simp only: spi_spec_defaults_dev_and_speed_def) (simp add: eval)
  show "spi_spec_honors_dev_and_speed args"
    using read by (simp only: spi_spec_honors_dev_and_speed_def) (simp add: eval)
  show "gpio_spec_requires_both_pins args"
    using read by (simp only: gpio_spec_requires_both_pins_def) (simp add: eval fails_with_def spec_text_def)
  show "gpio_spec_rejects_equal_pins args"
    using read by (simp only: gpio_spec_rejects_equal_pins_def) (simp add: eval)
  show "gpio_spec_builds_with_chip_and_pins args"
    using read by (simp only: gpio_spec_builds_with_chip_and_pins_def) (simp add: eval)
qed

text \<open>The two tests of the flags that \<open>install\<close> refuses; \<open>sources\<close> tells which flags a command line gave.\<close>

definition install_rejects_transport_flags_wherever_they_sit ::
  "'e report_texts \<Rightarrow> (string list \<Rightarrow> (string \<Rightarrow> bool) \<times> (string \<Rightarrow> bool) option) \<Rightarrow> bool"
where
  "install_rejects_transport_flags_wherever_they_sit rt sources \<longleftrightarrow>
     list_all (\<lambda>(words, flag).
        (case sources words of (from_cli, sub) \<Rightarrow>
           fails_with (\<lambda>offenders. hd (cli_chain rt (TransportFlags offenders))) (reject_transport_flags from_cli sub)
             [flag, ''debug adapter'']))
       [([''--transport'', ''uart'', ''install'', ''--target'', ''t'', ''--image'', ''x''], ''--transport''),
        ([''install'', ''--bus'', ''/dev/i2c-9'', ''--target'', ''t'', ''--image'', ''x''], ''--bus'')]"

definition install_without_transport_flags_passes_the_gate ::
  "(string list \<Rightarrow> (string \<Rightarrow> bool) \<times> (string \<Rightarrow> bool) option) \<Rightarrow> bool"
where
  "install_without_transport_flags_passes_the_gate sources \<longleftrightarrow>
     (case sources [''install'', ''--target'', ''t'', ''--image'', ''x''] of (from_cli, sub) \<Rightarrow> is_ok (reject_transport_flags from_cli sub))"

text \<open>A flag that precedes the subcommand is seen by both matches, for flags are global.\<close>

definition reads_sources :: "(string list \<Rightarrow> (string \<Rightarrow> bool) \<times> (string \<Rightarrow> bool) option) \<Rightarrow> bool" where
  "reads_sources sources \<longleftrightarrow>
     sources [''--transport'', ''uart'', ''install'', ''--target'', ''t'', ''--image'', ''x''] =
       (\<lambda>f. f = ''transport'', Some (\<lambda>f. f \<in> {''transport'', ''target'', ''image''}))
     \<and> sources [''install'', ''--bus'', ''/dev/i2c-9'', ''--target'', ''t'', ''--image'', ''x''] =
       (\<lambda>f. f = ''bus'', Some (\<lambda>f. f \<in> {''bus'', ''target'', ''image''}))
     \<and> sources [''install'', ''--target'', ''t'', ''--image'', ''x''] = (\<lambda>_. False, Some (\<lambda>f. f \<in> {''target'', ''image''}))"

lemma offenders_text:
  "hd (cli_chain rt (TransportFlags xs)) =
    ''install talks to a debug adapter (avrdude/probe-rs/...), never the updater wire '' @ em_dash @ '' drop '' @ join_by '', '' xs"
  by (simp add: cli_chain_def)

lemma install_offenders:
  "reject_transport_flags (\<lambda>f. f = ''transport'') (Some (\<lambda>f. f \<in> {''transport'', ''target'', ''image''})) = Err [''--transport'']"
  "reject_transport_flags (\<lambda>f. f = ''bus'') (Some (\<lambda>f. f \<in> {''bus'', ''target'', ''image''})) = Err [''--bus'']"
  "reject_transport_flags (\<lambda>_. False) (Some (\<lambda>f. f \<in> {''target'', ''image''})) = Ok ()"
  by (simp_all add: reject_transport_flags_def TRANSPORT_FLAGS_def)

lemma install_flag_tests_pass:
  assumes "reads_sources sources"
  shows "install_rejects_transport_flags_wherever_they_sit rt sources" "install_without_transport_flags_passes_the_gate sources"
proof -
  show "install_rejects_transport_flags_wherever_they_sit rt sources"
    using assms unfolding reads_sources_def install_rejects_transport_flags_wherever_they_sit_def offenders_text
    by (simp only: list.pred_inject prod.case install_offenders fails_with_def sum.case) (simp add: em_dash_def)
  show "install_without_transport_flags_passes_the_gate sources"
    using assms unfolding install_without_transport_flags_passes_the_gate_def reads_sources_def
    by (simp only: prod.case install_offenders) simp
qed

section \<open>Programmer templates\<close>

text \<open>The configurations of the tests, with what the TOML parser makes of each.\<close>

definition toml_line :: "string \<Rightarrow> string \<Rightarrow> string" where
  "toml_line key v = key @ '' = '' @ v @ [newline]"

definition toml_list :: "string list \<Rightarrow> string" where
  "toml_list vs = ''['' @ join_by '', '' vs @ '']''"

definition REFERENCE :: string where
  "REFERENCE =
     newline # ''[targets.avr64ea28-updi]'' @ newline #
     toml_line ''tool'' (quoted ''avrdude'') @
     toml_line ''args'' (toml_list (map quoted
       [''-c'', ''atmelice_updi'', ''-p'', ''avr64ea28'', ''-U'', ''flash:w:{image}:i''])) @
     toml_line ''pre'' (toml_list [toml_list (map quoted [''avrdude'', ''-U'', ''bootsize:w:8:m''])]) @
     toml_line ''port_arg'' (quoted ''-P'')"

definition reference_target :: target where
  "reference_target =
     \<lparr>tg_tool = ''avrdude'',
      tg_args = [''-c'', ''atmelice_updi'', ''-p'', ''avr64ea28'', ''-U'', ''flash:w:{image}:i''],
      tg_pre = [[''avrdude'', ''-U'', ''bootsize:w:8:m'']], tg_port_arg = Some ''-P''\<rparr>"

text \<open>The other tests have one target \<open>x\<close> with the tool \<open>t\<close>.\<close>

definition x_toml :: "string list \<Rightarrow> string list list \<Rightarrow> string" where
  "x_toml args pre =
     ''[targets.x]'' @ newline # toml_line ''tool'' (quoted ''t'') @ toml_line ''args'' (toml_list (map quoted args)) @
     (if pre = [] then [] else toml_line ''pre'' (toml_list (map (\<lambda>step. toml_list (map quoted step)) pre)))"

definition x_target :: "string list \<Rightarrow> string list list \<Rightarrow> target" where
  "x_target args pre = \<lparr>tg_tool = ''t'', tg_args = args, tg_pre = pre, tg_port_arg = None\<rparr>"

definition no_tool_toml :: string where
  "no_tool_toml = ''[targets.pico]'' @ newline # toml_line ''tool'' (quoted []) @ toml_line ''args'' (toml_list [])"

definition toml_reads :: "('w, 'e) install_os \<Rightarrow> bool" where
  "toml_reads os \<longleftrightarrow>
     io_toml os REFERENCE = Ok \<lparr>ic_targets = [(''avr64ea28-updi'', reference_target)]\<rparr>
   \<and> io_toml os no_tool_toml =
       Ok \<lparr>ic_targets = [(''pico'', \<lparr>tg_tool = [], tg_args = [], tg_pre = [], tg_port_arg = None\<rparr>)]\<rparr>
   \<and> list_all (\<lambda>(args, pre). io_toml os (x_toml args pre) = Ok \<lparr>ic_targets = [(''x'', x_target args pre)]\<rparr>)
       [([], [[]]), ([''--port={port}'', ''{image}''], []), ([''{port}''], []), ([''{flash}''], []), ([CHR ''o'' # ''ops{image''], []),
        ([''{image}''], []), ([''{image}''], [[''fuse-tool'', ''write'', ''{image}'']]),
        ([''{image}''], [[''fuse-tool'', ''{port}'']])]"

text \<open>The strings that \<open>{:?}\<close> quotes in the tests; only the tab needs an escape.\<close>

definition debug_reads :: "(string \<Rightarrow> string) \<Rightarrow> bool" where
  "debug_reads dbg \<longleftrightarrow>
     list_all (\<lambda>s. dbg s = quoted s)
       [[], ''with space'', ''rp2040'', ''{port}'', ''{flash}'', (CHR ''o'' # ''ops{image''), ''/dev/ttyACM0'', ''avrdude'']
   \<and> dbg (''tab'' @ CHR 0x09 # ''here'') = quoted (''tab'' @ CHR 0x5C # ''there'')"

definition target_of :: "('w, 'e) install_os \<Rightarrow> string \<Rightarrow> string \<Rightarrow> target option" where
  "target_of os toml_text name =
     (case parse_config os toml_text ''test.toml'' of Err _ \<Rightarrow> None | Ok cfg \<Rightarrow> map_of (ic_targets cfg) name)"

text \<open>\<open>plan\<close> of a target that must exist, and an assertion on its commands or on the text of its error.\<close>

definition planned ::
  "('w, 'e) install_os \<Rightarrow> string \<Rightarrow> string \<Rightarrow> string option \<Rightarrow> (invocation list \<Rightarrow> bool) \<Rightarrow> bool"
where
  "planned os toml_text name port ok \<longleftrightarrow>
     (case target_of os toml_text name of
        None \<Rightarrow> False
      | Some t \<Rightarrow> case plan t ''fw.hex'' port :: 'e install_error + invocation list of Err _ \<Rightarrow> False | Ok invs \<Rightarrow> ok invs)"

definition not_planned ::
  "'e report_texts \<Rightarrow> ('w, 'e) install_os \<Rightarrow> string \<Rightarrow> string option \<Rightarrow> string list \<Rightarrow> bool"
where
  "not_planned rt os toml_text port needles \<longleftrightarrow>
     (case target_of os toml_text ''x'' of
        None \<Rightarrow> False
      | Some t \<Rightarrow> fails_with (\<lambda>e. alternate (install_chain rt e)) (plan t ''fw.hex'' port) needles)"

text \<open>Configurations that are accepted or refused.\<close>

definition parses_the_full_schema :: "('w, 'e) install_os \<Rightarrow> bool" where
  "parses_the_full_schema os \<longleftrightarrow>
     (case try_bind (parse_config os REFERENCE ''install.toml'')
             (\<lambda>cfg. config_target cfg ''avr64ea28-updi'' ''install.toml'') of
        Err _ \<Rightarrow> False
      | Ok t \<Rightarrow> tg_tool t = ''avrdude'' \<and> get_at (tg_args t) 4 = Some ''-U''
          \<and> tg_pre t = [[''avrdude'', ''-U'', ''bootsize:w:8:m'']] \<and> tg_port_arg t = Some ''-P'')"

definition empty_tool_rejected_naming_the_target :: "'e report_texts \<Rightarrow> ('w, 'e) install_os \<Rightarrow> bool" where
  "empty_tool_rejected_naming_the_target rt os \<longleftrightarrow>
     fails_with (\<lambda>e. alternate (install_chain rt e)) (parse_config os no_tool_toml ''install.toml'') [''pico'', ''tool'']"

definition empty_pre_step_rejected :: "'e report_texts \<Rightarrow> ('w, 'e) install_os \<Rightarrow> bool" where
  "empty_pre_step_rejected rt os \<longleftrightarrow>
     fails_with (\<lambda>e. alternate (install_chain rt e)) (parse_config os (x_toml [] [[]]) ''install.toml'') [''pre'']"

definition unknown_target_lists_available_ones :: "'e report_texts \<Rightarrow> ('w, 'e) install_os \<Rightarrow> bool" where
  "unknown_target_lists_available_ones rt os \<longleftrightarrow>
     (case parse_config os REFERENCE ''my.toml'' of
        Err _ \<Rightarrow> False
      | Ok cfg \<Rightarrow> fails_with (\<lambda>e. alternate (install_chain rt e)) (config_target cfg ''rp2040'' ''my.toml'')
                    [''rp2040'', ''avr64ea28-updi'', ''my.toml''])"

text \<open>Placeholders and the port.\<close>

definition image_placeholder_expands_inside_a_token :: "('w, 'e) install_os \<Rightarrow> bool" where
  "image_placeholder_expands_inside_a_token os \<longleftrightarrow>
     planned os REFERENCE ''avr64ea28-updi'' None (\<lambda>invs. last (inv_args (last invs)) = ''flash:w:fw.hex:i'')"

definition port_placeholder_expands_when_port_given :: "('w, 'e) install_os \<Rightarrow> bool" where
  "port_placeholder_expands_when_port_given os \<longleftrightarrow>
     planned os (x_toml [''--port={port}'', ''{image}''] []) ''x'' (Some ''/dev/ttyACM0'')
       (\<lambda>invs. inv_args (invs ! 0) = [''--port=/dev/ttyACM0'', ''fw.hex''])"

definition port_placeholder_without_port_flag_errors_actionably :: "'e report_texts \<Rightarrow> ('w, 'e) install_os \<Rightarrow> bool" where
  "port_placeholder_without_port_flag_errors_actionably rt os \<longleftrightarrow> not_planned rt os (x_toml [''{port}''] []) None [''--port'']"

definition unknown_placeholder_rejected_by_name :: "'e report_texts \<Rightarrow> ('w, 'e) install_os \<Rightarrow> bool" where
  "unknown_placeholder_rejected_by_name rt os \<longleftrightarrow>
     not_planned rt os (x_toml [''{flash}''] []) None [''{flash}'', ''{image}'', ''{port}'']"

definition unmatched_brace_rejected :: "'e report_texts \<Rightarrow> ('w, 'e) install_os \<Rightarrow> bool" where
  "unmatched_brace_rejected rt os \<longleftrightarrow> not_planned rt os (x_toml [(CHR ''o'' # ''ops{image'')] []) None [(CHR ''o'' # ''ops{image'')]"

definition port_flag_appends_port_arg_pair_when_template_has_no_port :: "('w, 'e) install_os \<Rightarrow> bool" where
  "port_flag_appends_port_arg_pair_when_template_has_no_port os \<longleftrightarrow>
     planned os REFERENCE ''avr64ea28-updi'' (Some ''/dev/ttyACM1'')
       (\<lambda>invs. let args = inv_args (last invs) in drop (length args - 2) args = [''-P'', ''/dev/ttyACM1''])"

definition port_flag_without_any_port_slot_errors :: "'e report_texts \<Rightarrow> ('w, 'e) install_os \<Rightarrow> bool" where
  "port_flag_without_any_port_slot_errors rt os \<longleftrightarrow>
     not_planned rt os (x_toml [''{image}''] []) (Some ''/dev/ttyACM0'') [''{port}'', ''port_arg'']"

definition no_port_means_no_injection :: "('w, 'e) install_os \<Rightarrow> bool" where
  "no_port_means_no_injection os \<longleftrightarrow>
     planned os REFERENCE ''avr64ea28-updi'' None (\<lambda>invs. ''-P'' \<notin> set (inv_args (last invs)))"

definition pre_steps_run_first_expanded_with_literal_tool :: "('w, 'e) install_os \<Rightarrow> bool" where
  "pre_steps_run_first_expanded_with_literal_tool os \<longleftrightarrow>
     planned os (x_toml [''{image}''] [[''fuse-tool'', ''write'', ''{image}'']]) ''x'' None
       (\<lambda>invs. length invs = 2 \<and> invs ! 0 = \<lparr>inv_tool = ''fuse-tool'', inv_args = [''write'', ''fw.hex'']\<rparr>
          \<and> inv_tool (invs ! 1) = ''t'')"

definition port_used_only_in_pre_still_counts_as_consumed :: "('w, 'e) install_os \<Rightarrow> bool" where
  "port_used_only_in_pre_still_counts_as_consumed os \<longleftrightarrow>
     planned os (x_toml [''{image}''] [[''fuse-tool'', ''{port}'']]) ''x'' (Some ''/dev/ttyACM0'')
       (\<lambda>invs. inv_args (invs ! 0) = [''/dev/ttyACM0''] \<and> inv_args (invs ! 1) = [''fw.hex''])"

text \<open>The echo line and the search for the tool.\<close>

definition display_arg_quotes_whitespace_and_empty_only :: "('w, 'e) install_os \<Rightarrow> bool" where
  "display_arg_quotes_whitespace_and_empty_only os \<longleftrightarrow>
     display_arg os ''plain'' = ''plain''
     \<and> display_arg os ''flash:w:fw.hex:i'' = ''flash:w:fw.hex:i''
     \<and> display_arg os ''with space'' = quoted ''with space''
     \<and> display_arg os [] = quoted []
     \<and> display_arg os (''tab'' @ CHR 0x09 # ''here'') = quoted (''tab'' @ CHR 0x5C # ''there'')"

definition missing_tool_error_names_the_install_ladder :: "'e report_texts \<Rightarrow> ('w, 'e) install_os \<Rightarrow> bool" where
  "missing_tool_error_names_the_install_ladder rt os \<longleftrightarrow>
     fails_with (\<lambda>e. alternate (install_chain rt e)) (resolve_tool_in os ''avrdude'' ''/nonexistent'')
       [''avrdude'', ''apt install avrdude'', ''probe-rs-tools'', ''openocd'']"

definition path_like_tool_is_checked_directly_not_via_path :: "'e report_texts \<Rightarrow> ('w, 'e) install_os \<Rightarrow> bool" where
  "path_like_tool_is_checked_directly_not_via_path rt os \<longleftrightarrow>
     fails_with (\<lambda>e. alternate (install_chain rt e)) (resolve_tool_in os ''/no/such/dir/avrdude'' ''/usr/bin'')
       [''/no/such/dir/avrdude'']"

lemma parsed_reference:
  assumes "toml_reads os"
  shows "parse_config os REFERENCE source = Ok \<lparr>ic_targets = [(''avr64ea28-updi'', reference_target)]\<rparr>"
proof -
  have "io_toml os REFERENCE = Ok \<lparr>ic_targets = [(''avr64ea28-updi'', reference_target)]\<rparr>"
    using assms by (simp only: toml_reads_def)
  then show ?thesis
    by (simp add: parse_config_def reference_target_def trim_plain plain_def)
qed

lemma target_of_reference: "toml_reads os \<Longrightarrow> target_of os REFERENCE ''avr64ea28-updi'' = Some reference_target"
  by (simp add: target_of_def parsed_reference)

lemma target_of_x:
  assumes "io_toml os (x_toml args pre) = Ok \<lparr>ic_targets = [(''x'', x_target args pre)]\<rparr>"
    and "list_all (\<lambda>step. step \<noteq> [] \<and> trim (hd step) \<noteq> []) pre"
  shows "target_of os (x_toml args pre) ''x'' = Some (x_target args pre)"
proof -
  have "check_pre source name i pre = (Ok () :: 'a install_error + unit)" for source name i
    using assms(2) by (induction pre arbitrary: i) (auto split: list.splits)
  then show ?thesis
    using assms(1) by (simp add: target_of_def parse_config_def x_target_def trim_plain plain_def)
qed

lemmas x_reads = toml_reads_def list.pred_inject prod.case

lemmas plan_eval = plan_def expand_one_def expand_loop.simps x_target_def reference_target_def

lemma config_tests_pass:
  assumes "toml_reads os" and "debug_reads (rt_debug_str rt)"
  shows "parses_the_full_schema os" "empty_tool_rejected_naming_the_target rt os" "empty_pre_step_rejected rt os"
    "unknown_target_lists_available_ones rt os"
proof -
  show "parses_the_full_schema os"
    by (simp add: parses_the_full_schema_def parsed_reference [OF assms(1)] config_target_def reference_target_def get_at_def)
  have "parse_config os no_tool_toml ''install.toml'' = Err (EmptyTool ''install.toml'' ''pico'')"
    using assms(1) unfolding x_reads by (elim conjE) (simp add: parse_config_def)
  then show "empty_tool_rejected_naming_the_target rt os"
    by (simp add: empty_tool_rejected_naming_the_target_def fails_with_def install_chain_defs alternate_def em_dash_def)
  have "parse_config os (x_toml [] [[]]) ''install.toml'' = Err (EmptyPre ''install.toml'' ''x'' 0)"
    using assms(1) unfolding x_reads by (elim conjE) (simp add: parse_config_def x_target_def trim_plain plain_def)
  then show "empty_pre_step_rejected rt os"
    by (simp add: empty_pre_step_rejected_def fails_with_def install_chain_defs alternate_def em_dash_def)
  have "rt_debug_str rt ''rp2040'' = quoted ''rp2040''"
    using assms(2) by (simp add: debug_reads_def)
  then show "unknown_target_lists_available_ones rt os"
    by (simp add: unknown_target_lists_available_ones_def parsed_reference [OF assms(1)] config_target_def fails_with_def
        install_chain_defs alternate_def em_dash_def quoted_def)
qed

lemma plan_tests_pass:
  assumes "toml_reads os"
  shows "image_placeholder_expands_inside_a_token os" "port_placeholder_expands_when_port_given os"
    "port_flag_appends_port_arg_pair_when_template_has_no_port os" "no_port_means_no_injection os"
    "pre_steps_run_first_expanded_with_literal_tool os" "port_used_only_in_pre_still_counts_as_consumed os"
proof -
  note reads = assms [unfolded x_reads]
  show "image_placeholder_expands_inside_a_token os"
    by (simp add: image_placeholder_expands_inside_a_token_def planned_def target_of_reference [OF assms] plan_eval)
  show "port_flag_appends_port_arg_pair_when_template_has_no_port os"
    by (simp add: port_flag_appends_port_arg_pair_when_template_has_no_port_def planned_def target_of_reference [OF assms] plan_eval)
  show "no_port_means_no_injection os"
    by (simp add: no_port_means_no_injection_def planned_def target_of_reference [OF assms] plan_eval)
  have "target_of os (x_toml [''--port={port}'', ''{image}''] []) ''x'' = Some (x_target [''--port={port}'', ''{image}''] [])"
    using reads by (intro target_of_x) simp_all
  then show "port_placeholder_expands_when_port_given os"
    by (simp add: port_placeholder_expands_when_port_given_def planned_def plan_eval)
  have "target_of os (x_toml [''{image}''] [[''fuse-tool'', ''write'', ''{image}'']]) ''x'' =
      Some (x_target [''{image}''] [[''fuse-tool'', ''write'', ''{image}'']])"
    using reads by (intro target_of_x) (simp_all add: trim_plain plain_def)
  then show "pre_steps_run_first_expanded_with_literal_tool os"
    by (simp add: pre_steps_run_first_expanded_with_literal_tool_def planned_def plan_eval)
  have "target_of os (x_toml [''{image}''] [[''fuse-tool'', ''{port}'']]) ''x'' =
      Some (x_target [''{image}''] [[''fuse-tool'', ''{port}'']])"
    using reads by (intro target_of_x) (simp_all add: trim_plain plain_def)
  then show "port_used_only_in_pre_still_counts_as_consumed os"
    by (simp add: port_used_only_in_pre_still_counts_as_consumed_def planned_def plan_eval)
qed

lemma refused_by:
  assumes "target_of os toml_text ''x'' = Some t" and "plan t ''fw.hex'' port = (Err e :: 'e install_error + invocation list)"
    and "list_all (contains (alternate (install_chain rt e))) needles"
  shows "not_planned rt (os :: ('w, 'e) install_os) toml_text port needles"
  using assms by (simp add: not_planned_def fails_with_def)

lemma plan_error_tests_pass:
  assumes "toml_reads os" and "debug_reads (rt_debug_str rt)"
  shows "port_placeholder_without_port_flag_errors_actionably rt os" "unknown_placeholder_rejected_by_name rt os"
    "unmatched_brace_rejected rt os" "port_flag_without_any_port_slot_errors rt os"
proof -
  note reads = assms(1) [unfolded x_reads] and dbg = assms(2) [unfolded debug_reads_def list.pred_inject]
  note text' = install_chain_defs alternate_def em_dash_def quoted_def tick_def
  have "target_of os (x_toml [''{port}''] []) ''x'' = Some (x_target [''{port}''] [])"
    using reads by (intro target_of_x) simp_all
  then show "port_placeholder_without_port_flag_errors_actionably rt os"
    unfolding port_placeholder_without_port_flag_errors_actionably_def
    by (rule refused_by [where e = "NeedsPort ''{port}''"]) (use dbg in \<open>simp_all add: plan_eval text'\<close>)
  have "target_of os (x_toml [''{flash}''] []) ''x'' = Some (x_target [''{flash}''] [])"
    using reads by (intro target_of_x) simp_all
  then show "unknown_placeholder_rejected_by_name rt os"
    unfolding unknown_placeholder_rejected_by_name_def
    by (rule refused_by [where e = "UnknownPlaceholder ''flash'' ''{flash}''"]) (use dbg in \<open>simp_all add: plan_eval text'\<close>)
  have "target_of os (x_toml [(CHR ''o'' # ''ops{image'')] []) ''x'' = Some (x_target [(CHR ''o'' # ''ops{image'')] [])"
    using reads by (intro target_of_x) simp_all
  then show "unmatched_brace_rejected rt os"
    unfolding unmatched_brace_rejected_def
    by (rule refused_by [where e = "UnclosedBrace (CHR ''o'' # ''ops{image'')"]) (use dbg in \<open>simp_all add: plan_eval text'\<close>)
  have "target_of os (x_toml [''{image}''] []) ''x'' = Some (x_target [''{image}''] [])"
    using reads by (intro target_of_x) simp_all
  then show "port_flag_without_any_port_slot_errors rt os"
    unfolding port_flag_without_any_port_slot_errors_def
    by (rule refused_by [where e = "PortNotAccepted ''/dev/ttyACM0''"]) (use dbg in \<open>simp_all add: plan_eval text'\<close>)
qed

text \<open>No file of these names exists where the tests run.\<close>

lemma tool_tests_pass:
  assumes "debug_reads (rt_debug_str rt)" and "debug_reads (io_debug_str os)"
    and "io_metadata os ''/nonexistent/avrdude'' = None" and "io_metadata os ''/no/such/dir/avrdude'' = None"
  shows "display_arg_quotes_whitespace_and_empty_only os" "missing_tool_error_names_the_install_ladder rt os"
    "path_like_tool_is_checked_directly_not_via_path rt os"
proof -
  show "display_arg_quotes_whitespace_and_empty_only os"
    using assms(2) by (simp add: display_arg_quotes_whitespace_and_empty_only_def display_arg_def debug_reads_def
        ws_start_def)
  have "resolve_tool_in os ''avrdude'' ''/nonexistent'' = Err (ToolNotFound ''avrdude'')"
    using assms(3) by (simp add: resolve_tool_in_def is_executable_def path_join_def)
  then show "missing_tool_error_names_the_install_ladder rt os"
    using assms(1) by (simp add: missing_tool_error_names_the_install_ladder_def fails_with_def install_chain_defs
        alternate_def em_dash_def tick_def quoted_def debug_reads_def)
  have "resolve_tool_in os ''/no/such/dir/avrdude'' ''/usr/bin'' = Err (ToolNotExecutable ''/no/such/dir/avrdude'')"
    using assms(4) by (simp add: resolve_tool_in_def is_executable_def)
  then show "path_like_tool_is_checked_directly_not_via_path rt os"
    by (simp add: path_like_tool_is_checked_directly_not_via_path_def fails_with_def install_chain_defs alternate_def em_dash_def)
qed

end
