(* ===== verification/Kani_Harnesses.thy ===== *)
theory Kani_Harnesses
  imports Session Stream_Scanner
begin

text \<open>
  The obligations that \<^verbatim>\<open>updater-core\<close> states about itself: the Kani harnesses of
  \<^verbatim>\<open>frame.rs\<close>, \<^verbatim>\<open>image.rs\<close>, \<^verbatim>\<open>stream.rs\<close> and \<^verbatim>\<open>session.rs\<close>. A harness is
  a function of its symbolic values; a bound that the source gives to an array is the length
  of a list here, so what the model checker establishes up to 40 bytes is shown for every
  length. Two further harnesses of the source (\<open>decode_total\<close>, \<open>push_total_any_state\<close>) only
  ask that a call returns, which every function of the model does.
\<close>

section \<open>Verdicts\<close>

text \<open>
  A run ends early (an assumption excludes its values), panics (a failed assertion or a
  \<open>panic!\<close>), or passes.
\<close>

datatype verdict = Excluded | Panicked | Passed

definition kani_assume :: "bool \<Rightarrow> verdict \<Rightarrow> verdict" where
  "kani_assume P k = (if P then k else Excluded)"

definition kani_assert :: "bool \<Rightarrow> verdict \<Rightarrow> verdict" where
  "kani_assert P k = (if P then k else Panicked)"

text \<open>\<open>let Some(x) = \<dots> else { return }\<close>, \<open>let Some(x) = \<dots> else { panic!() }\<close>, and the latter for results.\<close>

definition or_return :: "'a option \<Rightarrow> ('a \<Rightarrow> verdict) \<Rightarrow> verdict" where
  "or_return x k = (case x of None \<Rightarrow> Passed | Some a \<Rightarrow> k a)"

definition some_or_panic :: "'a option \<Rightarrow> ('a \<Rightarrow> verdict) \<Rightarrow> verdict" where
  "some_or_panic x k = (case x of None \<Rightarrow> Panicked | Some a \<Rightarrow> k a)"

definition ok_or_panic :: "'e + 'a \<Rightarrow> ('a \<Rightarrow> verdict) \<Rightarrow> verdict" where
  "ok_or_panic r k = (case r of Err _ \<Rightarrow> Panicked | Ok a \<Rightarrow> k a)"

lemma kani_simps [simp]:
  "kani_assume True k = k" "kani_assume False k = Excluded" "kani_assume P Excluded = Excluded" "kani_assert True k = k" "kani_assert False k = Panicked"
  "or_return None f = Passed" "or_return (Some a) f = f a" "some_or_panic None f = Panicked" "some_or_panic (Some a) f = f a"
  "ok_or_panic (Err e) f = Panicked" "ok_or_panic (Ok a) f = f a"
  by (simp_all add: kani_assume_def kani_assert_def or_return_def some_or_panic_def ok_or_panic_def)

text \<open>\<open>out[i] == before[i]\<close> for all \<open>i\<close> from \<open>n\<close> on, as the \<open>while\<close> loops test it.\<close>

definition same_from :: "nat \<Rightarrow> 'a list \<Rightarrow> 'a list \<Rightarrow> bool" where
  "same_from n out before = list_all (\<lambda>i. out ! i = before ! i) [n..<length before]"

lemma same_from_put: "length ys + k = n \<Longrightarrow> n \<le> length s \<Longrightarrow> same_from n (put_at k ys s) s"
  by (auto simp: same_from_def list_all_iff put_at_def nth_append)

section \<open>The frame codec\<close>

definition decode_padded_total :: "bytes \<Rightarrow> usize \<Rightarrow> verdict" where
  "decode_padded_total raw len =
     kani_assume (len \<le> length raw) (or_return (get_to raw len) (\<lambda>input.
       case decode_padded input of
         Err _ \<Rightarrow> Passed
       | Ok f \<Rightarrow>
           let total = length (payload f) + FRAME_OVERHEAD in
           some_or_panic (get_to input total) (\<lambda>prefix.
           ok_or_panic (decode prefix) (\<lambda>g.
           kani_assert (cmd g = cmd f \<and> payload g = payload f) (
           some_or_panic (get_from input total) (\<lambda>tail.
           kani_assert (list_all (\<lambda>b. b = 0xFF) tail) Passed))))))"

definition encode_decode_roundtrip :: "bytes \<Rightarrow> usize \<Rightarrow> u8 \<Rightarrow> verdict" where
  "encode_decode_roundtrip payload' n c =
     kani_assume (n \<le> length payload') (or_return (get_to payload' n) (\<lambda>pl.
       let (r, out) = encode c pl (replicate (length payload' + FRAME_OVERHEAD) 0) in
       ok_or_panic r (\<lambda>written.
       kani_assert (written = n + FRAME_OVERHEAD) (
       some_or_panic (get_to out written) (\<lambda>w.
       ok_or_panic (decode w) (\<lambda>f.
       kani_assert (cmd f = c \<and> payload f = pl) Passed))))))"

text \<open>The window \<open>out[..out_len]\<close> is encoded into and put back into \<open>out\<close>.\<close>

definition encode_write_extent :: "bytes \<Rightarrow> usize \<Rightarrow> u8 \<Rightarrow> bytes \<Rightarrow> usize \<Rightarrow> verdict" where
  "encode_write_extent payload' n c before out_len =
     kani_assume (n \<le> length payload') (or_return (get_to payload' n) (\<lambda>pl.
     kani_assume (out_len \<le> length before) (or_return (get_to before out_len) (\<lambda>window.
       let (r, window) = encode c pl window; out = put_at 0 window before in
       case r of
         Ok written \<Rightarrow>
           kani_assert (written = n + FRAME_OVERHEAD) (
           kani_assert (written \<le> out_len) (
           kani_assert (same_from written out before) Passed))
       | Err (BufferTooSmall needed) \<Rightarrow>
           kani_assert (needed = n + FRAME_OVERHEAD) (
           kani_assert (out_len < needed) (
           kani_assert (out = before) Passed))
       | Err _ \<Rightarrow> Panicked))))"

definition encode_rejects_oversized_payload :: "u8 \<Rightarrow> verdict" where
  "encode_rejects_oversized_payload c =
     (let (r, out) = encode c (replicate (PAYLOAD_MAX + 1) 0) (replicate 256 0) in
      kani_assert (r = Err (PayloadTooLarge (PAYLOAD_MAX + 1))) (
      let (r, out) = encode c (replicate 256 0) out in
      kani_assert (r = Err (PayloadTooLarge 256)) Passed))"

text \<open>\<open>spare\<close> is the room behind the largest frame, 5 bytes in the source.\<close>

definition decode_padded_roundtrip_with_filler :: "nat \<Rightarrow> bytes \<Rightarrow> usize \<Rightarrow> u8 \<Rightarrow> usize \<Rightarrow> usize \<Rightarrow> u8 \<Rightarrow> verdict" where
  "decode_padded_roundtrip_with_filler spare payload' n c read_len pos junk =
     kani_assume (n \<le> length payload') (or_return (get_to payload' n) (\<lambda>pl.
       let (r, buf) = encode c pl (replicate (length payload' + FRAME_OVERHEAD + spare) 0xFF) in
       ok_or_panic r (\<lambda>written.
       kani_assume (read_len \<ge> written \<and> read_len \<le> length buf) (or_return (get_to buf read_len) (\<lambda>view.
       ok_or_panic (decode_padded view) (\<lambda>f.
       kani_assert (cmd f = c \<and> payload f = pl) (
       if read_len > written then
         kani_assume (pos \<ge> written \<and> pos < read_len) (
         kani_assume (junk \<noteq> 0xFF) (
         or_return (get_to (buf[pos := junk]) read_len) (\<lambda>view.
         kani_assert (\<not> is_ok (decode_padded view)) Passed)))
       else Passed)))))))"

lemma decode_padded_total_passes: "decode_padded_total raw len = (if len \<le> length raw then Passed else Excluded)"
proof (cases "len \<le> length raw")
  case True
  then have to: "get_to raw len = Some (take len raw)"
    by (simp add: get_to_def)
  show ?thesis
  proof (cases "decode_padded (take len raw)")
    case (Inl e)
    with True to show ?thesis by (simp add: decode_padded_total_def)
  next
    case (Inr f)
    from iffD1 [OF decode_padded_iff Inr] obtain k where
      f: "length (payload f) \<le> 252" "take len raw = wire (cmd f) (payload f) @ replicate k 0xFF"
      by blast
    then show ?thesis
      using True to by (simp add: decode_padded_total_def get_to_def get_from_def list_all_iff)
  qed
qed (simp add: decode_padded_total_def)

lemma encode_decode_roundtrip_passes:
  "length payload' \<le> 252 \<Longrightarrow> encode_decode_roundtrip payload' n c = (if n \<le> length payload' then Passed else Excluded)"
  by (simp add: encode_decode_roundtrip_def encode_spec get_to_def)

lemma encode_write_extent_passes:
  assumes "length payload' \<le> 252"
  shows "encode_write_extent payload' n c before out_len =
     (if n \<le> length payload' \<and> out_len \<le> length before then Passed else Excluded)"
proof -
  have "same_from (n + 3) (put_at 0 (wire c (take n payload') @ drop (n + 3) (take out_len before)) before) before"
    if "n \<le> length payload'" "out_len \<le> length before" "n + 3 \<le> out_len"
    using that by (auto simp: same_from_def list_all_iff put_at_def nth_append)
  moreover have "put_at 0 (take out_len before) before = before" if "out_len \<le> length before"
    using that by (simp add: put_at_def)
  ultimately show ?thesis
    using assms by (auto simp: encode_write_extent_def encode_spec get_to_def not_less)
qed

lemma encode_rejects_oversized_passes: "encode_rejects_oversized_payload c = Passed"
  by (simp add: encode_rejects_oversized_payload_def encode_spec)

lemma corrupt_filler:
  assumes "length pl \<le> 252" and "length pl + 3 \<le> pos" and "pos < length pl + 3 + k" and "junk \<noteq> 0xFF"
  shows "\<not> is_ok (decode_padded ((wire c pl @ replicate k 0xFF)[pos := junk]))"
proof
  let ?raw = "(wire c pl @ replicate k 0xFF)[pos := junk]"
  assume "is_ok (decode_padded ?raw)"
  then obtain f where "decode_padded ?raw = Ok f"
    by (auto simp: is_ok_iff)
  from iffD1 [OF decode_padded_iff this] obtain j where f: "length (payload f) \<le> 252" "?raw = wire (cmd f) (payload f) @ replicate j 0xFF"
    by blast
  have "?raw ! 1 = word_of_nat (length pl)" "pos \<noteq> 1"
    using assms(2) by (simp_all add: nth_append)
  then have "(word_of_nat (length pl) :: u8) = word_of_nat (length (payload f))"
    using f(2) by (simp add: nth_append)
  then have "unat (word_of_nat (length pl) :: u8) = unat (word_of_nat (length (payload f)) :: u8)"
    by simp
  then have eq: "length (payload f) = length pl"
    using assms(1) f(1) by (simp add: unat_of_nat)
  have "?raw ! pos = junk"
    using assms(3) by simp
  moreover have "j = k"
    using arg_cong [OF f(2), of length] eq by simp
  then have "?raw ! pos = 0xFF"
    using assms(2,3) eq by (simp add: f(2) nth_append)
  ultimately show False
    using assms(4) by simp
qed

lemma decode_padded_roundtrip_passes:
  assumes "length payload' \<le> 252"
  shows "decode_padded_roundtrip_with_filler spare payload' n c read_len pos junk =
     (if n \<le> length payload' \<and> n + 3 \<le> read_len \<and> read_len \<le> length payload' + 3 + spare
         \<and> (n + 3 < read_len \<longrightarrow> n + 3 \<le> pos \<and> pos < read_len \<and> junk \<noteq> 0xFF) then Passed else Excluded)"
proof (cases "n \<le> length payload' \<and> n + 3 \<le> read_len \<and> read_len \<le> length payload' + 3 + spare")
  case True
  let ?pl = "take n payload'" and ?k = "read_len - (n + 3)"
  have enc: "encode c ?pl (replicate (length payload' + 3 + spare) 0xFF) =
      (Ok (n + 3), wire c ?pl @ replicate (length payload' + spare - n) 0xFF)"
    using True assms by (simp add: encode_spec)
  have view: "take read_len (wire c ?pl @ replicate (length payload' + spare - n) 0xFF) = wire c ?pl @ replicate ?k 0xFF"
    using True by (auto simp: min_def)
  have "\<not> is_ok (decode_padded (take read_len ((wire c ?pl @ replicate (length payload' + spare - n) 0xFF)[pos := junk])))"
    if "n + 3 \<le> pos" "pos < read_len" "junk \<noteq> 0xFF"
    using that corrupt_filler [of ?pl pos ?k junk c] True assms view by (simp add: take_update_swap)
  then show ?thesis
    using True assms enc view by (auto simp: decode_padded_roundtrip_with_filler_def get_to_def)
next
  case False
  then show ?thesis
    using assms by (auto simp: decode_padded_roundtrip_with_filler_def get_to_def encode_spec)
qed

section \<open>Images\<close>

definition from_bin_total :: "bytes \<Rightarrow> usize \<Rightarrow> u16 \<Rightarrow> u16 \<Rightarrow> verdict" where
  "from_bin_total data dlen page_size app_pages =
     kani_assume (dlen \<le> length data) (or_return (get_to data dlen) (\<lambda>bs.
       case from_bin bs page_size app_pages of
         Ok img \<Rightarrow>
           kani_assert (app_pages \<ge> 1) (
           kani_assert (FOOTER_LEN \<le> unat page_size \<and> unat page_size \<le> PAGE_SIZE_MAX) (
           kani_assert (unat (img_len img) = dlen) (
           kani_assert (img_page_size img = page_size) (
           kani_assert (img_app_pages img = app_pages) (
           kani_assert (footer_page_index img = app_pages - 1) (
           kani_assert (FOOTER_LEN \<le> unat page_size * unat app_pages \<and> dlen \<le> unat page_size * unat app_pages - FOOTER_LEN)
             Passed))))))
       | Err (BadGeometry _ _) \<Rightarrow> Passed
       | Err (ImageTooLarge _ _) \<Rightarrow> Passed
       | Err _ \<Rightarrow> Panicked))"

text \<open>\<open>geometry\<close> is what the source assumes of the geometry before it builds the image.\<close>

definition page_into_total :: "(u16 \<Rightarrow> u16 \<Rightarrow> bool) \<Rightarrow> bytes \<Rightarrow> usize \<Rightarrow> u16 \<Rightarrow> u16 \<Rightarrow> u16 \<Rightarrow> bytes \<Rightarrow> usize \<Rightarrow> verdict" where
  "page_into_total geometry data dlen page_size app_pages index before out_len =
     kani_assume (dlen \<le> length data) (or_return (get_to data dlen) (\<lambda>bs.
     kani_assume (geometry page_size app_pages) (
       case from_bin bs page_size app_pages of
         Err _ \<Rightarrow> Passed
       | Ok img \<Rightarrow>
     kani_assume (out_len \<le> length before) (or_return (get_to before out_len) (\<lambda>window.
       let ps = unat page_size; (r, window) = page_into img index window; out = put_at 0 window before in
       case r of
         Ok _ \<Rightarrow>
           kani_assert (index < app_pages) (
           kani_assert (out_len \<ge> ps) (
           kani_assert (same_from ps out before) Passed))
       | Err (PageOutOfRange i) \<Rightarrow>
           kani_assert (i = index \<and> index \<ge> app_pages) (
           kani_assert (out = before) Passed)
       | Err (BufferTooSmall needed) \<Rightarrow>
           kani_assert (needed = ps \<and> out_len < ps \<and> index < app_pages) (
           kani_assert (out = before) Passed)
       | Err _ \<Rightarrow> Panicked)))))"

definition source_geometry :: "u16 \<Rightarrow> u16 \<Rightarrow> bool" where
  "source_geometry page_size app_pages \<longleftrightarrow> 16 \<le> page_size \<and> page_size \<le> 20 \<and> 1 \<le> app_pages \<and> app_pages \<le> 3"

definition pages_yield_in_range_and_footer :: "bytes \<Rightarrow> verdict" where
  "pages_yield_in_range_and_footer data =
     ok_or_panic (from_bin data 16 3) (\<lambda>img.
       let it = pages img; (y0, it) = pages_next it; (y1, it) = pages_next it; (y2, it) = pages_next it; (y3, it) = pages_next it in
       kani_assert (y3 = None) (
       kani_assert (list_all (\<lambda>y. case y of None \<Rightarrow> True | Some index \<Rightarrow> index < 3) [y0, y1, y2]) (
       kani_assert (list_ex (\<lambda>y. case y of None \<Rightarrow> False | Some index \<Rightarrow> index = footer_page_index img) [y0, y1, y2]) (
     ok_or_panic (from_bin [] 16 1) (\<lambda>single.
       let it = pages single; (z0, it) = pages_next it; (z1, it) = pages_next it in
       kani_assert (z0 = Some 0) (
       kani_assert (z1 = None) Passed))))))"

lemma from_bin_total_passes: "from_bin_total data dlen page_size app_pages = (if dlen \<le> length data then Passed else Excluded)"
proof (cases "dlen \<le> length data")
  case True
  then have to: "get_to data dlen = Some (take dlen data)" "length (take dlen data) = dlen"
    by (simp_all add: get_to_def)
  consider (geometry) "app_pages = 0 \<or> unat page_size < 16 \<or> 250 < unat page_size"
    | (large) "\<not> (app_pages = 0 \<or> unat page_size < 16 \<or> 250 < unat page_size)" "unat page_size * unat app_pages - 16 < dlen"
    | (fits) "app_pages \<noteq> 0" "16 \<le> unat page_size" "unat page_size \<le> 250" "dlen \<le> unat page_size * unat app_pages - 16"
    by fastforce
  then show ?thesis
  proof cases
    case fits
    note region_ge [OF fits(1,2)] geometry_bound [OF fits(3), of app_pages]
    with fits have "unat (word_of_nat dlen :: u32) = dlen" "1 \<le> app_pages"
      by (simp_all add: unat_of_nat word_le_nat_alt)
    then show ?thesis
      using True to fits \<open>16 \<le> unat page_size * unat app_pages\<close>
      by (simp add: from_bin_total_def from_bin_spec FOOTER_LEN_def footer_page_index_def)
  qed (use True to in \<open>simp_all add: from_bin_total_def from_bin_spec\<close>)
qed (simp add: from_bin_total_def)

lemma page_into_total_passes:
  assumes "dlen \<le> length data" and "geometry page_size app_pages" and "out_len \<le> length before"
  shows "page_into_total geometry data dlen page_size app_pages index before out_len = Passed"
proof (cases "from_bin (take dlen data) page_size app_pages")
  case (Inl e)
  with assms show ?thesis by (simp add: page_into_total_def get_to_def)
next
  case (Inr img)
  have v: "valid_image img" "img_page_size img = page_size" "img_app_pages img = app_pages"
    using from_bin_valid [OF Inr] by simp_all
  have whole: "put_at 0 (take out_len before) before = before"
    using assms(3) by (simp add: put_at_def)
  show ?thesis
  proof (cases "app_pages \<le> index")
    case True
    with assms Inr v whole show ?thesis
      by (simp add: page_into_total_def get_to_def page_into_def not_less)
  next
    case in_range: False
    then have below: "index < app_pages"
      by simp
    show ?thesis
    proof (cases "out_len < unat page_size")
      case True
      then have "\<not> unat page_size \<le> out_len"
        by simp
      with True assms Inr v whole in_range below show ?thesis
        by (simp add: page_into_total_def get_to_def page_into_def)
    next
      case False
      let ?page = "page_image img (unat index)" and ?w = "take out_len before"
      have "img_ps img = unat page_size" "\<not> img_ap img \<le> unat index"
        using v below by (simp_all add: img_ps_def img_ap_def word_less_nat_alt)
      then have out: "page_into img index ?w = (Ok (), ?page @ drop (unat page_size) ?w)" "length ?page = unat page_size"
        using False assms(3) v(1) by (simp_all add: page_into_spec)
      then have "same_from (unat page_size) (put_at 0 (?page @ drop (unat page_size) ?w) before) before"
        using False assms(3) by (auto simp: same_from_def list_all_iff put_at_def nth_append)
      with assms Inr below False out(1) show ?thesis
        by (simp add: page_into_total_def get_to_def)
    qed
  qed
qed

lemma page_into_total_safe: "page_into_total geometry data dlen page_size app_pages index before out_len \<noteq> Panicked"
proof (cases "dlen \<le> length data \<and> geometry page_size app_pages \<and> out_len \<le> length before")
  case True
  then show ?thesis by (simp add: page_into_total_passes)
next
  case False
  then show ?thesis
    by (cases "dlen \<le> length data"; cases "geometry page_size app_pages")
      (simp_all add: page_into_total_def get_to_def split: sum.split)
qed

lemma pages_yield_passes: "length data \<le> 32 \<Longrightarrow> pages_yield_in_range_and_footer data = Passed"
proof -
  assume len: "length data \<le> 32"
  let ?img = "\<lparr>img_data = data, img_page_size = 16, img_app_pages = 3, img_len = word_of_nat (length data), img_crc = crc32 data\<rparr>"
  let ?single = "\<lparr>img_data = [], img_page_size = 16, img_app_pages = 1, img_len = 0, img_crc = crc32 []\<rparr> :: image"
  have img: "from_bin data 16 3 = Ok ?img" and single: "from_bin [] 16 1 = Ok ?single"
    using len by (simp_all add: from_bin_spec)
  have last: "must_write ?img 2" "footer_page_index ?img = 2" and first: "must_write ?single 0"
    by (simp_all add: must_write_def footer_page_index_def)
  show ?thesis
    using img single last first
    by (cases "must_write ?img 0"; cases "must_write ?img 1")
      (simp_all add: pages_yield_in_range_and_footer_def pages_def pages_next_def pages_scan.simps)
qed

section \<open>The stream scanner\<close>

text \<open>Any state of the scanner, also one that no sequence of calls produces.\<close>

definition done_is_decodable :: "rx_scanner \<Rightarrow> bytes \<Rightarrow> usize \<Rightarrow> u8 \<Rightarrow> verdict" where
  "done_is_decodable sc buf blen byte =
     kani_assume (blen \<le> length buf) (or_return (get_to buf blen) (\<lambda>window.
       case push sc byte window of
         (Done len, sc, window) \<Rightarrow>
           some_or_panic (get_to window len) (\<lambda>raw.
           ok_or_panic (decode raw) (\<lambda>f.
           kani_assert (len = length (payload f) + FRAME_OVERHEAD) (
           kani_assert (\<not> sc_in_frame sc) Passed)))
       | _ \<Rightarrow> Passed))"

text \<open>The two \<open>while\<close> loops of the harness below: the garbage, with what follows, and the frame.\<close>

fun garbage_loop :: "bytes \<Rightarrow> rx_scanner \<Rightarrow> bytes \<Rightarrow> (rx_scanner \<Rightarrow> bytes \<Rightarrow> verdict) \<Rightarrow> verdict" where
  "garbage_loop [] sc buf k = k sc buf"
| "garbage_loop (g # gs) sc buf k =
     kani_assume (g \<noteq> SYNC) (case push sc g buf of (r, sc, buf) \<Rightarrow> kani_assert (r = Hunt) (garbage_loop gs sc buf k))"

fun frame_loop :: "usize \<Rightarrow> bytes \<Rightarrow> nat \<Rightarrow> bytes \<Rightarrow> rx_scanner \<Rightarrow> bytes \<Rightarrow> verdict" where
  "frame_loop flen w j [] sc buf = Passed"
| "frame_loop flen w j (b # bs) sc buf =
     (case push sc b buf of
        (Frame, sc, buf) \<Rightarrow> kani_assert (j + 1 < flen) (frame_loop flen w (j + 1) bs sc buf)
      | (Done len, sc, buf) \<Rightarrow>
          kani_assert (j + 1 = flen) (
          kani_assert (len = flen) (
          kani_assert (take len buf = take flen w) (frame_loop flen w (j + 1) bs sc buf)))
      | _ \<Rightarrow> Panicked)"

definition garbage_then_frame_roundtrip :: "bytes \<Rightarrow> usize \<Rightarrow> u8 \<Rightarrow> bytes \<Rightarrow> usize \<Rightarrow> verdict" where
  "garbage_then_frame_roundtrip payload' n c garbage glen =
     kani_assume (n \<le> length payload') (or_return (get_to payload' n) (\<lambda>pl.
       let (r, w) = encode c pl (replicate (length payload' + FRAME_OVERHEAD) 0) in
       ok_or_panic r (\<lambda>flen.
       kani_assume (glen \<le> length garbage) (
       garbage_loop (take glen garbage) scanner_new (replicate (length payload' + FRAME_OVERHEAD) 0) (\<lambda>sc buf.
       case push sc SYNC buf of (r, sc, buf) \<Rightarrow>
         kani_assert (r = Frame) (frame_loop flen w 0 (take flen w) sc buf))))))"

lemma done_is_decodable_passes: "done_is_decodable sc buf blen byte = (if blen \<le> length buf then Passed else Excluded)"
proof -
  obtain r sc' buf' where p: "push sc byte (take blen buf) = (r, sc', buf')"
    using prod_cases3 by blast
  show ?thesis
  proof (cases "\<exists>len. r = Done len")
    case True
    then obtain len where r: "r = Done len" ..
    obtain f where "decode (take len buf') = Ok f" "len = length (payload f) + 3" "len \<le> length buf'" "sc' = scanner_reset sc"
      using push_Done [OF p [unfolded r]] by blast
    then show ?thesis
      using p r by (simp add: done_is_decodable_def get_to_def)
  next
    case False
    then show ?thesis
      using p by (cases r) (auto simp: done_is_decodable_def get_to_def)
  qed
qed

lemma garbage_loop_hunts:
  "\<not> sc_in_frame sc \<Longrightarrow> garbage_loop gs sc buf k = (if SYNC \<in> set gs then Excluded else k sc buf)"
  by (induction gs) (auto simp: push_hunting)

lemma frame_loop_passes:
  assumes "feed sc bs buf = (replicate (length bs - 1) Frame @ [Done flen], sc', buf')" and "j + length bs = flen" and "bs \<noteq> []"
    and "take flen buf' = take flen w"
  shows "frame_loop flen w j bs sc buf = Passed"
  using assms
proof (induction bs arbitrary: j sc buf)
  case (Cons b bs)
  obtain r sc1 buf1 where p: "push sc b buf = (r, sc1, buf1)"
    using prod_cases3 by blast
  show ?case
  proof (cases bs)
    case Nil
    with Cons.prems p show ?thesis by auto
  next
    case (Cons b' bs')
    then have "r = Frame" "feed sc1 bs buf1 = (replicate (length bs - 1) Frame @ [Done flen], sc', buf')"
      using Cons.prems(1) p by (auto split: prod.splits)
    then show ?thesis
      using Cons.IH [of sc1 buf1 "j + 1"] Cons.prems Cons p by simp
  qed
qed simp

lemma garbage_then_frame_passes:
  assumes "length payload' \<le> 252"
  shows "garbage_then_frame_roundtrip payload' n c garbage glen =
     (if n \<le> length payload' \<and> glen \<le> length garbage \<and> SYNC \<notin> set (take glen garbage) then Passed else Excluded)"
proof (cases "n \<le> length payload'")
  case True
  let ?pl = "take n payload'" and ?buf = "replicate (length payload' + 3) (0 :: u8)"
  let ?sc = "scanner_new\<lparr>sc_in_frame := True, sc_n := 0\<rparr>"
  have len: "length ?pl = n"
    using True by simp
  have "feed ?sc (wire c ?pl) ?buf =
     (replicate (length ?pl + 2) Frame @ [Done (length ?pl + 3)], scanner_reset ?sc, wire c ?pl @ drop (length ?pl + 3) ?buf)"
    using True assms by (intro feed_frame) simp_all
  then have "frame_loop (n + 3) (wire c ?pl @ drop (n + 3) ?buf) 0 (wire c ?pl) ?sc ?buf = Passed"
    unfolding len using True by (intro frame_loop_passes) auto
  moreover have "push scanner_new SYNC ?buf = (Frame, ?sc, ?buf)"
    by (simp add: push_hunting scanner_new_def)
  moreover have "encode c ?pl ?buf = (Ok (n + 3), wire c ?pl @ drop (n + 3) ?buf)"
    using True assms by (simp add: encode_spec)
  moreover have "\<not> sc_in_frame scanner_new"
    by (simp add: scanner_new_def)
  ultimately show ?thesis
    using True by (cases "glen \<le> length garbage") (simp_all add: garbage_then_frame_roundtrip_def get_to_def garbage_loop_hunts)
qed (simp add: garbage_then_frame_roundtrip_def)

section \<open>The session\<close>

definition validate_total :: "bytes \<Rightarrow> usize \<Rightarrow> u8 \<Rightarrow> verdict" where
  "validate_total raw len expect_cmd =
     kani_assume (len \<le> length raw) (or_return (get_to raw len) (\<lambda>view.
       case validate view expect_cmd of
         Ok _ \<Rightarrow>
           ok_or_panic (decode_padded view) (\<lambda>f.
           kani_assert (cmd f = expect_cmd) (
           kani_assert (get_at (payload f) 0 = Some ST_OK) Passed))
       | Err (Fatal st) \<Rightarrow> kani_assert (st \<noteq> ST_OK \<and> st \<noteq> ST_BAD_FRAME) Passed
       | Err _ \<Rightarrow> Passed))"

definition parse_info_total :: "bytes \<Rightarrow> usize \<Rightarrow> verdict" where
  "parse_info_total raw len =
     kani_assume (len \<le> length raw) (or_return (get_to raw len) (\<lambda>view.
       case (parse_info view :: unit error + device_info) of
         Ok di \<Rightarrow>
           kani_assert (len = INFO_RSP_PAYLOAD - 1) (
           case view of
             [proto, bl, d0, d1, d2, d3, ps_lo, ps_hi, ap_lo, ap_hi, valid] \<Rightarrow>
               kani_assert (di_proto di = proto) (
               kani_assert (di_bl_version di = bl) (
               kani_assert (di_device_id di = [d0, d1, d2, d3]) (
               kani_assert (di_page_size di = u16_from_le_bytes ps_lo ps_hi) (
               kani_assert (di_app_pages di = u16_from_le_bytes ap_lo ap_hi) (
               kani_assert (di_app_valid di = (valid \<noteq> 0)) Passed)))))
           | _ \<Rightarrow> Panicked)
       | Err (Core BadFrame) \<Rightarrow> kani_assert (len \<noteq> INFO_RSP_PAYLOAD - 1) Passed
       | Err _ \<Rightarrow> Panicked))"

lemma validate_total_passes: "validate_total raw len expect_cmd = (if len \<le> length raw then Passed else Excluded)"
proof (cases "decode_padded (take len raw)")
  case (Inl e)
  then show ?thesis
    by (simp add: validate_total_def get_to_def validate_def)
next
  case (Inr f)
  then show ?thesis
    by (cases "payload f") (auto simp: validate_total_def get_to_def validate_def split_first_def get_at_def)
qed

lemma length_eleven:
  "length xs = 11 \<longleftrightarrow> (\<exists>a b c d e f g h i j k. xs = [a, b, c, d, e, f, g, h, i, j, k])"
  by (auto simp: eval_nat_numeral length_Suc_conv)

lemma parse_info_total_passes: "parse_info_total raw len = (if len \<le> length raw then Passed else Excluded)"
proof (cases "len \<le> length raw")
  case True
  show ?thesis
  proof (cases "length (take len raw) = 11")
    case eleven: True
    then obtain a b c d e f g h i j k where "take len raw = [a, b, c, d, e, f, g, h, i, j, k]"
      unfolding length_eleven by blast
    moreover have "len = 11"
      using True eleven by simp
    ultimately show ?thesis
      using True by (simp add: parse_info_total_def get_to_def parse_info_def INFO_RSP_PAYLOAD_def)
  next
    case False
    then have "parse_info (take len raw) = (Err (Core BadFrame) :: unit error + device_info)"
      by (auto simp: parse_info_def simp del: length_take dest: arg_cong [of _ _ length] split: list.split)
    then show ?thesis
      using True False by (simp add: parse_info_total_def get_to_def INFO_RSP_PAYLOAD_def)
  qed
qed (simp add: parse_info_total_def)

section \<open>Properties\<close>

text \<open>
  C26: the obligations of the frame codec hold at every size, for payloads up to the 252 bytes
  a frame can carry. For all symbolic values none of the five harnesses of \<open>frame.rs\<close> that
  assert something panics, and each passes exactly where its assumptions admit the
  values: whatever \<open>decode_padded\<close> accepts is a decodable frame followed by filler, a frame
  is decoded to what was encoded, \<open>encode\<close> writes nothing behind the length it returns and
  nothing at all when it fails, an oversized payload is refused, and one corrupt filler byte
  makes the input rejected.
\<close>

theorem kani_frame:
  assumes "length payload' \<le> PAYLOAD_MAX"
  shows "decode_padded_total raw len = (if len \<le> length raw then Passed else Excluded)
     \<and> encode_decode_roundtrip payload' n c = (if n \<le> length payload' then Passed else Excluded)
     \<and> encode_write_extent payload' n c before out_len =
         (if n \<le> length payload' \<and> out_len \<le> length before then Passed else Excluded)
     \<and> encode_rejects_oversized_payload c = Passed
     \<and> decode_padded_roundtrip_with_filler spare payload' n c read_len pos junk =
         (if n \<le> length payload' \<and> n + 3 \<le> read_len \<and> read_len \<le> length payload' + 3 + spare
             \<and> (n + 3 < read_len \<longrightarrow> n + 3 \<le> pos \<and> pos < read_len \<and> junk \<noteq> 0xFF) then Passed else Excluded)"
  using assms by (simp only: PAYLOAD_MAX_eq decode_padded_total_passes encode_decode_roundtrip_passes encode_write_extent_passes
      encode_rejects_oversized_passes decode_padded_roundtrip_passes simp_thms)

theorem kani_frame_witness:
  "decode_padded_total (replicate 40 0) 7 = Passed \<and> encode_decode_roundtrip [1, 2, 3, 4, 5, 6, 7, 8] 3 6 = Passed
     \<and> encode_write_extent [1, 2, 3, 4, 5, 6, 7, 8] 3 6 (replicate 15 9) 5 = Passed
     \<and> decode_padded_roundtrip_with_filler 5 [1, 2, 3, 4, 5, 6, 7, 8] 2 6 12 10 7 = Passed"
  using kani_frame [of "[1, 2, 3, 4, 5, 6, 7, 8]" "replicate 40 0" 7 3 6]
    kani_frame [of "[1, 2, 3, 4, 5, 6, 7, 8]" "replicate 40 0" 7 2 6] by simp

text \<open>
  The obligations of the image layer. \<open>from_bin\<close> accepts only geometries and lengths that
  fit, with the accessors telling the truth, and fails in the two documented ways only;
  \<open>page_into\<close> fails exactly for an index out of range or a short buffer and then leaves the
  buffer alone, and never writes behind the page, whatever geometry is assumed; and on 16-byte
  pages, three of them, the iterator yields at most three indices, all in range, the footer
  page among them, for any data of up to 32 bytes.
\<close>

lemma kani_image:
  assumes "length data \<le> 32"
  shows "from_bin_total raw dlen page_size app_pages = (if dlen \<le> length raw then Passed else Excluded)
     \<and> page_into_total geometry raw dlen page_size app_pages index before out_len \<noteq> Panicked
     \<and> (dlen \<le> length raw \<and> geometry page_size app_pages \<and> out_len \<le> length before \<longrightarrow>
          page_into_total geometry raw dlen page_size app_pages index before out_len = Passed)
     \<and> pages_yield_in_range_and_footer data = Passed"
  using from_bin_total_passes page_into_total_safe page_into_total_passes pages_yield_passes [OF assms] by blast

text \<open>
  The obligations of the receive side. From any state of the scanner, reachable or not, a
  completed frame is one that \<open>decode\<close> accepts, of the length it declares, and the scanner hunts
  again; behind garbage without a sync byte an encoded frame is consumed byte for byte and
  completes at its last byte; a response that \<open>validate\<close> accepts has the expected command and
  status OK, and no other status is called fatal; and \<open>parse_info\<close> accepts exactly eleven
  bytes and decodes each field.
\<close>

lemma kani_receive:
  assumes "length payload' \<le> PAYLOAD_MAX"
  shows "done_is_decodable sc buf blen byte = (if blen \<le> length buf then Passed else Excluded)
     \<and> garbage_then_frame_roundtrip payload' n c garbage glen =
         (if n \<le> length payload' \<and> glen \<le> length garbage \<and> SYNC \<notin> set (take glen garbage) then Passed else Excluded)
     \<and> validate_total raw len expect_cmd = (if len \<le> length raw then Passed else Excluded)
     \<and> parse_info_total raw len = (if len \<le> length raw then Passed else Excluded)"
  using assms by (simp only: PAYLOAD_MAX_eq done_is_decodable_passes garbage_then_frame_passes validate_total_passes
      parse_info_total_passes simp_thms)

end
