(* ===== verification/Session_Types.thy ===== *)
theory Session_Types
  imports Cli_Dyn Session
begin

text \<open>
  The operations of a session as typed commands: which errors each can return, and that it
  leaves a well-formed session whatever happens. The errors are those of the \<open># Errors\<close>
  sections of \<^verbatim>\<open>session.rs\<close>, with the conditions under which each is possible.
\<close>

section \<open>Signatures\<close>

text \<open>A session whose transport satisfies an invariant, over a buffer of \<open>n\<close> bytes.\<close>

definition session_wf :: "('t \<Rightarrow> bool) \<Rightarrow> nat \<Rightarrow> 't session \<Rightarrow> bool" where
  "session_wf good n s \<longleftrightarrow> good (s_transport s) \<and> length (s_buf s) = n"

definition typed :: "('e error \<Rightarrow> bool) \<Rightarrow> ('t \<Rightarrow> bool) \<Rightarrow> nat \<Rightarrow> ('e error + 'a) \<times> 't session \<Rightarrow> bool" where
  "typed errs good n x \<longleftrightarrow> session_wf good n (snd x) \<and> (case fst x of Err e \<Rightarrow> errs e | Ok _ \<Rightarrow> True)"

text \<open>The errors of an exchange that needs \<open>need\<close> bytes of the \<open>n\<close> there are.\<close>

definition exchange_error :: "nat \<Rightarrow> nat \<Rightarrow> 'e error \<Rightarrow> bool" where
  "exchange_error need n e \<longleftrightarrow> wire_error e \<or> n < need \<and> e = Core (BufferTooSmall need)"

definition echo_error :: "bytes \<Rightarrow> nat \<Rightarrow> 'e error \<Rightarrow> bool" where
  "echo_error data n e \<longleftrightarrow>
     (if ECHO_MAX < length data then e = Core (PayloadTooLarge (length data)) else exchange_error (2 * length data + 7) n e)"

definition flash_error :: "image \<Rightarrow> nat \<Rightarrow> 'e error \<Rightarrow> bool" where
  "flash_error img n e \<longleftrightarrow>
     exchange_error 18 n e \<or> 18 \<le> n \<and> exchange_error (img_ps img + 9) n e
     \<or> (\<exists>v. v \<noteq> PROTO_VERSION \<and> e = Core (ProtocolVersion v))
     \<or> (\<exists>p a. (p, a) \<noteq> (img_page_size img, img_app_pages img) \<and> e = Core (BadGeometry p a))"

lemma typed_Ok [simp]: "typed errs good n (Ok a, s) = session_wf good n s"
  by (simp add: typed_def)

lemma typed_Err [simp]: "typed errs good n (Err e, s) \<longleftrightarrow> session_wf good n s \<and> errs e"
  by (simp add: typed_def)

lemma typed_bind:
  assumes "typed errs good n x" and "\<And>a s. x = (Ok a, s) \<Longrightarrow> session_wf good n s \<Longrightarrow> typed errs good n (k a s)"
  shows "typed errs good n (st_bind x k)"
  using assms by (cases x; cases "fst x") (auto simp: typed_def)

lemma typed_weaken: "typed errs good n x \<Longrightarrow> (\<And>e. errs e \<Longrightarrow> errs' e) \<Longrightarrow> typed errs' good n x"
  by (auto simp: typed_def split: sum.splits)

section \<open>Transports with an invariant\<close>

locale invariant_transport = transport request
  for request :: "('t, 'e) request_fn" +
  fixes good :: "'t \<Rightarrow> bool"
  assumes keeps_inv: "good t \<Longrightarrow> request t req rsp = (r, t', rsp') \<Longrightarrow> good t'"
begin

lemma exchange_loop_inv: "exchange_loop request left e0 t tx rx ec = (r, t', rx') \<Longrightarrow> good t \<Longrightarrow> good t'"
proof (induction left arbitrary: e0 t rx)
  case (Suc left)
  obtain q t1 rx1 where req: "request t tx rx = (q, t1, rx1)"
    using prod_cases3 by blast
  with Suc.prems have "good t1"
    using keeps_inv by blast
  with Suc req show ?case
    by (cases "verdict q rx1 ec") (auto simp: exchange_loop_Suc)
qed simp

lemma transact_typed:
  assumes "session_wf good n s" and "length pl \<le> 252" and "cap \<le> 252"
  shows "typed (exchange_error (length pl + cap + 6) n) good n (transact request s c pl cap)"
proof -
  obtain r s' where tr: "transact request s c pl cap = (r, s')"
    by fastforce
  have len: "length (s_buf s') = n"
    using transact_length [OF assms(2,3) tr] assms(1) by (simp add: session_wf_def)
  have "good (s_transport s')"
    using tr assms by (auto simp: transact_spec session_wf_def exchange_unfold split: if_splits prod.splits dest: exchange_loop_inv)
  moreover have "exchange_error (length pl + cap + 6) n e" if "r = Err e" for e
  proof (cases "length (s_buf s) < length pl + cap + 6")
    case True
    with tr that assms show ?thesis
      by (auto simp: transact_spec exchange_error_def session_wf_def)
  next
    case False
    then show ?thesis
      using transact_Err [OF assms(2,3) _ tr that] by (simp add: exchange_error_def)
  qed
  ultimately show ?thesis
    using tr len by (auto simp: typed_def session_wf_def split: sum.split)
qed

lemma info_typed:
  assumes "session_wf good n s"
  shows "typed (exchange_error 18 n) good n (info request s)"
  unfolding info_def
proof (rule typed_bind)
  show "typed (exchange_error 18 n) good n (transact request s CMD_INFO [] INFO_RSP_PAYLOAD)"
    using transact_typed [OF assms, of "[]" INFO_RSP_PAYLOAD] by (simp add: INFO_RSP_PAYLOAD_def)
  fix rest s1
  assume "session_wf good n s1"
  then show "typed (exchange_error 18 n) good n (parse_info rest, s1)"
    by (auto simp: parse_info_def exchange_error_def wire_error_def split: list.split)
qed

lemma echo_typed:
  assumes "session_wf good n s"
  shows "typed (echo_error data n) good n (echo request s data)"
proof (cases "ECHO_MAX < length data")
  case True
  with assms show ?thesis
    by (simp add: echo_def echo_error_def)
next
  case False
  then have len: "length data \<le> 16" "usize_wrapping_add (length data) ST_RSP_PAYLOAD = length data + 1"
    by (simp_all add: ECHO_MAX_def ST_RSP_PAYLOAD_def usize_simps)
  have "length data \<le> 252" "length data + 1 \<le> 252" "length data + (length data + 1) + 6 = 2 * length data + 7"
    using len(1) by simp_all
  then have "typed (exchange_error (2 * length data + 7) n) good n (transact request s CMD_ECHO data (length data + 1))"
    using transact_typed [OF assms] by metis
  then have tr: "typed (echo_error data n) good n (transact request s CMD_ECHO data (length data + 1))"
    by (rule typed_weaken) (simp add: echo_error_def False)
  have bad: "echo_error data n (Core BadFrame :: 'e error)"
    using False by (simp add: echo_error_def exchange_error_def wire_error_def)
  have "typed (echo_error data n) good n
      (st_bind (transact request s CMD_ECHO data (length data + 1)) (\<lambda>rest s'. (if rest = data then Ok () else Err (Core BadFrame), s')))"
  proof (rule typed_bind [OF tr])
    fix rest s1
    assume "session_wf good n s1"
    then show "typed (echo_error data n) good n (if rest = data then Ok () else Err (Core BadFrame) :: 'e error + unit, s1)"
      using bad by simp
  qed
  then show ?thesis
    using False by (simp add: echo_def len(2))
qed

lemma boot_typed:
  assumes "session_wf good n s"
  shows "typed (exchange_error 7 n) good n (boot request s)"
  unfolding boot_def using transact_typed [OF assms, of "[]" ST_RSP_PAYLOAD] by (intro typed_bind) (simp_all add: ST_RSP_PAYLOAD_def)

lemma run_script_typed:
  assumes "session_wf good n s" and "\<forall>(c, pl) \<in> set script. length pl \<le> 252 \<and> (\<forall>e. exchange_error (length pl + 7) n e \<longrightarrow> errs e)"
  shows "typed errs good n (run_script request s script)"
  using assms
proof (induction script arbitrary: s)
  case (Cons entry script)
  obtain c pl where entry: "entry = (c, pl)" by fastforce
  have "typed errs good n (transact request s c pl ST_RSP_PAYLOAD)"
    using transact_typed [OF Cons.prems(1), of pl ST_RSP_PAYLOAD c] Cons.prems(2) entry
    by (auto simp: ST_RSP_PAYLOAD_def add.commute [of 7] elim!: typed_weaken)
  then show ?case
    unfolding entry run_script.simps using Cons.IH Cons.prems(2) by (intro typed_bind) auto
qed simp

lemma flash_typed:
  assumes wf: "session_wf good n s" and v: "valid_image img"
  shows "typed (flash_error img n) good n (let (r, s', prog) = flash request s img in (r, s'))"
proof -
  have ps: "16 \<le> img_ps img" using v by (simp add: valid_image_def)
  obtain q s1 where inf: "info request s = (q, s1)" by fastforce
  note t = info_typed [OF wf, unfolded inf]
  then have wf1: "session_wf good n s1"
    by (simp add: typed_def)
  show ?thesis
  proof (cases "\<exists>di. q = Ok di \<and> gates img di")
    case True
    then obtain di where di: "q = Ok di" "gates img di" by blast
    have n: "18 \<le> n"
    proof (rule ccontr)
      assume "\<not> 18 \<le> n"
      with wf inf di(1) show False
        by (simp add: info_def transact_spec INFO_RSP_PAYLOAD_def session_wf_def)
    qed
    have "length pl \<le> 252 \<and> (\<forall>e :: 'e error. exchange_error (length pl + 7) n e \<longrightarrow> flash_error img n e)"
      if "(c, pl) \<in> set (update_script img)" for c pl
    proof -
      have "length pl + 7 \<le> 18 \<or> length pl = img_ps img + 2"
        using that v by (auto simp: update_script_def write_script_def verify_payload_def ERASE_MAGIC_def
            length_write_payload pages_in_region)
      then show ?thesis
        using n update_script_small [OF v] that by (auto simp: flash_error_def exchange_error_def)
    qed
    then have "typed (flash_error img n) good n (run_script request s1 (update_script img))"
      by (intro run_script_typed [OF wf1]) blast
    then show ?thesis
      unfolding flash_script [OF v inf [unfolded di(1)] di(2)] .
  next
    case False
    with inf t wf1 show ?thesis
      by (cases q) (auto simp: flash_def gates_def flash_error_def typed_def)
  qed
qed

end

text \<open>What \<open>DynTransport\<close> promises in every state it reaches is such an invariant, on every wire.\<close>

interpretation dyn_typed: invariant_transport "dyn_request (backend_request wr) backend_set_poll"
  "dyn_reach (backend_request wr) backend_set_poll base" for wr :: "('w, 'e, 'f, 'tio) wires" and base
proof (intro invariant_transport.intro invariant_transport_axioms.intro)
  show "transport (dyn_request (backend_request wr) backend_set_poll)"
    by (rule wire_budget.dyn_transport)
qed (rule dyn_reach.requested)

section \<open>Properties\<close>

text \<open>
  C27: the operations of a session are well typed. On every wire of the command line, in every
  state its transport reaches, and whatever the device answers: an operation leaves a
  transport that is again in such a state and a buffer of the same length, and it fails only
  with an error of its signature. \<open>info\<close> and \<open>boot\<close> fail with an error of the exchange, or ask
  for 18 and 7 bytes of a shorter buffer; \<open>echo\<close> refuses exactly the oversized data before it
  sends anything; \<open>flash\<close> adds the two gates, and those only if version or geometry differ.
\<close>

theorem session_typing:
  fixes wr :: "('w, 'e, 'f, 'tio) wires"
  assumes "dyn_reach (backend_request wr) backend_set_poll base (s_transport s)" and "from_bin bs ps ap = Ok img"
  shows "typed (exchange_error 18 (length (s_buf s))) (dyn_reach (backend_request wr) backend_set_poll base) (length (s_buf s))
       (info (dyn_request (backend_request wr) backend_set_poll) s)
     \<and> typed (echo_error data (length (s_buf s))) (dyn_reach (backend_request wr) backend_set_poll base) (length (s_buf s))
       (echo (dyn_request (backend_request wr) backend_set_poll) s data)
     \<and> typed (exchange_error 7 (length (s_buf s))) (dyn_reach (backend_request wr) backend_set_poll base) (length (s_buf s))
       (boot (dyn_request (backend_request wr) backend_set_poll) s)
     \<and> typed (flash_error img (length (s_buf s))) (dyn_reach (backend_request wr) backend_set_poll base) (length (s_buf s))
       (let (r, s', prog) = flash (dyn_request (backend_request wr) backend_set_poll) s img in (r, s'))"
proof -
  have wf: "session_wf (dyn_reach (backend_request wr) backend_set_poll base) (length (s_buf s)) s"
    using assms(1) by (simp add: session_wf_def)
  have v: "valid_image img"
    using from_bin_valid [OF assms(2)] by simp
  show ?thesis
    using dyn_typed.info_typed [OF wf] dyn_typed.echo_typed [OF wf] dyn_typed.boot_typed [OF wf] dyn_typed.flash_typed [OF wf v]
    by blast
qed

theorem session_typing_witness:
  "typed (exchange_error 18 17) (dyn_reach (backend_request idle_wires) backend_set_poll \<lparr>pb_attempts = 2, pb_delay_ms = 10\<rparr>) 17
     (info (dyn_request (backend_request idle_wires) backend_set_poll) (session_new opened_i2c (replicate 17 0)))"
proof -
  have img: "is_ok (from_bin [] 16 1)"
    by (simp add: from_bin_spec is_ok_def)
  then obtain img where "from_bin [] 16 1 = Ok img"
    by (auto simp: is_ok_iff)
  from session_typing [of idle_wires _ "session_new opened_i2c (replicate 17 0)", OF _ this] opened_i2c_reach show ?thesis
    by (simp add: session_new_def)
qed

end
