(* ===== verification/Campaigns.thy ===== *)
theory Campaigns
  imports End_To_End
begin

text \<open>
  The adversarial campaigns of \<^verbatim>\<open>conformance/tests/campaigns.rs\<close> and the enumeration of
  \<^verbatim>\<open>fsm_exhaustive.rs\<close> against the C device, for every image, page order, tampered byte and
  start state instead of the ones the tests pick. A panic of a test is \<open>None\<close> or \<open>False\<close>.
\<close>

section \<open>Raw exchanges\<close>

text \<open>\<open>raw\<close>: the shipped codec without a session; the payload of the answer, and the device after.\<close>

definition raw :: "sim \<Rightarrow> u8 \<Rightarrow> bytes \<Rightarrow> bytes option \<times> sim" where
  "raw s c pl =
     (case encode c pl (replicate 256 0) of
        (Err _, _) \<Rightarrow> (None, s)
      | (Ok n, buf) \<Rightarrow>
          let (rsp, s) = sim_rust_request (take n buf) s in
          case decode rsp of
            Err _ \<Rightarrow> (None, s)
          | Ok f \<Rightarrow> if cmd f = c OR RSP_FLAG then (Some (payload f), s) else (None, s))"

text \<open>A list of exchanges, each of which must be answered with the status \<open>ST_OK\<close> alone.\<close>

fun all_ok :: "sim \<Rightarrow> (u8 \<times> bytes) list \<Rightarrow> bool \<times> sim" where
  "all_ok s [] = (True, s)"
| "all_ok s ((c, pl) # reqs) =
     (let (out, s) = raw s c pl in if out = Some [ST_OK] then all_ok s reqs else (False, s))"

lemma raw_eq:
  assumes "sim_up s" and "length pl \<le> 252" and "dev_step sim_port_info (sim_dev s) c pl = (out, d')"
  shows "\<exists>s'. raw s c pl = (Some out, s') \<and> sim_dev s' = d' \<and>
     (if c = CMD_BOOT \<and> region_valid (hw_flash (sim_hw s)) then hw_jumped (sim_hw s') else sim_up s')"
proof -
  from sim_cycle [OF assms] obtain s' where
    s': "sim_rust_request (wire c pl) s = (wire (c OR RSP_FLAG) out, s')" "sim_dev s' = d'" "length out \<le> 17"
      "us_info (sim_session s') = sim_port_info" "\<not> us_boot_pending (sim_session s')"
      "if c = CMD_BOOT \<and> region_valid (hw_flash (sim_hw s)) then hw_jumped (sim_hw s') \<and> \<not> hw_aborted (sim_hw s')
       else healthy (sim_hw s')"
    by blast
  then show ?thesis
    using assms(2) by (auto simp: raw_def encode_spec sim_up_def)
qed

lemma all_ok_step:
  assumes "sim_up s" and "length pl \<le> 252" and "dev_step sim_port_info (sim_dev s) c pl = ([ST_OK], d')" and "c \<noteq> CMD_BOOT"
  shows "\<exists>s'. all_ok s ((c, pl) # reqs) = all_ok s' reqs \<and> sim_up s' \<and> sim_dev s' = d'"
  using raw_eq [OF assms(1-3)] assms(4) by auto

section \<open>Writes in any order\<close>

text \<open>The requests of the test: each page as \<open>page_into\<close> renders it behind its index.\<close>

definition page_writes :: "image \<Rightarrow> u16 list \<Rightarrow> (u8 \<times> bytes) list" where
  "page_writes img order =
     map (\<lambda>i. (CMD_WRITE_PAGE, u16_to_le_bytes i @ snd (page_into img i (replicate SIM_PAGE_SIZE 0)))) order"

definition verify_request :: "image \<Rightarrow> u8 \<times> bytes" where
  "verify_request img = (CMD_VERIFY, u32_to_le_bytes (img_len img) @ u32_to_le_bytes (img_crc img))"

lemma page_writes_eq:
  assumes "valid_image img" and "img_ps img = 128" and "\<forall>i \<in> set order. unat i < img_ap img"
  shows "page_writes img order = map (\<lambda>i. (CMD_WRITE_PAGE, write_payload img i)) order"
  using assms by (auto simp: page_writes_def write_payload_def page_into_spec)

lemma all_ok_writes:
  assumes "valid_image img" and "matches img sim_port_info" and "\<forall>i \<in> set order. unat i < img_ap img"
    and "sim_up s" and "dev_erased (sim_dev s)"
  shows "\<exists>s'. all_ok s (map (\<lambda>i. (CMD_WRITE_PAGE, write_payload img i)) order @ reqs) = all_ok s' reqs \<and> sim_up s' \<and>
     sim_dev s' = (sim_dev s)\<lparr>dev_flash := write_pages img (map unat order) (dev_flash (sim_dev s))\<rparr>"
  using assms(3-5)
proof (induction order arbitrary: s)
  case (Cons i order)
  let ?d = "sim_dev s"
  have i: "unat i < img_ap img"
    using Cons.prems(1) by simp
  have pl: "length (write_payload img i) \<le> 252"
    using length_write_payload [OF assms(1) i] assms(1) by (simp add: valid_image_def)
  from all_ok_step [OF Cons.prems(2) pl dev_write [OF assms(1,2) i Cons.prems(3)]]
  obtain s1 where s1: "all_ok s ((CMD_WRITE_PAGE, write_payload img i) # (map (\<lambda>i. (CMD_WRITE_PAGE, write_payload img i)) order @ reqs)) =
      all_ok s1 (map (\<lambda>i. (CMD_WRITE_PAGE, write_payload img i)) order @ reqs)" "sim_up s1"
    "sim_dev s1 = ?d\<lparr>dev_flash := put_at (unat i * img_ps img) (page_image img (unat i)) (dev_flash ?d)\<rparr>"
    by (auto simp: CMD_WRITE_PAGE_def CMD_BOOT_def)
  with Cons.IH [of s1] Cons.prems show ?case
    by auto
qed auto

text \<open>Whatever the order and the repetitions, the pages an update must write make the region.\<close>

lemma write_pages_cover:
  assumes v: "valid_image img" and sub: "set ks \<subseteq> {..<img_ap img}"
    and cover: "unat ` set (pages_list (pages img)) \<subseteq> set ks"
  shows "write_pages img ks (replicate (img_ps img * img_ap img) 0xFF) = region_image img"
proof (rule nth_equalityI)
  let ?n = "img_ps img * img_ap img" and ?e = "replicate (img_ps img * img_ap img) (0xFF :: u8)"
  let ?all = "map unat (pages_list (pages img))"
  have n: "0 < ?n"
    using v by (simp add: valid_image_def)
  have all: "set ?all \<subseteq> {..<img_ap img}"
    using cover sub by auto
  have len: "length (write_pages img ks ?e) = ?n"
    using nth_write_pages [OF v _ sub n, of ?e] by simp
  then show "length (write_pages img ks ?e) = length (region_image img)"
    using v by simp
  fix i
  assume "i < length (write_pages img ks ?e)"
  then have i: "i < ?n" using len by simp
  have "write_pages img ?all ?e ! i = (if i div img_ps img \<in> set ?all then region_image img ! i else 0xFF)"
    using nth_write_pages [OF v _ all i, of ?e] i by simp
  then have "i div img_ps img \<notin> set ?all \<Longrightarrow> region_image img ! i = 0xFF"
    using write_all_pages [OF v] by simp
  moreover have "write_pages img ks ?e ! i = (if i div img_ps img \<in> set ks then region_image img ! i else 0xFF)"
    using nth_write_pages [OF v _ sub i, of ?e] i by simp
  ultimately show "write_pages img ks ?e ! i = region_image img ! i"
    using cover by auto
qed

lemma acquired:
  assumes "\<not> hw_aborted (sim_hw s0)"
  shows "sim_up (sim_acquire s0)" and "sim_dev (sim_acquire s0) = \<lparr>dev_flash = replicate 4096 0xFF, dev_erased = False\<rparr>"
  using assms by (simp_all add: sim_acquire_def sim_reset_def sim_up_def healthy_def upd_init_def sim_dev_def)

lemma sim_image:
  assumes "from_bin bs 128 32 = Ok img"
  shows "valid_image img" "matches img sim_port_info" "img_ps img = 128" "img_ap img = 32"
    "region_image img = bs @ replicate (4080 - length bs) 0xFF @ footer img" "length bs \<le> 4080" "img_data img = bs"
  using from_bin_valid [OF assms]
  by (auto simp: img_ps_def img_ap_def matches_def sim_port_info_def region_image_def valid_image_def)

section \<open>Tampering\<close>

lemma u32_le_bytes_inj:
  assumes "u32_from_le_bytes a b c d = u32_from_le_bytes a' b' c' d'"
  shows "a = a' \<and> b = b' \<and> c = c' \<and> d = d'"
proof -
  have parts: "ucast (u32_from_le_bytes a b c d) = a" "ucast (drop_bit 8 (u32_from_le_bytes a b c d)) = b"
    "ucast (drop_bit 16 (u32_from_le_bytes a b c d)) = c" "ucast (drop_bit 24 (u32_from_le_bytes a b c d)) = d" for a b c d :: u8
    by (rule bit_word_eqI; auto simp: u32_from_le_bytes_def bit_simps dest: bit_imp_le_length)+
  show ?thesis
    using assms parts [of a b c d] parts [of a' b' c' d'] by simp
qed

lemma xor_differs: "m \<noteq> 0 \<Longrightarrow> b XOR m \<noteq> b" for b :: u8
  by (metis xor.assoc xor_self_eq xor.left_neutral)

text \<open>
  One changed byte of the measured data, of the magic or of the stored CRC closes the boot
  gate. (A changed length field is refused when the CRC of the other prefix differs, which
  depends on the data.)
\<close>

definition measured :: "image \<Rightarrow> nat \<Rightarrow> bool" where
  "measured img offset \<longleftrightarrow>
     (let base = img_ps img * img_ap img - 16
      in offset < length (img_data img) \<or> base \<le> offset \<and> offset < base + 4 \<or> base + 8 \<le> offset \<and> offset < base + 12)"

lemma tampered_region:
  assumes v: "valid_image img" and o': "measured img offset" and b: "b \<noteq> region_image img ! offset"
  shows "\<not> region_valid ((region_image img)[offset := b])"
proof
  let ?r = "region_image img" and ?n = "img_ps img * img_ap img" and ?l = "length (img_data img)"
  let ?r' = "?r[offset := b]"
  let ?f = "drop (?n - 16) ?r'"
  assume "region_valid ?r'"
  moreover have len: "length ?r' = ?n" and fit: "?l + 16 \<le> ?n"
    using v by (simp_all add: valid_image_def)
  ultimately have magic: "take 4 ?f = FOOTER_MAGIC"
    and crc: "crc32 (take (unat (u32_from_le_bytes (?f ! 4) (?f ! 5) (?f ! 6) (?f ! 7))) ?r') =
        u32_from_le_bytes (?f ! 8) (?f ! 9) (?f ! 10) (?f ! 11)"
    unfolding region_valid_def Let_def by (simp_all only: len)
  have footer: "drop (?n - 16) ?r = footer img"
    using fit by (simp add: region_image_def)
  have at: "?f ! k = (if offset = ?n - 16 + k then b else footer img ! k)" if "k < 16" for k
    using that fit len v by (simp flip: footer add: nth_list_update)
  have stored: "u32_from_le_bytes (footer img ! 4) (footer img ! 5) (footer img ! 6) (footer img ! 7) = img_len img"
    "u32_from_le_bytes (footer img ! 8) (footer img ! 9) (footer img ! 10) (footer img ! 11) = img_crc img"
    by (simp_all add: footer_def FOOTER_MAGIC_def u32_to_le_bytes_def)
  have old: "img_crc img = crc32 (img_data img)"
    using v by (simp add: valid_image_def)
  consider (data) "offset < ?l" | (magic) "?n - 16 \<le> offset" "offset < ?n - 16 + 4"
    | (crc) "?n - 16 + 8 \<le> offset" "offset < ?n - 16 + 12"
    using o' by (auto simp: measured_def Let_def)
  then show False
  proof cases
    case data
    with fit have "?f ! k = footer img ! k" if "k < 16" for k
      using at [OF that] by auto
    then have "crc32 (take ?l ?r') = img_crc img"
      using crc stored unat_img_len [OF v] by simp
    moreover have "take ?l ?r' = (img_data img)[offset := b]"
      using take_data [OF v] by (simp add: take_update_swap)
    moreover have "?r ! offset = img_data img ! offset"
      using data by (simp add: region_image_def nth_append)
    ultimately show False
      using crc32_one_byte [OF data, of b] b old by simp
  next
    case magic
    then obtain k where k: "offset = ?n - 16 + k" "k < 4"
      by (metis add_less_cancel_left le_Suc_ex)
    have "take 4 (footer img) = FOOTER_MAGIC"
      by (simp add: footer_def FOOTER_MAGIC_def)
    then have "take 4 ?f ! k = take 4 (footer img) ! k"
      using \<open>take 4 ?f = FOOTER_MAGIC\<close> by simp
    then have "b = footer img ! k"
      using at [of k] k by simp
    also have "\<dots> = ?r ! offset"
      using k fit v by (simp flip: footer)
    finally show False using b by simp
  next
    case crc
    then obtain k where k: "offset = ?n - 16 + (8 + k)" "k < 4"
      by (intro that [of "offset - (?n - 16 + 8)"]) auto
    have "?f ! j = footer img ! j" if "j < 8" for j
      using at [of j] that k by auto
    moreover have "take ?l ?r' = img_data img"
      using k fit take_data [OF v] by (simp add: take_update_cancel)
    ultimately have "u32_from_le_bytes (?f ! 8) (?f ! 9) (?f ! 10) (?f ! 11) = img_crc img"
      using \<open>crc32 _ = _\<close> stored(1) unat_img_len [OF v] old by simp
    with stored(2) have "?f ! 8 = footer img ! 8 \<and> ?f ! 9 = footer img ! 9 \<and> ?f ! 10 = footer img ! 10 \<and> ?f ! 11 = footer img ! 11"
      by (intro u32_le_bytes_inj) simp
    then have "?f ! (8 + k) = footer img ! (8 + k)"
      using k(2) by (auto simp: less_Suc_eq numeral_eq_Suc)
    then have "b = footer img ! (8 + k)"
      using at [of "8 + k"] k by simp
    also have "\<dots> = ?r ! offset"
      using k fit v by (simp flip: footer)
    finally show False using b by simp
  qed
qed

section \<open>The whole alphabet\<close>

datatype fsm_state = Fresh | Erased

datatype variant = WellformedEmpty | WellformedMax | BadCrc | LenMismatch | Truncated nat

definition VARIANTS :: "variant list" where
  "VARIANTS = [WellformedEmpty, WellformedMax, BadCrc, LenMismatch, Truncated 0, Truncated 1, Truncated 2]"

fun parseable :: "variant \<Rightarrow> bool" where
  "parseable WellformedEmpty \<longleftrightarrow> True"
| "parseable WellformedMax \<longleftrightarrow> True"
| "parseable _ \<longleftrightarrow> False"

definition wellformed :: "u8 \<Rightarrow> bytes \<Rightarrow> bytes option" where
  "wellformed c pl = (case encode c pl (replicate 256 0) of (Err _, _) \<Rightarrow> None | (Ok n, buf) \<Rightarrow> Some (take n buf))"

fun stimulus :: "u8 \<Rightarrow> variant \<Rightarrow> bytes option" where
  "stimulus c WellformedEmpty = wellformed c []"
| "stimulus c WellformedMax = wellformed c (replicate 252 0xA5)"
| "stimulus c BadCrc = map_option (\<lambda>f. f[length f - 1 := last f XOR 0xFF]) (wellformed c [])"
| "stimulus c LenMismatch = (let body = [c, 5, 0xAA] in Some (body @ [crc8 body]))"
| "stimulus c (Truncated k) = map_option (take k) (wellformed c [])"

text \<open>The specification table of the wire protocol.\<close>

definition expected_status :: "fsm_state \<Rightarrow> u8 \<Rightarrow> variant \<Rightarrow> u8" where
  "expected_status state c v =
     (if \<not> parseable v then ST_BAD_FRAME
      else if c = CMD_INFO then ST_OK
      else if c = CMD_ERASE_APP then ST_BAD_MAGIC
      else if c = CMD_WRITE_PAGE then (case state of Fresh \<Rightarrow> ST_NOT_ERASED | Erased \<Rightarrow> ST_BAD_FRAME)
      else if c = CMD_VERIFY then ST_BAD_FRAME
      else if c = CMD_BOOT then ST_NO_APP
      else if c = CMD_ECHO then (if v = WellformedEmpty then ST_OK else ST_BAD_FRAME)
      else ST_BAD_CMD)"

definition enter_state :: "sim \<Rightarrow> fsm_state \<Rightarrow> bool \<times> sim" where
  "enter_state s state =
     (let s = sim_reset False s in
      case state of Fresh \<Rightarrow> (True, s) | Erased \<Rightarrow> all_ok s [(CMD_ERASE_APP, ERASE_MAGIC)])"

text \<open>What the test asserts of an answer.\<close>

definition answer_ok :: "fsm_state \<Rightarrow> u8 \<Rightarrow> variant \<Rightarrow> bytes \<Rightarrow> bool" where
  "answer_ok state c v resp \<longleftrightarrow>
     resp \<noteq> [] \<and>
     (case decode resp of
        Err _ \<Rightarrow> False
      | Ok rsp \<Rightarrow>
          decode_padded (put_at 0 resp (replicate 259 0xFF)) = Ok rsp \<and>
          (case payload rsp of
             [] \<Rightarrow> False
           | st # rest \<Rightarrow>
               st = expected_status state c v \<and> (parseable v \<longrightarrow> cmd rsp = c OR RSP_FLAG) \<and>
               (if st = ST_OK then
                  (if c = CMD_INFO then length (payload rsp) = 12 else if c = CMD_ECHO then payload rsp = [ST_OK] else False)
                else length (payload rsp) = 1)))"

definition cell :: "sim \<Rightarrow> fsm_state \<Rightarrow> u8 \<Rightarrow> variant \<Rightarrow> bool \<times> sim" where
  "cell s state c v =
     (let (entered, s) = enter_state s state; before = flash_snapshot s in
      case stimulus c v of
        None \<Rightarrow> (False, s)
      | Some stim \<Rightarrow>
          let (resp, s) = sim_rust_request stim s
          in (entered \<and> answer_ok state c v resp \<and> flash_snapshot s = before, s))"

text \<open>The sweep, over any list of cells: the simulated device goes from one to the next.\<close>

fun sweep :: "sim \<Rightarrow> fsm_state \<Rightarrow> (u8 \<times> variant) list \<Rightarrow> bool" where
  "sweep s state [] \<longleftrightarrow> True"
| "sweep s state ((c, v) # cells) \<longleftrightarrow> (let (ok, s) = cell s state c v in ok \<and> sweep s state cells)"

lemma wellformed_eq: "length pl \<le> 252 \<Longrightarrow> wellformed c pl = Some (wire c pl)"
  by (simp add: wellformed_def encode_spec)

lemma unparseable:
  assumes "v \<in> set VARIANTS" and "\<not> parseable v"
  shows "\<exists>stim. stimulus c v = Some stim \<and> \<not> is_ok (decode stim) \<and> length stim \<le> 4"
proof -
  have short: "\<not> is_ok (decode bs)" if "length bs < 3" for bs
    using that by (auto simp: is_ok_iff decode_iff)
  have crc: "\<not> is_ok (decode ((wire c [])[2 := wire c [] ! 2 XOR 0xFF]))"
    by (rule decode_one_byte [of _ "\<lparr>cmd = c, payload = []\<rparr>"]) (simp_all add: xor_differs)
  have last: "last (wire c []) = wire c [] ! 2"
    by (simp add: last_conv_nth numeral_2_eq_2 flip: length_greater_0_conv)
  have len: "\<not> is_ok (decode [c, 5, 0xAA, x])" for x
    by (auto simp: is_ok_iff decode_iff wire_crc append_eq_Cons_conv Cons_eq_append_conv eq_commute [of "[_]"])
  show ?thesis
    using assms short [of "take 0 (wire c [])"] short [of "take 1 (wire c [])"] short [of "take 2 (wire c [])"] crc len
    by (auto simp: VARIANTS_def wellformed_eq last numeral_2_eq_2)
qed

lemma answer_wire:
  assumes "1 \<le> length out" and "length out \<le> 17" and "hd out = expected_status state c v"
    and "parseable v \<Longrightarrow> r = c OR RSP_FLAG"
    and "if hd out = ST_OK then c = CMD_INFO \<and> length out = 12 \<or> c = CMD_ECHO \<and> out = [ST_OK] else length out = 1"
  shows "answer_ok state c v (wire r out)"
proof -
  have "put_at 0 (wire r out) (replicate 259 0xFF) = wire r out @ replicate (256 - length out) 0xFF"
    using assms(2) by (simp add: put_at_def)
  moreover have "wire r out \<noteq> []"
    by (simp flip: length_greater_0_conv)
  ultimately show ?thesis
    using assms by (cases out) (auto simp: answer_ok_def CMD_INFO_def CMD_ECHO_def split: if_splits)
qed

lemma blank_invalid: "\<not> region_valid (replicate 4096 0xFF)"
  by (rule blank_footer_invalid) simp_all

lemma entered:
  assumes "\<not> hw_aborted (sim_hw s)"
  shows "\<exists>s'. enter_state s state = (True, s') \<and> sim_up s' \<and>
     sim_dev s' = \<lparr>dev_flash = replicate 4096 0xFF, dev_erased = (state = Erased)\<rparr>"
proof (cases state)
  case Fresh
  then show ?thesis
    using acquired [OF assms] by (simp add: enter_state_def sim_acquire_def)
next
  case Erased
  from all_ok_step [OF acquired(1) [OF assms] _ dev_erase, of "[]"] acquired(2) [OF assms] Erased show ?thesis
    by (auto simp: enter_state_def sim_acquire_def ERASE_MAGIC_def CMD_ERASE_APP_def CMD_BOOT_def)
qed

lemma parsed_cell:
  assumes d: "dev_flash d = replicate 4096 0xFF" "dev_erased d = (state = Erased)"
    and v: "parseable v" and pl: "pl = (if v = WellformedEmpty then [] else replicate 252 0xA5)"
  shows "\<exists>out. dev_step sim_port_info d c pl = (out, d) \<and> hd out = expected_status state c v \<and>
     (if hd out = ST_OK then c = CMD_INFO \<and> length out = 12 \<or> c = CMD_ECHO \<and> out = [ST_OK] else length out = 1)"
proof -
  have "pl \<noteq> ERASE_MAGIC" "length pl \<noteq> 130" "length pl \<noteq> 8"
    using pl by (auto simp: ERASE_MAGIC_def dest: arg_cong [where f = length])
  then show ?thesis
    using v pl blank_invalid d
    by (cases state) (auto simp: dev_step_def expected_status_def info_payload_def sim_port_info_def u16_to_le_bytes_def
        ST_OK_def ST_BAD_MAGIC_def ST_NOT_ERASED_def ST_BAD_FRAME_def ST_NO_APP_def ST_BAD_CMD_def Let_def)
qed

lemma cell_passes:
  assumes up: "\<not> hw_aborted (sim_hw s)" and v: "v \<in> set VARIANTS"
  shows "\<exists>s'. cell s state c v = (True, s') \<and> \<not> hw_aborted (sim_hw s')"
proof -
  obtain s1 where s1: "enter_state s state = (True, s1)" "sim_up s1"
    "sim_dev s1 = \<lparr>dev_flash = replicate 4096 0xFF, dev_erased = (state = Erased)\<rparr>"
    using entered [OF up] by blast
  show ?thesis
  proof (cases "parseable v")
    case False
    from unparseable [OF v this] obtain stim where stim: "stimulus c v = Some stim" "\<not> is_ok (decode stim)" "length stim \<le> 4"
      by blast
    then obtain r where "sim_rust_request stim s1 = (wire r [ST_BAD_FRAME], s1)"
      using sim_junk [OF s1(2), of stim] by auto
    moreover have "answer_ok state c v (wire r [ST_BAD_FRAME])"
      using False by (intro answer_wire) (simp_all add: expected_status_def ST_BAD_FRAME_def ST_OK_def)
    ultimately show ?thesis
      using s1 stim by (simp add: cell_def sim_up_def healthy_def)
  next
    case True
    define pl where "pl = (if v = WellformedEmpty then [] else replicate 252 (0xA5 :: u8))"
    have pl: "length pl \<le> 252" "stimulus c v = Some (wire c pl)"
      using True by (cases v; simp add: pl_def wellformed_eq)+
    from parsed_cell [OF _ _ True pl_def, of "sim_dev s1" state c] s1(3) obtain out where
      out: "dev_step sim_port_info (sim_dev s1) c pl = (out, sim_dev s1)" "hd out = expected_status state c v"
        "if hd out = ST_OK then c = CMD_INFO \<and> length out = 12 \<or> c = CMD_ECHO \<and> out = [ST_OK] else length out = 1"
      by auto
    have "\<not> region_valid (hw_flash (sim_hw s1))"
      using s1(3) blank_invalid by (simp add: sim_dev_def)
    with sim_cycle [OF s1(2) pl(1) out(1)] obtain s2 where
      s2: "sim_rust_request (wire c pl) s1 = (wire (c OR RSP_FLAG) out, s2)" "sim_dev s2 = sim_dev s1" "1 \<le> length out"
        "length out \<le> 17" "healthy (sim_hw s2)"
      by auto
    from answer_wire [OF s2(3,4) out(2) _ out(3), of "c OR RSP_FLAG"] have "answer_ok state c v (wire (c OR RSP_FLAG) out)"
      by simp
    with s1 s2 pl show ?thesis
      by (simp add: cell_def flash_snapshot_def sim_dev_def healthy_def)
  qed
qed

section \<open>Properties\<close>

text \<open>
  C12: page order does not matter. On an erased device, write requests for pages of the
  region in any order and with any repetitions, as long as every page an update must write
  is among them, are all accepted; the image then verifies, the region is exactly the
  image's, and BOOT is accepted and jumps.
\<close>

theorem any_write_order:
  assumes "from_bin bs 128 32 = Ok img" and "\<not> hw_aborted (sim_hw s0)"
    and "set (pages_list (pages img)) \<subseteq> set order" and "\<forall>i \<in> set order. unat i < 32"
  shows "\<exists>s'. all_ok (sim_acquire s0)
         ((CMD_ERASE_APP, ERASE_MAGIC) # page_writes img order @ [verify_request img, (CMD_BOOT, [])]) = (True, s')
     \<and> flash_snapshot s' = bs @ replicate (4080 - length bs) 0xFF @ footer img
     \<and> hw_jumped (sim_hw s')"
proof -
  note img = sim_image [OF assms(1)] and start = acquired [OF assms(2)]
  let ?writes = "map (\<lambda>i. (CMD_WRITE_PAGE, write_payload img i)) order" and ?rest = "[verify_request img, (CMD_BOOT, [])]"
  have idx: "\<forall>i \<in> set order. unat i < img_ap img"
    using assms(4) img(4) by simp
  from all_ok_step [OF start(1) _ dev_erase, of "?writes @ ?rest"] obtain s1 where
    s1: "all_ok (sim_acquire s0) ((CMD_ERASE_APP, ERASE_MAGIC) # ?writes @ ?rest) = all_ok s1 (?writes @ ?rest)"
      "sim_up s1" "sim_dev s1 = \<lparr>dev_flash = replicate 4096 0xFF, dev_erased = True\<rparr>"
    using start(2) by (auto simp: ERASE_MAGIC_def CMD_ERASE_APP_def CMD_BOOT_def)
  have erased: "dev_erased (sim_dev s1)"
    using s1(3) by simp
  have cover: "write_pages img (map unat order) (replicate (img_ps img * img_ap img) 0xFF) = region_image img"
    using assms(3) idx by (intro write_pages_cover [OF img(1)]) auto
  from all_ok_writes [OF img(1,2) idx s1(2) erased, of ?rest] obtain s2 where
    s2: "all_ok s1 (?writes @ ?rest) = all_ok s2 ?rest" "sim_up s2"
      "sim_dev s2 = \<lparr>dev_flash = region_image img, dev_erased = True\<rparr>"
    using s1(3) cover img(3,4) by auto
  have verify: "dev_step sim_port_info (sim_dev s2) CMD_VERIFY (verify_payload img) = ([ST_OK], sim_dev s2)"
    using s2(3) by (intro dev_verify [OF img(1)]) simp
  have "verify_request img = (CMD_VERIFY, verify_payload img)" "length (verify_payload img) \<le> 252"
    by (simp_all add: verify_request_def verify_payload_def)
  with all_ok_step [OF s2(2) _ verify, of "[(CMD_BOOT, [])]"] obtain s3 where
    s3: "all_ok s2 ?rest = all_ok s3 [(CMD_BOOT, [])]" "sim_up s3" "sim_dev s3 = sim_dev s2"
    by (auto simp: CMD_VERIFY_def CMD_BOOT_def)
  have valid: "region_valid (hw_flash (sim_hw s3))"
    using s2(3) s3(3) region_image_valid [OF img(1)] by (simp add: sim_dev_def)
  then have "dev_step sim_port_info (sim_dev s3) CMD_BOOT [] = ([ST_OK], sim_dev s3)"
    by (simp add: dev_step_boot sim_dev_def)
  from raw_eq [OF s3(2) _ this] valid obtain s4 where
    s4: "all_ok s3 [(CMD_BOOT, [])] = (True, s4)" "sim_dev s4 = sim_dev s3" "hw_jumped (sim_hw s4)"
    by auto
  have "hw_flash (sim_hw s4) = region_image img"
    using s2(3) s3(3) s4(2) by (simp add: sim_dev_def)
  then have "flash_snapshot s4 = bs @ replicate (4080 - length bs) 0xFF @ footer img"
    using img(5,6) by (simp add: flash_snapshot_def)
  with s1(1) s2(1) s3(1) s4 page_writes_eq [OF img(1,3) idx] show ?thesis
    by auto
qed

theorem any_write_order_witness:
  "\<exists>s'. all_ok (sim_acquire fresh_sim)
         ((CMD_ERASE_APP, ERASE_MAGIC) # page_writes blinky (31 # rev (map word_of_nat [0..<32])) @ [verify_request blinky, (CMD_BOOT, [])])
           = (True, s')
     \<and> flash_snapshot s' = [1, 2, 3] @ replicate 4077 0xFF @ footer blinky
     \<and> hw_jumped (sim_hw s')"
proof -
  let ?order = "31 # rev (map word_of_nat [0..<32]) :: u16 list"
  have "i \<in> set ?order" if "i \<in> set (pages_list (pages blinky))" for i
  proof -
    have "unat i < 32"
      using pages_in_region [OF that] sim_image(4) [OF blinky_from_bin] by simp
    then show ?thesis
      by (auto simp: image_iff intro: bexI [of _ "unat i"])
  qed
  then have "set (pages_list (pages blinky)) \<subseteq> set ?order" and "\<forall>i \<in> set ?order. unat i < 32"
    by (auto simp: unat_of_nat)
  from any_write_order [OF blinky_from_bin fresh_sim_alive this] show ?thesis by simp
qed

text \<open>
  C13: no tampered image boots. Let the region hold a valid image and change any one byte of
  the measured data, of the footer's magic or of its CRC: BOOT is answered with \<open>ST_NO_APP\<close>
  and does not jump, and VERIFY with the image's length and CRC sees a change of the data.
\<close>

theorem tampering_refused:
  assumes "from_bin bs 128 32 = Ok img" and "sim_up s" and "hw_flash (sim_hw s) = region_image img"
    and "measured img offset" and "m \<noteq> 0"
  shows "(\<exists>s'. raw (flash_xor offset m s) CMD_BOOT [] = (Some [ST_NO_APP], s') \<and> \<not> hw_jumped (sim_hw s')) \<and>
     fst (raw (flash_xor offset m s) CMD_VERIFY (snd (verify_request img))) =
       Some [if offset < length bs then ST_BAD_CRC else ST_OK]"
proof -
  note img = sim_image [OF assms(1)]
  let ?s = "flash_xor offset m s" and ?r = "region_image img"
  let ?b = "?r ! offset XOR m"
  have o': "offset < 4096"
    using assms(4) img(3,4,6,7) by (auto simp: measured_def Let_def)
  then have s: "sim_up ?s" "hw_flash (sim_hw ?s) = ?r[offset := ?b]" "dev_flash (sim_dev ?s) = ?r[offset := ?b]"
    using assms(2,3) by (simp_all add: flash_xor_def sim_up_def healthy_def sim_dev_def Let_def)
  have invalid: "\<not> region_valid (?r[offset := ?b])"
    by (rule tampered_region [OF img(1) assms(4) xor_differs [OF assms(5)]])
  then have "dev_step sim_port_info (sim_dev ?s) CMD_BOOT [] = ([ST_NO_APP], sim_dev ?s)"
    using s(3) by (simp add: dev_step_boot)
  from raw_eq [OF s(1) _ this] invalid s(2) have
    boot: "\<exists>s'. raw ?s CMD_BOOT [] = (Some [ST_NO_APP], s') \<and> \<not> hw_jumped (sim_hw s')"
    by (auto simp: sim_up_def healthy_def)
  have crc: "crc32 (take (length bs) (?r[offset := ?b])) = img_crc img \<longleftrightarrow> \<not> offset < length bs"
  proof (cases "offset < length bs")
    case True
    have "take (length bs) ?r = bs" "?r ! offset = bs ! offset"
      using take_data [OF img(1)] img(5,7) True by (simp_all add: nth_append)
    then show ?thesis
      using True img(1,7) crc32_one_byte [OF True xor_differs [OF assms(5)]] by (simp add: take_update_swap valid_image_def)
  next
    case False
    then show ?thesis
      using take_data [OF img(1)] img(1,7) by (simp add: take_update_cancel valid_image_def)
  qed
  have verify: "dev_step sim_port_info (sim_dev ?s) CMD_VERIFY (verify_payload img) =
      ([if offset < length bs then ST_BAD_CRC else ST_OK], sim_dev ?s)"
    using dev_verify_step [OF img(1), of "sim_dev ?s"] s(3) crc img(1,3,4,7) by simp
  have "length (verify_payload img) \<le> 252" "verify_request img = (CMD_VERIFY, verify_payload img)"
    by (simp_all add: verify_payload_def verify_request_def)
  with raw_eq [OF s(1) _ verify] boot show ?thesis by auto
qed

theorem tampering_refused_witness:
  "let s = sim_acquire fresh_sim; s = s\<lparr>sim_hw := (sim_hw s)\<lparr>hw_flash := region_image blinky\<rparr>\<rparr> in
   (\<exists>s'. raw (flash_xor 1 0x40 s) CMD_BOOT [] = (Some [ST_NO_APP], s') \<and> \<not> hw_jumped (sim_hw s')) \<and>
     fst (raw (flash_xor 1 0x40 s) CMD_VERIFY (snd (verify_request blinky))) = Some [ST_BAD_CRC]"
proof -
  let ?s0 = "sim_acquire fresh_sim"
  let ?s = "?s0\<lparr>sim_hw := (sim_hw ?s0)\<lparr>hw_flash := region_image blinky\<rparr>\<rparr>"
  have "sim_up ?s" "hw_flash (sim_hw ?s) = region_image blinky"
    using acquired(1) [OF fresh_sim_alive] sim_image(1,3,4) [OF blinky_from_bin] by (simp_all add: sim_up_def healthy_def)
  moreover have "measured blinky 1"
    using sim_image(7) [OF blinky_from_bin] by (simp add: measured_def)
  ultimately show ?thesis
    using tampering_refused [OF blinky_from_bin, of ?s 1 "0x40"] by (simp only: Let_def) simp
qed

text \<open>
  C14: the protocol table holds for the whole alphabet. In both session states, for every
  command byte and every frame variant, in any sequence of cells, the C device answers one
  valid frame with the status of the specification table and the right command and payload
  length, and its flash is the same before and after.
\<close>

theorem fsm_exhaustive:
  assumes "\<not> hw_aborted (sim_hw s0)" and "snd ` set cells \<subseteq> set VARIANTS"
  shows "sweep (sim_acquire s0) state cells"
proof -
  have "sweep s state cells" if "\<not> hw_aborted (sim_hw s)" for s
    using assms(2) that
  proof (induction cells arbitrary: s)
    case (Cons x cells)
    obtain c v where x: "x = (c, v)"
      by fastforce
    with Cons.prems(1) have "v \<in> set VARIANTS" by simp
    from cell_passes [OF Cons.prems(2) this] obtain s' where "cell s state c v = (True, s')" "\<not> hw_aborted (sim_hw s')"
      by blast
    with Cons x show ?case by simp
  qed simp
  then show ?thesis
    using acquired(1) [OF assms(1)] by (simp add: sim_up_def healthy_def)
qed

theorem fsm_exhaustive_witness: "sweep (sim_acquire fresh_sim) Erased (List.product (map word_of_nat [0..<256]) VARIANTS)"
  by (rule fsm_exhaustive [OF fresh_sim_alive]) auto

end
