(* ===== verification/Stream_Campaigns.thy ===== *)
theory Stream_Campaigns
  imports End_To_End
begin

text \<open>
  The device's byte stream in pieces: the tests of \<^verbatim>\<open>conformance/tests/stream.rs\<close> on torn
  requests, leading garbage and several requests in one pump, as one statement about every
  way to cut a stream into pumps.
\<close>

section \<open>What the core leaves alone\<close>

text \<open>A predicate of the device that reads keep, and one that programming keeps as well.\<close>

locale port_reads =
  fixes port :: "'w port" and I :: "'w \<Rightarrow> bool"
  assumes read_keeps: "I w \<Longrightarrow> I (snd (port_flash_read_byte port off w))"
begin

lemma read_keepsD: "port_flash_read_byte port off w = (b, w') \<Longrightarrow> I w \<Longrightarrow> I w'"
  using read_keeps [of w off] by simp

lemma flash_crc_loop_keeps: "flash_crc_loop port k off c w = (r, w') \<Longrightarrow> I w \<Longrightarrow> I w'"
  by (induction k arbitrary: off c w) (auto simp: read_keepsD split: prod.splits)

lemma flash_crc_keeps: "flash_crc port len w = (r, w') \<Longrightarrow> I w \<Longrightarrow> I w'"
  by (auto simp: flash_crc_def flash_crc_loop_keeps split: prod.splits)

lemma flash_matches_keeps: "flash_matches port off ms w = (r, w') \<Longrightarrow> I w \<Longrightarrow> I w'"
  by (induction ms arbitrary: off w) (auto simp: read_keepsD split: prod.splits if_splits)

lemma footer_words_keeps: "footer_words port base i k len crc w = (a, b, w') \<Longrightarrow> I w \<Longrightarrow> I w'"
proof (induction k arbitrary: i len crc w)
  case (Suc k)
  obtain b1 w1 b2 w2 where r: "port_flash_read_byte port (base + 4 + word_of_nat i) w = (b1, w1)"
      "port_flash_read_byte port (base + 8 + word_of_nat i) w1 = (b2, w2)"
    using prod.exhaust by metis
  with Suc show ?case
    by (simp add: read_keepsD Let_def)
qed simp

lemma app_valid_keeps: "upd_app_valid port pinfo w = (r, w') \<Longrightarrow> I w \<Longrightarrow> I w'"
  by (auto simp: upd_app_valid_def Let_def simp del: flash_matches.simps footer_words.simps split: prod.splits if_splits
      dest: flash_matches_keeps footer_words_keeps flash_crc_keeps)

end

locale port_keeps = port_reads port I
  for port :: "'w port" and I +
  assumes erase_keeps: "I w \<Longrightarrow> I (port_flash_erase_page port p w)"
    and write_keeps: "I w \<Longrightarrow> I (port_flash_write_page port p data w)"
begin

lemma erase_loop_keeps: "I w \<Longrightarrow> I (erase_loop port k p w)"
  by (induction k arbitrary: p w) (simp_all add: erase_keeps)

lemma handle_keeps: "upd_handle port s req rsp cap w = (n, rsp', s', w') \<Longrightarrow> I w \<Longrightarrow> I w'"
  by (auto 0 4 simp: upd_handle_def handle_info_def handle_erase_def handle_write_def handle_verify_def Let_def
      erase_loop_keeps write_keeps split: prod.splits if_splits dest: app_valid_keeps flash_crc_keeps)

end

text \<open>Only the gate jumps, and the gate does not take the power.\<close>

interpretation jumps: port_keeps sim_port "\<lambda>w. hw_jumped w = j" for j
  by unfold_locales
    (auto simp: sim_port_def sim_read_byte_def sim_erase_page_def sim_write_page_def op_tears_def Let_def)

interpretation power: port_reads sim_port "\<lambda>w. hw_dead w = d" for d
  by unfold_locales (simp add: sim_port_def sim_read_byte_def)

lemma take_gate_power: "hw_dead (sim_hw (take_gate s)) = hw_dead (sim_hw s)"
  using power.app_valid_keeps [of "us_info (sim_session s)" "sim_hw s"]
  by (auto simp: take_gate_def upd_boot_if_valid_def sim_port_def sim_jump_to_app_def Let_def split: prod.splits if_splits)

lemma take_gate_ungated: "\<not> us_boot_pending (sim_session s) \<Longrightarrow> hw_jumped (sim_hw (take_gate s)) = hw_jumped (sim_hw s)"
  by (simp add: take_gate_idle)

section \<open>The stream cycle in pieces\<close>

text \<open>One turn of \<open>stream_loop\<close> after a request was assembled: where it goes on, if it does.\<close>

definition serve :: "nat \<Rightarrow> upd_frame \<Rightarrow> link \<Rightarrow> bytes \<Rightarrow> sim \<Rightarrow> bool \<times> bytes \<times> sim" where
  "serve cap req l out s =
     (let (plen, pl, ses, w) = upd_handle sim_port (sim_session s) req (replicate 252 0) 252 (sim_hw s);
          s = s\<lparr>sim_link := l, sim_session := ses, sim_hw := w\<rparr>;
          (n, fr) = upd_frame_build (replicate 255 0) 255 (uf_cmd req OR RSP_FLAG) pl plen
      in if hw_dead (sim_hw s) then (False, out, s)
         else let (out, s) = stream_put_all cap (link_send fr n) out s; gated = us_boot_pending (sim_session s); s = take_gate s
              in (\<not> (gated \<and> hw_jumped (sim_hw s)), out, s))"

lemma serve_link [simp]: "serve cap req l out (s\<lparr>sim_link := l'\<rparr>) = serve cap req l out s"
  by (simp add: serve_def)

lemma stream_loop_serve:
  "stream_loop cap fifo out s =
     (case link_poll (sim_link s) fifo of
        (None, l, _) \<Rightarrow> (out, s\<lparr>sim_link := l\<rparr>)
      | (Some req, l, rest) \<Rightarrow>
          let (on, out, s) = serve cap req l out s in if on then stream_loop cap rest out s else (out, s))"
  by (subst stream_loop.simps) (auto simp: serve_def Let_def split: prod.splits option.splits)

definition running :: "sim \<Rightarrow> bool" where
  "running s \<longleftrightarrow> \<not> hw_dead (sim_hw s) \<and> \<not> hw_jumped (sim_hw s)"

text \<open>The loop stops exactly when the device has lost power or has jumped.\<close>

lemma serve_running:
  assumes "running s" and "serve cap req l out s = (on, out', s')"
  shows "on = running s'"
proof -
  obtain plen pl ses w where h: "upd_handle sim_port (sim_session s) req (replicate 252 0) 252 (sim_hw s) = (plen, pl, ses, w)"
    using prod_cases4 by blast
  have "hw_jumped w = hw_jumped (sim_hw s)"
    using jumps.handle_keeps [OF h] by simp
  then show ?thesis
    using assms take_gate_power take_gate_ungated
    by (auto simp: serve_def h running_def stream_put_all_def Let_def split: prod.splits if_splits)
qed

lemma stream_loop_append:
  assumes "running s" and "stream_loop cap a out s = (out', s')"
  shows "stream_loop cap (a @ b) out s = (if running s' then stream_loop cap b out' s' else (out', s'))"
  using assms
proof (induction "length a" arbitrary: a out s rule: less_induct)
  case less
  obtain q l rest where lp: "link_poll (sim_link s) a = (q, l, rest)"
    using prod_cases3 by blast
  show ?case
  proof (cases q)
    case None
    with less.prems lp have "out' = out" "s' = s\<lparr>sim_link := l\<rparr>"
      by (simp_all add: stream_loop_serve [of cap a])
    with less.prems(1) lp None show ?thesis
      by (simp add: stream_loop_serve [of cap "a @ b"] stream_loop_serve [of cap b] link_poll_append running_def
          split: prod.splits option.splits)
  next
    case (Some req)
    obtain on out1 s1 where sv: "serve cap req l out s = (on, out1, s1)"
      using prod_cases3 by blast
    note on = serve_running [OF less.prems(1) sv]
    have shorter: "length rest < length a"
      using length_link_poll lp Some by blast
    show ?thesis
    proof (cases on)
      case True
      with less.prems(2) lp Some sv have "stream_loop cap rest out1 s1 = (out', s')"
        by (simp add: stream_loop_serve [of cap a])
      from less.hyps [OF shorter _ this] True on
      have "stream_loop cap (rest @ b) out1 s1 = (if running s' then stream_loop cap b out' s' else (out', s'))"
        by simp
      with True lp Some sv show ?thesis
        by (simp add: stream_loop_serve [of cap "a @ b"] link_poll_append)
    next
      case False
      with less.prems(2) lp Some sv have "out' = out1" "s' = s1"
        by (simp_all add: stream_loop_serve [of cap a])
      with False on lp Some sv show ?thesis
        by (simp add: stream_loop_serve [of cap "a @ b"] link_poll_append)
    qed
  qed
qed

text \<open>What was sent before does not matter while the reply buffer has room.\<close>

lemma serve_extends:
  assumes "serve cap req l out s = (on, out', s')"
  shows "\<exists>d. out' = out @ d"
  using assms by (auto simp: serve_def stream_put_all_def Let_def split: prod.splits if_splits)

lemma stream_loop_extends:
  "stream_loop cap fifo out s = (out', s') \<Longrightarrow> \<exists>d. out' = out @ d"
proof (induction "length fifo" arbitrary: fifo out s rule: less_induct)
  case less
  obtain q l rest where lp: "link_poll (sim_link s) fifo = (q, l, rest)"
    using prod_cases3 by blast
  show ?case
  proof (cases q)
    case None
    with less.prems lp show ?thesis
      by (simp add: stream_loop_serve [of cap fifo])
  next
    case (Some req)
    obtain on out1 s1 where sv: "serve cap req l out s = (on, out1, s1)"
      using prod_cases3 by blast
    have "length rest < length fifo"
      using length_link_poll lp Some by blast
    from less.hyps [OF this] serve_extends [OF sv] less.prems lp Some sv show ?thesis
      by (cases on) (fastforce simp: stream_loop_serve [of cap fifo])+
  qed
qed

lemma serve_shift:
  assumes "serve cap req l out s = (on, out @ d, s')" and "length pre + length out + length d < cap"
  shows "serve cap req l (pre @ out) s = (on, pre @ out @ d, s')"
  using assms by (auto simp: serve_def stream_put_all_def Let_def split: prod.splits if_splits)

lemma stream_loop_shift:
  assumes "stream_loop cap fifo out s = (out @ d, s')" and "length pre + length out + length d < cap"
  shows "stream_loop cap fifo (pre @ out) s = (pre @ out @ d, s')"
  using assms
proof (induction "length fifo" arbitrary: fifo out d s rule: less_induct)
  case less
  obtain q l rest where lp: "link_poll (sim_link s) fifo = (q, l, rest)"
    using prod_cases3 by blast
  show ?case
  proof (cases q)
    case None
    with less.prems lp show ?thesis
      by (simp add: stream_loop_serve [of cap fifo])
  next
    case (Some req)
    obtain on out1 s1 where sv: "serve cap req l out s = (on, out1, s1)"
      using prod_cases3 by blast
    obtain d1 where out1: "out1 = out @ d1"
      using serve_extends [OF sv] by blast
    have shorter: "length rest < length fifo"
      using length_link_poll lp Some by blast
    have step: "(if on then stream_loop cap rest out1 s1 else (out1, s1)) = (out @ d, s')"
      using less.prems(1) lp Some sv by (simp add: stream_loop_serve [of cap fifo])
    then obtain d2 where d: "d = d1 @ d2"
      using out1 stream_loop_extends [of cap rest out1 s1] by (cases on) fastforce+
    have sv': "serve cap req l (pre @ out) s = (on, pre @ out1, s1)"
      using serve_shift [of cap req l out s on d1 s1 pre] sv less.prems(2) by (simp add: out1 d)
    have "on \<Longrightarrow> stream_loop cap rest (pre @ out1) s1 = (pre @ out1 @ d2, s')"
      using less.hyps [OF shorter, of out1 s1 d2] step less.prems(2) by (simp add: out1 d)
    with step lp Some sv' show ?thesis
      by (cases on) (simp_all add: stream_loop_serve [of cap fifo] out1 d)
  qed
qed

section \<open>Properties\<close>

text \<open>The pumps of a test, one after the other, with all that the device sent.\<close>

fun pumps :: "bytes list \<Rightarrow> sim \<Rightarrow> bytes \<times> sim" where
  "pumps [] s = ([], s)"
| "pumps (bs # bss) s =
     (let (out, s) = sim_rust_request_stream bs s; (outs, s) = pumps bss s in (out @ outs, s))"

lemma request_stream_append:
  assumes "length (a @ b) < 65536" and "sim_rust_request_stream a s = (o1, s1)" and "sim_rust_request_stream b s1 = (o2, s2)"
    and "length o1 + length o2 < 512"
  shows "sim_rust_request_stream (a @ b) s = (o1 @ o2, s2)"
proof (cases "running s")
  case True
  with assms(1,2) have one: "stream_loop 512 a [] s = (o1, s1)"
    by (simp add: sim_rust_request_stream_def sim_request_stream_def STREAM_RESP_CAP_def running_def)
  have two: "(if running s1 then stream_loop 512 b [] s1 else ([], s1)) = (o2, s2)"
    using assms(1,3) by (cases "running s1")
      (auto simp: sim_rust_request_stream_def sim_request_stream_def STREAM_RESP_CAP_def running_def)
  have "running s1 \<Longrightarrow> stream_loop 512 b o1 s1 = (o1 @ o2, s2)"
    using stream_loop_shift [of 512 b "[]" s1 o2 s2 o1] two assms(4) by simp
  with stream_loop_append [OF True one, of b] two have "stream_loop 512 (a @ b) [] s = (o1 @ o2, s2)"
    by (auto split: if_splits)
  then show ?thesis
    using True assms(1) by (simp add: sim_rust_request_stream_def sim_request_stream_def STREAM_RESP_CAP_def running_def)
next
  case False
  with assms show ?thesis
    by (auto simp: sim_rust_request_stream_def sim_request_stream_def running_def split: if_splits)
qed

text \<open>
  C15: the byte stream has no seams. However a stream of bytes is cut into pumps, torn
  inside a frame, with garbage between frames or with several requests in one piece, the C
  device sends the same bytes in the same order and ends in the same state as when it
  receives the stream at once, also when it jumps or loses its power on the way; provided
  the stream and the answers fit the harness's buffers.
\<close>

theorem stream_has_no_seams:
  assumes "length (concat pieces) < 65536" and "pumps pieces s = (out, s')" and "length out < 512"
  shows "sim_rust_request_stream (concat pieces) s = (out, s')"
  using assms
proof (induction pieces arbitrary: s out)
  case Nil
  then show ?case
    by (simp add: sim_rust_request_stream_def sim_request_stream_def stream_loop.simps)
next
  case (Cons bs bss)
  obtain o1 s1 where one: "sim_rust_request_stream bs s = (o1, s1)"
    using prod.exhaust by blast
  obtain o2 where two: "pumps bss s1 = (o2, s')" and out: "out = o1 @ o2"
    using Cons.prems(2) one by (auto split: prod.splits)
  have "sim_rust_request_stream (concat bss) s1 = (o2, s')"
    using Cons.prems two out by (intro Cons.IH) simp_all
  with request_stream_append [OF _ one] Cons.prems(1,3) out show ?case
    by simp
qed

theorem stream_has_no_seams_witness:
  "\<exists>s'. sim_rust_request_stream ([0x00, 0xA5] @ [0x42] @ SYNC # wire CMD_ECHO [0xDE, 0xAD]) (sim_acquire fresh_sim)
     = (SYNC # wire (CMD_ECHO OR RSP_FLAG) [ST_OK, 0xDE, 0xAD], s') \<and> sim_up s'"
proof -
  let ?s = "sim_acquire fresh_sim" and ?req = "SYNC # wire CMD_ECHO [0xDE, 0xAD]"
  let ?pieces = "[[0x00, 0xA5], [0x42], ?req]"
  have up: "sim_up ?s" "link_idle (sim_link ?s)" "\<not> lk_in_frame (sim_link ?s)"
    using link_init_inv [of "replicate 255 0"]
    by (simp_all add: sim_acquire_def sim_reset_def sim_up_def healthy_def upd_init_def fresh_sim_def link_idle_def link_init_def)
  have garbage: "sim_rust_request_stream bs ?s = ([], ?s)" if "bs \<in> {[0x00, 0xA5], [0x42]}" for bs
  proof -
    have "link_poll (sim_link ?s) bs = (None, sim_link ?s, [])"
      using that up(3) by (auto simp: link_step_def UPD_LINK_SYNC_def)
    then have "stream_loop 512 bs [] ?s = ([], ?s)"
      by (subst stream_loop.simps) simp
    then show ?thesis
      using that up(1)
      by (auto simp: sim_rust_request_stream_def sim_request_stream_def STREAM_RESP_CAP_def sim_up_def healthy_def)
  qed
  have "dev_step sim_port_info (sim_dev ?s) CMD_ECHO [0xDE, 0xAD] = ([ST_OK, 0xDE, 0xAD], sim_dev ?s)"
    by (simp add: dev_step_def CMD_INFO_def CMD_ERASE_APP_def CMD_WRITE_PAGE_def CMD_VERIFY_def CMD_BOOT_def CMD_ECHO_def)
  from sim_stream_cycle [OF up(1,2) _ this] obtain s' where
    "sim_rust_request_stream ?req ?s = (SYNC # wire (CMD_ECHO OR RSP_FLAG) [ST_OK, 0xDE, 0xAD], s')" "sim_up s'"
    by (auto simp: CMD_ECHO_def CMD_BOOT_def)
  then have "pumps ?pieces ?s = (SYNC # wire (CMD_ECHO OR RSP_FLAG) [ST_OK, 0xDE, 0xAD], s')" "sim_up s'"
    using garbage by simp_all
  with stream_has_no_seams [OF _ this(1)] show ?thesis by simp
qed

end
