(* ===== verification/Spi_Pump.thy ===== *)
theory Spi_Pump
  imports Sim_Device
begin

text \<open>
  The SPI client of the device side, \<^verbatim>\<open>device/ports/skeletons/spi_pump.c\<close>: the response
  queue behind the shift register, and the device's loop on top of it.
\<close>

section \<open>The pump\<close>

text \<open>The registers of the part, over their state \<open>'x\<close>.\<close>

record 'x spi_pump_ops =
  xfer_done :: "'x \<Rightarrow> bool \<times> 'x"
  data_read :: "'x \<Rightarrow> u8 \<times> 'x"
  data_write :: "'x \<Rightarrow> u8 \<Rightarrow> 'x"

record 'x spi_pump =
  sp_ctx :: 'x
  sp_tx_buf :: bytes
  sp_tx_cap :: u8
  sp_tx_len :: u8
  sp_tx_idx :: u8
  sp_staked_from_queue :: bool

definition SPI_PUMP_IDLE :: u8 where "SPI_PUMP_IDLE = 0x00"

definition next_out :: "'x spi_pump \<Rightarrow> u8 \<times> 'x spi_pump" where
  "next_out p =
     (if sp_tx_idx p < sp_tx_len p
      then (sp_tx_buf p ! unat (sp_tx_idx p), p\<lparr>sp_staked_from_queue := True, sp_tx_idx := sp_tx_idx p + 1\<rparr>)
      else (SPI_PUMP_IDLE, p\<lparr>sp_staked_from_queue := False\<rparr>))"

definition spi_pump_get :: "'x spi_pump_ops \<Rightarrow> 'x spi_pump \<Rightarrow> u8 option \<times> 'x spi_pump" where
  "spi_pump_get ops p =
     (case xfer_done ops (sp_ctx p) of
        (False, x) \<Rightarrow> (None, p\<lparr>sp_ctx := x\<rparr>)
      | (True, x) \<Rightarrow>
          let (b, x) = data_read ops x;
              (out, p) = next_out p
          in (Some b, p\<lparr>sp_ctx := data_write ops x out\<rparr>))"

definition spi_pump_put :: "'x spi_pump \<Rightarrow> u8 \<Rightarrow> 'x spi_pump" where
  "spi_pump_put p b =
     (if sp_tx_len p < sp_tx_cap p
      then p\<lparr>sp_tx_buf := (sp_tx_buf p)[unat (sp_tx_len p) := b], sp_tx_len := sp_tx_len p + 1\<rparr>
      else p)"

definition spi_pump_init :: "'x spi_pump_ops \<Rightarrow> 'x \<Rightarrow> bytes \<Rightarrow> u8 \<Rightarrow> 'x spi_pump" where
  "spi_pump_init ops x tx_buf tx_cap =
     \<lparr>sp_ctx = data_write ops x SPI_PUMP_IDLE, sp_tx_buf = tx_buf, sp_tx_cap = tx_cap, sp_tx_len = 0, sp_tx_idx = 0,
      sp_staked_from_queue = False\<rparr>"

definition spi_pump_tx_clear :: "'x spi_pump \<Rightarrow> 'x spi_pump" where
  "spi_pump_tx_clear p = p\<lparr>sp_tx_len := 0, sp_tx_idx := 0\<rparr>"

definition spi_pump_tx_idle :: "'x spi_pump \<Rightarrow> bool" where
  "spi_pump_tx_idle p \<longleftrightarrow> sp_tx_idx p = sp_tx_len p \<and> \<not> sp_staked_from_queue p"

section \<open>The pump is a queue\<close>

definition pump_ok :: "'x spi_pump \<Rightarrow> bool" where
  "pump_ok p \<longleftrightarrow> sp_tx_idx p \<le> sp_tx_len p \<and> sp_tx_len p \<le> sp_tx_cap p \<and> unat (sp_tx_cap p) = length (sp_tx_buf p)"

definition pending :: "'x spi_pump \<Rightarrow> bytes" where
  "pending p = drop (unat (sp_tx_idx p)) (take (unat (sp_tx_len p)) (sp_tx_buf p))"

lemma pump_ctx [simp]: "pump_ok (p\<lparr>sp_ctx := x\<rparr>) = pump_ok p" "pending (p\<lparr>sp_ctx := x\<rparr>) = pending p"
  by (simp_all add: pump_ok_def pending_def)

lemma pending_iff: "pump_ok p \<Longrightarrow> pending p = [] \<longleftrightarrow> sp_tx_idx p = sp_tx_len p"
  by (auto simp: pump_ok_def pending_def word_le_nat_alt word_unat_eq_iff)

lemma tx_idle_iff: "pump_ok p \<Longrightarrow> spi_pump_tx_idle p \<longleftrightarrow> pending p = [] \<and> \<not> sp_staked_from_queue p"
  by (simp add: spi_pump_tx_idle_def pending_iff)

text \<open>Staking takes the front of the queue, or the idle byte.\<close>

lemma next_out_queue:
  assumes "pump_ok p" and "next_out p = (b, p')"
  shows "pump_ok p'" "b = (case pending p of [] \<Rightarrow> 0 | x # _ \<Rightarrow> x)" "pending p' = tl (pending p)"
    "sp_staked_from_queue p' \<longleftrightarrow> pending p \<noteq> []" "sp_tx_cap p' = sp_tx_cap p" "sp_ctx p' = sp_ctx p"
proof -
  have *: "pump_ok p' \<and> b = (case pending p of [] \<Rightarrow> 0 | x # _ \<Rightarrow> x) \<and> pending p' = tl (pending p)
      \<and> (sp_staked_from_queue p' \<longleftrightarrow> pending p \<noteq> []) \<and> sp_tx_cap p' = sp_tx_cap p \<and> sp_ctx p' = sp_ctx p"
  proof (cases "sp_tx_idx p < sp_tx_len p")
    case True
    let ?q = "take (unat (sp_tx_len p)) (sp_tx_buf p)"
    have i: "unat (sp_tx_idx p) < length ?q" "sp_tx_idx p + 1 \<le> sp_tx_len p"
      using True assms(1) word_succ_unat [OF True] by (auto simp: pump_ok_def word_less_nat_alt word_le_nat_alt)
    then have "pending p = sp_tx_buf p ! unat (sp_tx_idx p) # drop (Suc (unat (sp_tx_idx p))) ?q"
      using Cons_nth_drop_Suc [OF i(1)] by (simp add: pending_def)
    moreover have "p' = p\<lparr>sp_staked_from_queue := True, sp_tx_idx := sp_tx_idx p + 1\<rparr>" "b = sp_tx_buf p ! unat (sp_tx_idx p)"
      using assms(2) True by (simp_all add: next_out_def)
    moreover from this have "pending p' = drop (Suc (unat (sp_tx_idx p))) ?q"
      by (simp add: pending_def word_succ_unat [OF True])
    ultimately show ?thesis
      using assms(1) i(2) by (simp add: pump_ok_def)
  next
    case False
    then have "sp_tx_idx p = sp_tx_len p"
      using assms(1) by (simp add: pump_ok_def)
    moreover from this have "pending p = []"
      using assms(1) by (simp add: pending_iff)
    moreover have "p' = p\<lparr>sp_staked_from_queue := False\<rparr>" "b = 0"
      using assms(2) False by (simp_all add: next_out_def SPI_PUMP_IDLE_def)
    ultimately show ?thesis
      using assms(1) by (simp add: pump_ok_def pending_def)
  qed
  show "pump_ok p'" "b = (case pending p of [] \<Rightarrow> 0 | x # _ \<Rightarrow> x)" "pending p' = tl (pending p)"
    "sp_staked_from_queue p' \<longleftrightarrow> pending p \<noteq> []" "sp_tx_cap p' = sp_tx_cap p" "sp_ctx p' = sp_ctx p"
    using * by blast+
qed

text \<open>Putting appends, as long as there is room.\<close>

lemma pump_put_queue:
  assumes "pump_ok p" and "sp_tx_len p < sp_tx_cap p"
  shows "pump_ok (spi_pump_put p b)" "pending (spi_pump_put p b) = pending p @ [b]"
    "unat (sp_tx_len (spi_pump_put p b)) = Suc (unat (sp_tx_len p))"
proof -
  let ?n = "unat (sp_tx_len p)"
  have n: "?n < length (sp_tx_buf p)" "unat (sp_tx_len p + 1) = Suc ?n" "unat (sp_tx_idx p) \<le> ?n"
    using assms word_succ_unat [OF assms(2)] by (simp_all add: pump_ok_def word_less_nat_alt word_le_nat_alt)
  have "take (Suc ?n) ((sp_tx_buf p)[?n := b]) = take ?n (sp_tx_buf p) @ [b]"
    using n(1) by (simp add: take_Suc_conv_app_nth)
  then show "pending (spi_pump_put p b) = pending p @ [b]"
    using assms(2) n by (simp add: spi_pump_put_def pending_def)
  show "unat (sp_tx_len (spi_pump_put p b)) = Suc ?n"
    using assms(2) n(2) by (simp add: spi_pump_put_def)
  show "pump_ok (spi_pump_put p b)"
    using assms n by (simp add: spi_pump_put_def pump_ok_def word_le_nat_alt word_less_nat_alt)
qed

lemma pump_put_keeps [simp]:
  "sp_ctx (spi_pump_put p b) = sp_ctx p" "sp_staked_from_queue (spi_pump_put p b) = sp_staked_from_queue p"
  "sp_tx_cap (spi_pump_put p b) = sp_tx_cap p"
  by (simp_all add: spi_pump_put_def)

lemma pump_puts:
  assumes "pump_ok p" and "unat (sp_tx_len p) + length bs \<le> unat (sp_tx_cap p)"
  shows "pump_ok (foldl spi_pump_put p bs) \<and> pending (foldl spi_pump_put p bs) = pending p @ bs
     \<and> sp_ctx (foldl spi_pump_put p bs) = sp_ctx p \<and> sp_tx_cap (foldl spi_pump_put p bs) = sp_tx_cap p
     \<and> sp_staked_from_queue (foldl spi_pump_put p bs) = sp_staked_from_queue p"
  using assms
proof (induction bs arbitrary: p)
  case (Cons b bs)
  then have lt: "sp_tx_len p < sp_tx_cap p"
    by (simp add: word_less_nat_alt)
  from Cons.IH [OF pump_put_queue(1) [OF Cons.prems(1) lt, of b]] pump_put_queue(2,3) [OF Cons.prems(1) lt, of b] Cons.prems(2)
  show ?case by simp
qed simp

lemma pump_clear:
  "pump_ok p \<Longrightarrow> pump_ok (spi_pump_tx_clear p)" "pending (spi_pump_tx_clear p) = []"
  "sp_tx_len (spi_pump_tx_clear p) = 0" "sp_tx_cap (spi_pump_tx_clear p) = sp_tx_cap p" "sp_ctx (spi_pump_tx_clear p) = sp_ctx p"
  "sp_staked_from_queue (spi_pump_tx_clear p) = sp_staked_from_queue p"
  by (simp_all add: spi_pump_tx_clear_def pump_ok_def pending_def)

section \<open>The link over a pump\<close>

text \<open>
  \<open>link_poll\<close> with the \<open>get_byte\<close> of a port as a parameter. A source that never runs dry
  would keep it polling, which is the value \<open>None\<close>.
\<close>

partial_function (option) poll_from ::
  "('p \<Rightarrow> u8 option \<times> 'p) \<Rightarrow> link \<Rightarrow> 'p \<Rightarrow> (upd_frame option \<times> link \<times> 'p) option" where
  "poll_from get l p =
     (case get p of
        (None, p) \<Rightarrow> Some (None, l, p)
      | (Some b, p) \<Rightarrow>
          (case link_step l b of
             (Some req, l) \<Rightarrow> Some (Some req, l, p)
           | (None, l) \<Rightarrow> poll_from get l p))"

text \<open>What a port promises: \<open>get_byte\<close> takes the front of what has arrived.\<close>

locale link_source =
  fixes get :: "'p \<Rightarrow> u8 option \<times> 'p" and fifo :: "'p \<Rightarrow> bytes" and taken :: "'p \<Rightarrow> 'p"
  assumes get_front: "get p = (case fifo p of [] \<Rightarrow> (None, p) | b # _ \<Rightarrow> (Some b, taken p))"
    and fifo_taken: "fifo (taken p) = tl (fifo p)"
begin

lemma poll_is_link_poll:
  "poll_from get l p = (case link_poll l (fifo p) of (q, l', rest) \<Rightarrow> Some (q, l', (taken ^^ (length (fifo p) - length rest)) p))"
proof (induction "fifo p" arbitrary: l p)
  case Nil
  then show ?case
    by (subst poll_from.simps) (simp add: get_front)
next
  case (Cons b bs)
  obtain q l' where st: "link_step l b = (q, l')"
    using prod.exhaust by blast
  have bs: "bs = fifo (taken p)"
    using Cons.hyps(2) by (simp add: fifo_taken flip: Cons.hyps(2))
  have le: "length rest \<le> length bs" if "link_poll l' bs = (r, l2, rest)" for r l2 rest
    using that by (induction l' bs rule: link_poll.induct) (auto split: prod.splits option.splits)
  show ?case
  proof (cases q)
    case None
    obtain r l2 rest where r: "link_poll l' bs = (r, l2, rest)"
      using prod_cases3 by blast
    have "poll_from get l p = poll_from get l' (taken p)"
      using st None by (subst poll_from.simps) (simp add: get_front flip: Cons.hyps(2))
    also have "\<dots> = Some (r, l2, (taken ^^ (length bs - length rest)) (taken p))"
      using Cons.hyps(1) [OF bs, of l'] r bs by simp
    also have "(taken ^^ (length bs - length rest)) (taken p) = (taken ^^ (Suc (length bs) - length rest)) p"
      using le [OF r] by (simp add: Suc_diff_le funpow_swap1)
    finally show ?thesis
      using st None r by (simp flip: Cons.hyps(2))
  next
    case (Some req)
    then show ?thesis
      using st by (subst poll_from.simps) (simp add: get_front flip: Cons.hyps(2))
  qed
qed

end

section \<open>A shift register\<close>

text \<open>
  The part behind the pump: the byte staked for the next exchange, the transfer flag and
  the byte that came in. The host clocks one exchange; it reads what was staked before.
\<close>

record shift_reg =
  sr_shift :: u8
  sr_done :: bool
  sr_mosi :: u8

definition shift_ops :: "shift_reg spi_pump_ops" where
  "shift_ops = \<lparr>xfer_done = (\<lambda>r. (sr_done r, r)), data_read = (\<lambda>r. (sr_mosi r, r\<lparr>sr_done := False\<rparr>)),
     data_write = (\<lambda>r b. r\<lparr>sr_shift := b\<rparr>)\<rparr>"

definition sr_clock :: "u8 \<Rightarrow> shift_reg \<Rightarrow> u8 \<times> shift_reg" where
  "sr_clock mosi r = (sr_shift r, r\<lparr>sr_done := True, sr_mosi := mosi\<rparr>)"

definition arrived :: "shift_reg spi_pump \<Rightarrow> bytes" where
  "arrived p = (if sr_done (sp_ctx p) then [sr_mosi (sp_ctx p)] else [])"

definition restaked :: "shift_reg spi_pump \<Rightarrow> shift_reg spi_pump" where
  "restaked p = (case next_out p of (b, p') \<Rightarrow> p'\<lparr>sp_ctx := (sp_ctx p)\<lparr>sr_done := False, sr_shift := b\<rparr>\<rparr>)"

interpretation shifted: link_source "spi_pump_get shift_ops" arrived restaked
  by unfold_locales (auto simp: spi_pump_get_def shift_ops_def arrived_def restaked_def split: prod.splits)

section \<open>The device on top\<close>

record spi_slave =
  sl_sim :: sim
  sl_pump :: "shift_reg spi_pump"

text \<open>
  The cycle that \<^verbatim>\<open>spi_pump.h\<close> prescribes: drop a stale response, handle the request,
  queue the response; and take the boot gate once the response has left the wire. The
  handler and its buffers are those of the harness.
\<close>

definition slave_serve :: "upd_frame \<Rightarrow> spi_slave \<Rightarrow> spi_slave" where
  "slave_serve req d =
     (let p = spi_pump_tx_clear (sl_pump d);
          s = sl_sim d;
          (plen, pl, ses, w) = upd_handle sim_port (sim_session s) req (replicate 252 0) 252 (sim_hw s);
          s = s\<lparr>sim_session := ses, sim_hw := w\<rparr>;
          (n, fr) = upd_frame_build (replicate 255 0) 255 (uf_cmd req OR RSP_FLAG) pl plen
      in \<lparr>sl_sim = s, sl_pump = (if hw_dead w then p else foldl spi_pump_put p (link_send fr n))\<rparr>)"

definition slave_gate :: "spi_slave \<Rightarrow> spi_slave" where
  "slave_gate d = (if spi_pump_tx_idle (sl_pump d) then d\<lparr>sl_sim := take_gate (sl_sim d)\<rparr> else d)"

text \<open>One turn of the device's loop; without power, or once the application runs, there is none.\<close>

definition slave_spin :: "spi_slave \<Rightarrow> spi_slave" where
  "slave_spin d =
     (if hw_dead (sim_hw (sl_sim d)) \<or> hw_jumped (sim_hw (sl_sim d)) then d
      else
        (case poll_from (spi_pump_get shift_ops) (sim_link (sl_sim d)) (sl_pump d) of
           None \<Rightarrow> d
         | Some (q, l, p) \<Rightarrow>
             let d = \<lparr>sl_sim = (sl_sim d)\<lparr>sim_link := l\<rparr>, sl_pump = p\<rparr>;
                 d = (case q of None \<Rightarrow> d | Some req \<Rightarrow> slave_serve req d)
             in if hw_dead (sim_hw (sl_sim d)) then d else slave_gate d))"

text \<open>The host clocks a byte and leaves the device its gap; and a run of them.\<close>

definition spi_exchange :: "u8 \<Rightarrow> spi_slave \<Rightarrow> u8 \<times> spi_slave" where
  "spi_exchange mosi d =
     (let (miso, r) = sr_clock mosi (sp_ctx (sl_pump d))
      in (miso, slave_spin (d\<lparr>sl_pump := (sl_pump d)\<lparr>sp_ctx := r\<rparr>\<rparr>)))"

fun spi_clock :: "bytes \<Rightarrow> spi_slave \<Rightarrow> bytes \<times> spi_slave" where
  "spi_clock [] d = ([], d)"
| "spi_clock (m # ms) d =
     (let (x, d) = spi_exchange m d; (xs, d) = spi_clock ms d in (x # xs, d))"

section \<open>One exchange\<close>

text \<open>The device between two exchanges: the staked byte, whether it is response, and the queue.\<close>

definition slave_at :: "spi_slave \<Rightarrow> u8 \<Rightarrow> bool \<Rightarrow> bytes \<Rightarrow> bool" where
  "slave_at d x st q \<longleftrightarrow> pump_ok (sl_pump d) \<and> 21 \<le> unat (sp_tx_cap (sl_pump d)) \<and> \<not> sr_done (sp_ctx (sl_pump d))
     \<and> sr_shift (sp_ctx (sl_pump d)) = x \<and> sp_staked_from_queue (sl_pump d) = st \<and> pending (sl_pump d) = q"

abbreviation front :: "bytes \<Rightarrow> u8" where
  "front q \<equiv> (case q of [] \<Rightarrow> 0 | x # _ \<Rightarrow> x)"

abbreviation alive :: "sim \<Rightarrow> bool" where
  "alive s \<equiv> \<not> hw_dead (sim_hw s) \<and> \<not> hw_jumped (sim_hw s)"

lemma exchange_eq:
  assumes at: "slave_at d x st q" and up: "alive (sl_sim d)" and step: "link_step (sim_link (sl_sim d)) m = (r, l')"
  shows "\<exists>p. spi_exchange m d =
      (x, let d = \<lparr>sl_sim = (sl_sim d)\<lparr>sim_link := l'\<rparr>, sl_pump = p\<rparr>; d = (case r of None \<Rightarrow> d | Some req \<Rightarrow> slave_serve req d)
          in if hw_dead (sim_hw (sl_sim d)) then d else slave_gate d)
    \<and> slave_at \<lparr>sl_sim = s', sl_pump = p\<rparr> (front q) (q \<noteq> []) (tl q)"
proof -
  let ?p = "(sl_pump d)\<lparr>sp_ctx := (sp_ctx (sl_pump d))\<lparr>sr_done := True, sr_mosi := m\<rparr>\<rparr>"
  have a: "arrived ?p = [m]"
    by (simp add: arrived_def)
  obtain b p1 where no: "next_out ?p = (b, p1)"
    using prod.exhaust by blast
  have ok: "pump_ok ?p" "pending ?p = q" "unat (sp_tx_cap ?p) \<ge> 21"
    using at by (simp_all add: slave_at_def)
  note nx = next_out_queue [OF ok(1) no, unfolded ok(2)]
  let ?p' = "p1\<lparr>sp_ctx := (sp_ctx ?p)\<lparr>sr_done := False, sr_shift := b\<rparr>\<rparr>"
  have rs: "restaked ?p = ?p'"
    by (simp add: restaked_def no)
  have "poll_from (spi_pump_get shift_ops) (sim_link (sl_sim d)) ?p = Some (r, l', ?p')"
    unfolding shifted.poll_is_link_poll a using step rs by (cases r) simp_all
  then have "spi_exchange m d =
      (x, let d = \<lparr>sl_sim = (sl_sim d)\<lparr>sim_link := l'\<rparr>, sl_pump = ?p'\<rparr>; d = (case r of None \<Rightarrow> d | Some req \<Rightarrow> slave_serve req d)
          in if hw_dead (sim_hw (sl_sim d)) then d else slave_gate d)"
    using at up by (simp add: spi_exchange_def sr_clock_def slave_spin_def slave_at_def)
  moreover have "slave_at \<lparr>sl_sim = s', sl_pump = ?p'\<rparr> (front q) (q \<noteq> []) (tl q)"
    using nx ok by (simp add: slave_at_def)
  ultimately show ?thesis by blast
qed

text \<open>An exchange that completes no request: the queue moves on, and the gate waits until it is empty.\<close>

lemma exchange_quiet:
  assumes "slave_at d x st q" and "alive (sl_sim d)" and "link_step (sim_link (sl_sim d)) m = (None, l')"
  shows "\<exists>d'. spi_exchange m d = (x, d') \<and> slave_at d' (front q) (q \<noteq> []) (tl q)
     \<and> sl_sim d' = (let s = (sl_sim d)\<lparr>sim_link := l'\<rparr> in if q = [] then take_gate s else s)"
proof -
  from exchange_eq [OF assms, of "(sl_sim d)\<lparr>sim_link := l'\<rparr>"] obtain p where
    ex: "spi_exchange m d = (x, slave_gate \<lparr>sl_sim = (sl_sim d)\<lparr>sim_link := l'\<rparr>, sl_pump = p\<rparr>)"
    and at: "slave_at \<lparr>sl_sim = (sl_sim d)\<lparr>sim_link := l'\<rparr>, sl_pump = p\<rparr> (front q) (q \<noteq> []) (tl q)"
    using assms(2) by (auto simp: Let_def)
  have "spi_pump_tx_idle p \<longleftrightarrow> q = []"
    using at tx_idle_iff [of p] by (auto simp: slave_at_def)
  with ex at show ?thesis
    by (simp add: slave_gate_def slave_at_def)
qed

text \<open>An exchange that completes a request: the answer is queued behind one byte of what was staked before.\<close>

lemma exchange_frame:
  assumes at: "slave_at d x st q" and up: "alive (sl_sim d)"
    and step: "link_step (sim_link (sl_sim d)) m = (Some \<lparr>uf_cmd = c, uf_len = word_of_nat (length pl), uf_payload = pl @ junk\<rparr>, l')"
    and ans: "answered (core_of (sl_sim d)) c pl junk out (ses, w)"
  shows "\<exists>d'. spi_exchange m d = (x, d') \<and> slave_at d' (front q) (q \<noteq> []) (if hw_dead w then [] else SYNC # wire (c OR RSP_FLAG) out)
     \<and> sl_sim d' = (sl_sim d)\<lparr>sim_link := l', sim_session := ses, sim_hw := w\<rparr>"
proof -
  let ?req = "\<lparr>uf_cmd = c, uf_len = word_of_nat (length pl), uf_payload = pl @ junk\<rparr>"
  let ?s' = "(sl_sim d)\<lparr>sim_link := l', sim_session := ses, sim_hw := w\<rparr>"
  obtain rest where h: "upd_handle sim_port (sim_session (sl_sim d)) ?req (replicate 252 0) 252 (sim_hw (sl_sim d)) =
      (word_of_nat (length out), out @ rest, ses, w)" and out: "1 \<le> length out" "length out \<le> 17"
    using ans by (auto simp: answered_def core_of_def)
  have build: "upd_frame_build (replicate 255 0) 255 (c OR RSP_FLAG) (out @ rest) (word_of_nat (length out)) =
      (word_of_nat (length out + 3), wire (c OR RSP_FLAG) out @ drop (length out + 3) (replicate 255 0))"
    by (rule upd_frame_build_wire [where junk = rest]) (use out in simp_all)
  have n: "unat (word_of_nat (length out + 3) :: u8) = length out + 3"
    using out(2) by (simp add: unat_of_nat del: of_nat_add)
  have send: "link_send (wire (c OR RSP_FLAG) out @ more) (word_of_nat (length out + 3)) = SYNC # wire (c OR RSP_FLAG) out" for more
    by (simp add: link_send_def n UPD_LINK_SYNC_def SYNC_def del: of_nat_add)
  from exchange_eq [OF at up step, of ?s'] obtain p where
    ex: "spi_exchange m d = (x, let d = slave_serve ?req \<lparr>sl_sim = (sl_sim d)\<lparr>sim_link := l'\<rparr>, sl_pump = p\<rparr>
        in if hw_dead (sim_hw (sl_sim d)) then d else slave_gate d)"
    and p: "slave_at \<lparr>sl_sim = ?s', sl_pump = p\<rparr> (front q) (q \<noteq> []) (tl q)"
    by auto
  let ?p = "if hw_dead w then spi_pump_tx_clear p else foldl spi_pump_put (spi_pump_tx_clear p) (SYNC # wire (c OR RSP_FLAG) out)"
  have sv: "slave_serve ?req \<lparr>sl_sim = (sl_sim d)\<lparr>sim_link := l'\<rparr>, sl_pump = p\<rparr> = \<lparr>sl_sim = ?s', sl_pump = ?p\<rparr>"
    by (simp add: slave_serve_def h build send Let_def del: of_nat_add foldl_Cons)
  have ok: "pump_ok p" "21 \<le> unat (sp_tx_cap p)"
    using p by (simp_all add: slave_at_def)
  have len: "unat (sp_tx_len (spi_pump_tx_clear p)) + length (SYNC # wire (c OR RSP_FLAG) out) \<le> unat (sp_tx_cap (spi_pump_tx_clear p))"
    using ok(2) out(2) by (simp add: pump_clear)
  note puts = pump_puts [OF pump_clear(1) [OF ok(1)] len]
  have at': "slave_at \<lparr>sl_sim = ?s', sl_pump = ?p\<rparr> (front q) (q \<noteq> []) (if hw_dead w then [] else SYNC # wire (c OR RSP_FLAG) out)"
    using p puts ok(1) by (cases "hw_dead w") (simp_all add: slave_at_def pump_clear del: foldl_Cons)
  have "\<not> spi_pump_tx_idle ?p" if "\<not> hw_dead w"
    using that tx_idle_iff [of ?p] at' by (simp add: slave_at_def del: foldl_Cons)
  then have "spi_exchange m d = (x, \<lparr>sl_sim = ?s', sl_pump = ?p\<rparr>)"
    by (simp add: ex sv slave_gate_def del: foldl_Cons)
  with at' show ?thesis by (simp del: foldl_Cons)
qed

section \<open>Runs of exchanges\<close>

text \<open>What the register holds after \<open>n\<close> exchanges.\<close>

definition staked_after :: "nat \<Rightarrow> u8 \<Rightarrow> bytes \<Rightarrow> u8" where
  "staked_after n x q = (x # q @ replicate n 0) ! n"

lemma staked_after_simps [simp]:
  "staked_after 0 x q = x" "staked_after (Suc n) x q = staked_after n (front q) (tl q)"
proof -
  show "staked_after 0 x q = x"
    by (simp add: staked_after_def)
  have rep: "replicate (Suc n) (0 :: u8) = replicate n 0 @ [0]" for n
    by (simp add: replicate_append_same)
  show "staked_after (Suc n) x q = staked_after n (front q) (tl q)"
  proof (cases q)
    case Nil
    then show ?thesis
      by (simp add: staked_after_def nth_Cons')
  next
    case (Cons y ys)
    have "((y # ys @ replicate n 0) @ [0]) ! n = (y # ys @ replicate n 0) ! n"
      by (subst nth_append) simp
    with Cons show ?thesis
      by (simp add: staked_after_def rep del: replicate.simps)
  qed
qed

lemma staked_after_idle [simp]: "staked_after n 0 [] = 0"
  by (induction n) simp_all

lemma gate_link: "\<not> us_boot_pending (sim_session s) \<Longrightarrow> (if b then take_gate (s\<lparr>sim_link := l\<rparr>) else s\<lparr>sim_link := l\<rparr>) = s\<lparr>sim_link := l\<rparr>"
  by (simp add: take_gate_idle)

text \<open>The request comes in: what was staked and queued goes out, and the answer is queued.\<close>

lemma clock_request:
  assumes "slave_at d x st q" and "alive (sl_sim d)" and "\<not> us_boot_pending (sim_session (sl_sim d))"
    and "link_poll (sim_link (sl_sim d)) bs = (Some \<lparr>uf_cmd = c, uf_len = word_of_nat (length pl), uf_payload = pl @ junk\<rparr>, l', [])"
    and "answered (core_of (sl_sim d)) c pl junk out (ses, w)"
  shows "\<exists>d' xs st'. spi_clock bs d = (xs, d')
     \<and> slave_at d' (staked_after (length bs) x q) st' (if hw_dead w then [] else SYNC # wire (c OR RSP_FLAG) out)
     \<and> sl_sim d' = (sl_sim d)\<lparr>sim_link := l', sim_session := ses, sim_hw := w\<rparr>"
  using assms
proof (induction bs arbitrary: d x st q)
  case (Cons m bs)
  obtain r l1 where st: "link_step (sim_link (sl_sim d)) m = (r, l1)"
    using prod.exhaust by blast
  show ?case
  proof (cases r)
    case None
    from exchange_quiet [OF Cons.prems(1,2) st [unfolded None]] obtain d1 where d1: "spi_exchange m d = (x, d1)"
      "slave_at d1 (front q) (q \<noteq> []) (tl q)" "sl_sim d1 = (sl_sim d)\<lparr>sim_link := l1\<rparr>"
      using Cons.prems(3) by (auto simp: Let_def gate_link)
    have "core_of (sl_sim d1) = core_of (sl_sim d)"
      by (simp add: d1(3) core_of_def)
    with Cons.IH [OF d1(2)] d1 Cons.prems(2-5) st None show ?thesis
      by (fastforce simp: Let_def)
  next
    case (Some req)
    with Cons.prems(4) st have "bs = []" "l1 = l'" "req = \<lparr>uf_cmd = c, uf_len = word_of_nat (length pl), uf_payload = pl @ junk\<rparr>"
      by auto
    with exchange_frame [OF Cons.prems(1,2) _ Cons.prems(5), of m l'] st Some show ?thesis
      by (auto simp: Let_def)
  qed
qed simp

text \<open>
  The response goes out: one byte of lag, the queue, and with its last byte on the wire the
  gate is taken. Idle bytes do not move a link that is between two frames.
\<close>

lemma clock_response:
  assumes "slave_at d x st q" and "alive (sl_sim d)" and "\<not> lk_in_frame (sim_link (sl_sim d))"
  shows "\<exists>d'. spi_clock (replicate (Suc (length q)) 0) d = (x # q, d') \<and> slave_at d' 0 False [] \<and> sl_sim d' = take_gate (sl_sim d)"
  using assms
proof (induction q arbitrary: d x st)
  case Nil
  have "link_step (sim_link (sl_sim d)) 0 = (None, sim_link (sl_sim d))"
    using Nil.prems(3) by (simp add: link_step_def UPD_LINK_SYNC_def)
  from exchange_quiet [OF Nil.prems(1,2) this] show ?case
    by (auto simp: Let_def)
next
  case (Cons y q)
  have "link_step (sim_link (sl_sim d)) 0 = (None, sim_link (sl_sim d))"
    using Cons.prems(3) by (simp add: link_step_def UPD_LINK_SYNC_def)
  from exchange_quiet [OF Cons.prems(1,2) this] obtain d1 where d1: "spi_exchange 0 d = (x, d1)" "slave_at d1 y True q" "sl_sim d1 = sl_sim d"
    by auto
  from Cons.IH [OF d1(2)] Cons.prems(2,3) d1(1,3) show ?case
    by (auto simp: Let_def)
qed

text \<open>
  A whole cycle: a request, and as many idle bytes as the response has. Whatever was left
  of an earlier response, the host sees one byte of it and then the response.
\<close>

definition slave_up :: "spi_slave \<Rightarrow> bool" where
  "slave_up d \<longleftrightarrow> sim_up (sl_sim d) \<and> link_idle (sim_link (sl_sim d)) \<and> slave_at d 0 False []"

lemma slave_cycle:
  assumes up: "sim_up (sl_sim d)" and idle: "link_idle (sim_link (sl_sim d))" and at: "slave_at d x st q" and pl: "length pl \<le> 252"
    and step: "dev_step sim_port_info (sim_dev (sl_sim d)) c pl = (out, d')"
  shows "\<exists>d1 d2 xs. spi_clock (SYNC # wire c pl) d = (xs, d1)
     \<and> spi_clock (replicate (length out + 5) 0) d1 = (staked_after (length pl + 4) x q # SYNC # wire (c OR RSP_FLAG) out, d2)
     \<and> sim_dev (sl_sim d2) = d' \<and> slave_at d2 0 False [] \<and> link_idle (sim_link (sl_sim d2)) \<and> 1 \<le> length out \<and> length out \<le> 17
     \<and> (if c = CMD_BOOT \<and> region_valid (hw_flash (sim_hw (sl_sim d)))
        then hw_jumped (sim_hw (sl_sim d2)) else sim_up (sl_sim d2))"
proof -
  let ?s = "sl_sim d"
  have al: "alive ?s" "\<not> us_boot_pending (sim_session ?s)"
    using up by (simp_all add: sim_up_def healthy_def)
  obtain l' junk where lp: "link_poll (sim_link ?s) (SYNC # wire c pl) =
      (Some \<lparr>uf_cmd = c, uf_len = word_of_nat (length pl), uf_payload = pl @ junk\<rparr>, l', [])" and idle': "link_idle l'"
    using link_poll_wire [OF idle pl] by blast
  obtain rsp' ses w where h: "upd_handle sim_port (sim_session ?s)
       \<lparr>uf_cmd = c, uf_len = word_of_nat (length pl), uf_payload = pl @ junk\<rparr> (replicate 252 0) 252 (sim_hw ?s)
       = (word_of_nat (length out), rsp', ses, w)"
    and out: "rsp' = out @ drop (length out) rsp'" "1 \<le> length out" "length out \<le> 17"
    and w: "healthy w" "hw_flash w = dev_flash d'" "us_erased ses = dev_erased d'" "us_info ses = sim_port_info"
      "us_boot_pending ses = (c = CMD_BOOT \<and> region_valid (hw_flash (sim_hw ?s)))"
    using sim_handle [OF up pl step, of junk] by blast
  define s1 where "s1 = ?s\<lparr>sim_link := l', sim_session := ses, sim_hw := w\<rparr>"
  have "answered (core_of ?s) c pl junk out (ses, w)"
    unfolding answered_def core_of_def fst_conv snd_conv h using out by blast
  from clock_request [OF at al lp this] w(1) obtain d1 xs st' where d1: "spi_clock (SYNC # wire c pl) d = (xs, d1)"
    "slave_at d1 (staked_after (length pl + 4) x q) st' (SYNC # wire (c OR RSP_FLAG) out)" "sl_sim d1 = s1"
    by (auto simp: healthy_def s1_def add.commute simp del: spi_clock.simps)
  have s1: "healthy (sim_hw s1)" "us_info (sim_session s1) = sim_port_info" "sim_link s1 = l'"
    "sim_dev s1 = d'" "us_boot_pending (sim_session s1) = us_boot_pending ses"
    using w by (simp_all add: s1_def sim_dev_def)
  have flash: "c = CMD_BOOT \<Longrightarrow> hw_flash (sim_hw s1) = hw_flash (sim_hw ?s)"
    using step s1(4) by (auto simp: dev_step_boot sim_dev_def)
  have "Suc (length (SYNC # wire (c OR RSP_FLAG) out)) = length out + 5"
    by simp
  from clock_response [OF d1(2), unfolded this] s1(1,3) idle' d1(3) obtain d2 where d2:
    "spi_clock (replicate (length out + 5) 0) d1 = (staked_after (length pl + 4) x q # SYNC # wire (c OR RSP_FLAG) out, d2)"
    "slave_at d2 0 False []" "sl_sim d2 = take_gate s1"
    by (auto simp: healthy_def link_idle_def)
  from d1(1) d2 after_gate [OF s1(1,2)] s1(3-5) w(5) out(2,3) idle' flash show ?thesis
    by auto
qed

end
