(* ===== verification/Cli_Spi.thy ===== *)
theory Cli_Spi
  imports Cli_End_To_End Spi_Pump
begin

text \<open>
  The command line over SPI: the SPI adapter and the spidev backend of the host on one end
  of the bus, the SPI pump with the device core behind it on the other.
\<close>

section \<open>The device on an SPI bus of the host\<close>

text \<open>
  The ioctl runs its transfers in order, one exchange per byte; a transfer with no bytes to
  send clocks out zeros.
\<close>

fun spi_transfer :: "spidev_transfer \<Rightarrow> spi_slave \<Rightarrow> bytes \<times> spi_slave" where
  "spi_transfer (XferRead n) d = spi_clock (replicate n 0) d"
| "spi_transfer (XferWrite bs) d = spi_clock bs d"
| "spi_transfer (XferReadWrite bs n) d = spi_clock bs d"

fun spi_transfers_run :: "spidev_transfer list \<Rightarrow> spi_slave \<Rightarrow> bytes list \<times> spi_slave" where
  "spi_transfers_run [] d = ([], d)"
| "spi_transfers_run (x # xs) d =
     (let (rx, d) = spi_transfer x d; (rxs, d) = spi_transfers_run xs d in (rx # rxs, d))"

definition spi_os :: "(spi_slave, unit, unit, unit) host_os" where
  "spi_os = quiet_os\<lparr>os_transfer_multiple := (\<lambda>_ xs w. let (rxs, w) = spi_transfers_run xs w in (Ok (), rxs, w))\<rparr>"

definition spi_wires :: "(spi_slave, unit, unit, unit) wires" where
  "spi_wires = \<lparr>wr_os = spi_os,
     wr_uart = (\<lambda>_. \<lparr>uart_write_all = (\<lambda>_ w. (Ok (), w)), uart_flush = (\<lambda>w. (Ok (), w)), uart_read = (\<lambda>_ w. (Ok 0, [], w)),
       uart_delay_ns = (\<lambda>_ w. w)\<rparr>), wr_delay_ns = (\<lambda>_ w. w)\<rparr>"

lemma spi_bus_simps:
  "spi_transaction (spidev_hal spi_wires f) [[b], bs] d = (Ok (), snd (spi_clock (b # bs) d))"
  "spi_read (spidev_hal spi_wires f) d = (case spi_exchange 0 d of (x, d') \<Rightarrow> (Ok x, d'))"
  "spi_delay_ns (spidev_hal spi_wires f) ns d = d"
  by (simp_all add: spidev_hal_def spidev_transaction_def spi_wires_def spi_os_def Let_def split: prod.splits)

lemma spi_clock_leads:
  "spi_clock (replicate (Suc n) 0) d = (xs, d') \<Longrightarrow> spi_leads (spidev_hal spi_wires f) (\<lambda>w. w = d') d xs"
proof (induction n arbitrary: d xs)
  case 0
  then show ?case
    by (auto simp: spi_bus_simps split: prod.splits)
next
  case (Suc n)
  obtain x d1 where x: "spi_exchange 0 d = (x, d1)"
    using prod.exhaust by blast
  obtain ys d2 where ys: "spi_clock (replicate (Suc n) 0) d1 = (ys, d2)"
    using prod.exhaust by blast
  have "ys \<noteq> []"
    using ys by (auto split: prod.splits)
  moreover have xs: "xs = x # ys" "d2 = d'"
    using Suc.prems x ys by auto
  ultimately show ?case
    using Suc.IH [OF ys [unfolded xs(2)]] by (simp add: spi_bus_simps x)
qed

section \<open>The adapter against the pump\<close>

lemma spi_pump_answers:
  assumes up: "sim_up (sl_sim (spi_hw t))" and idle: "link_idle (sim_link (sl_sim (spi_hw t)))" and at: "slave_at (spi_hw t) x st q"
    and pl: "length pl \<le> 252" and step: "dev_step sim_port_info (sim_dev (sl_sim (spi_hw t))) c pl = (out, d')"
    and rsp: "length out + 3 \<le> length rsp" and lag: "staked_after (length pl + 4) x q \<noteq> SYNC"
    and budget: "2 \<le> unat (spi_poll_attempts t)"
  shows "\<exists>d2. spi_request (spidev_hal spi_wires f) t (wire c pl) rsp =
       (Ok (length out + 3), t\<lparr>spi_hw := d2\<rparr>, wire (c OR RSP_FLAG) out @ drop (length out + 3) rsp)
     \<and> sim_dev (sl_sim d2) = d' \<and> slave_at d2 0 False [] \<and> link_idle (sim_link (sl_sim d2)) \<and> 1 \<le> length out \<and> length out \<le> 17
     \<and> (if c = CMD_BOOT \<and> region_valid (hw_flash (sim_hw (sl_sim (spi_hw t))))
        then hw_jumped (sim_hw (sl_sim d2)) else sim_up (sl_sim d2))"
proof -
  let ?hal = "spidev_hal spi_wires f" and ?x = "staked_after (length pl + 4) x q"
  from slave_cycle [OF up idle at pl step] obtain d1 d2 xs where
    d1: "spi_clock (SYNC # wire c pl) (spi_hw t) = (xs, d1)"
    and d2: "spi_clock (replicate (length out + 5) 0) d1 = (?x # SYNC # wire (c OR RSP_FLAG) out, d2)"
    and post: "sim_dev (sl_sim d2) = d'" "slave_at d2 0 False []" "link_idle (sim_link (sl_sim d2))" "1 \<le> length out" "length out \<le> 17"
      "if c = CMD_BOOT \<and> region_valid (hw_flash (sim_hw (sl_sim (spi_hw t))))
       then hw_jumped (sim_hw (sl_sim d2)) else sim_up (sl_sim d2)"
    by (elim exE conjE)
  have "spi_transaction ?hal [[SYNC], wire c pl] (spi_hw t) = (Ok (), d1)"
    unfolding spi_bus_simps d1 by simp
  moreover have "spi_leads ?hal (\<lambda>w. w = d2) d1 ([?x] @ SYNC # wire (c OR RSP_FLAG) out)"
    using spi_clock_leads [of "length out + 4" d1 _ d2 f] d2 by (simp add: numeral_eq_Suc)
  ultimately have "\<exists>w'. spi_request ?hal t (wire c pl) rsp =
      (Ok (length out + 3), t\<lparr>spi_hw := w'\<rparr>, wire (c OR RSP_FLAG) out @ drop (length out + 3) rsp) \<and> w' = d2"
    by (rule spi_finds) (use lag rsp post(5) budget in auto)
  with post show ?thesis
    by blast
qed

text \<open>With a budget of a single byte the lag byte of the pump is all the host ever reads.\<close>

lemma spi_one_poll:
  assumes "spi_transaction hal [[SYNC], req] (spi_hw t) = (Ok (), w)" and "spi_read hal w = (Ok x, w')" and "x \<noteq> SYNC"
    and "\<not> 2 \<le> unat (spi_poll_attempts t)"
  shows "spi_request hal t req rsp = (Err (SpiExhausted 1), t\<lparr>spi_hw := w'\<rparr>, rsp)"
proof -
  have "spi_poll_attempts t \<le> 0 + 1"
    using assms(4) by (simp add: word_le_nat_alt)
  then have "spi_scan hal (spi_poll_attempts t) (spi_poll_interval_ns t) (spi_byte_interval_ns t) scanner_new 0 rsp w =
      (Err (SpiExhausted 1), rsp, w')"
    using assms(2,3) by (subst spi_scan.simps) (simp add: push_hunting scanner_new_def Let_def)
  then show ?thesis
    using assms(1) by (simp add: spi_request_def)
qed

section \<open>The wire\<close>

definition on_spi :: "(spi_slave, unit) backend \<Rightarrow> bool" where
  "on_spi t \<longleftrightarrow> (case t of BSpi f u \<Rightarrow> slave_up (spi_hw u) \<and> 2 \<le> unat (spi_poll_attempts u) | _ \<Rightarrow> False)"

definition spi_device :: "(spi_slave, unit) backend \<Rightarrow> device" where
  "spi_device t = sim_dev (sl_sim (backend_hw t))"

definition two_polls :: "poll_budget \<Rightarrow> bool" where
  "two_polls b \<longleftrightarrow> 2 \<le> unat (pb_attempts b)"

lemma spi_answers:
  assumes "on_spi t" and "length pl \<le> 252" and "dev_step sim_port_info (spi_device t) c pl = (out, d')"
    and "length out + 3 \<le> length rsp"
  shows "\<exists>n t' rsp'. backend_request spi_wires t (wire c pl) rsp = (Ok n, t', rsp') \<and> n \<le> length rsp'
     \<and> decode_padded (take n rsp') = Ok \<lparr>cmd = c OR RSP_FLAG, payload = out\<rparr> \<and> spi_device t' = d'
     \<and> (if c = CMD_BOOT \<and> region_valid (dev_flash (spi_device t))
        then hw_jumped (sim_hw (sl_sim (backend_hw t'))) else on_spi t')"
proof -
  obtain f u where t: "t = BSpi f u" "sim_up (sl_sim (spi_hw u))" "link_idle (sim_link (sl_sim (spi_hw u)))"
    "slave_at (spi_hw u) 0 False []" "2 \<le> unat (spi_poll_attempts u)"
    using assms(1) by (cases t) (auto simp: on_spi_def slave_up_def)
  have step: "dev_step sim_port_info (sim_dev (sl_sim (spi_hw u))) c pl = (out, d')"
    using assms(3) t(1) by (simp add: spi_device_def)
  have lag: "staked_after (length pl + 4) 0 [] \<noteq> SYNC"
    by (simp only: staked_after_idle) (simp add: SYNC_def)
  from spi_pump_answers [OF t(2-4) assms(2) step assms(4) lag t(5), of f] obtain d2 where
    "spi_request (spidev_hal spi_wires f) u (wire c pl) rsp =
       (Ok (length out + 3), u\<lparr>spi_hw := d2\<rparr>, wire (c OR RSP_FLAG) out @ drop (length out + 3) rsp)"
    "sim_dev (sl_sim d2) = d'" "slave_at d2 0 False []" "link_idle (sim_link (sl_sim d2))" "length out \<le> 17"
    "if c = CMD_BOOT \<and> region_valid (dev_flash (spi_device t)) then hw_jumped (sim_hw (sl_sim d2)) else sim_up (sl_sim d2)"
    by (auto simp: t(1) spi_device_def sim_dev_def)
  with t(1,5) assms(4) show ?thesis
    by (auto simp: on_spi_def spi_device_def slave_up_def erase_err_def)
qed

lemma spi_serves:
  assumes "on_spi t" and "length pl \<le> 252" and "dev_step sim_port_info (spi_device t) c pl = (out, d')"
    and "length out + 3 \<le> length rsp" and "c \<noteq> CMD_BOOT"
  shows "\<exists>n t' rsp'. backend_request spi_wires t (wire c pl) rsp = (Ok n, t', rsp') \<and> n \<le> length rsp'
     \<and> decode_padded (take n rsp') = Ok \<lparr>cmd = c OR RSP_FLAG, payload = out\<rparr> \<and> on_spi t' \<and> spi_device t' = d'"
  using spi_answers [OF assms(1-4)] assms(5) by auto

interpretation spi_wire: wire_device spi_wires spi_device on_spi sim_port_info two_polls
proof (intro wire_device.intro poll_device.intro device_transport.intro device_transport_axioms.intro poll_device_axioms.intro)
  show "transport (backend_request spi_wires)" ..
  show "poll_transport (backend_request spi_wires) backend_set_poll" ..
  show "length (pi_device_id sim_port_info) = 4"
    by (simp add: sim_port_info_def)
next
  fix t b
  assume "on_spi t" and "two_polls b"
  then show "on_spi (backend_set_poll b t) \<and> spi_device (backend_set_poll b t) = spi_device t"
    by (cases t) (auto simp: on_spi_def spi_device_def two_polls_def spi_set_poll_budget_def spi_set_poll_def clamp_attempts_def
        max_def word_le_nat_alt)
next
  fix b n
  assume "two_polls b" and "pb_attempts b \<le> n"
  then show "two_polls (b\<lparr>pb_attempts := n\<rparr>)"
    by (simp add: two_polls_def word_le_nat_alt)
qed (use spi_serves in blast)

interpretation spi_boot: boot_wire spi_wires spi_device on_spi sim_port_info two_polls
  "\<lambda>t. hw_jumped (sim_hw (sl_sim (backend_hw t)))"
proof unfold_locales
  fix t :: "(spi_slave, unit) backend" and v and rsp :: bytes
  assume up: "on_spi t" and v: "v = region_valid (dev_flash (spi_device t))" and rsp: "4 \<le> length rsp"
  have "\<not> hw_jumped (sim_hw (sl_sim (backend_hw t')))" if "on_spi t'" for t'
    using that by (auto simp: on_spi_def slave_up_def sim_up_def healthy_def split: backend.splits)
  then show "\<exists>n t' rsp'. backend_request spi_wires t (wire CMD_BOOT []) rsp = (Ok n, t', rsp') \<and> n \<le> length rsp'
      \<and> decode_padded (take n rsp') = Ok \<lparr>cmd = CMD_BOOT OR RSP_FLAG, payload = [if v then ST_OK else ST_NO_APP]\<rparr>
      \<and> spi_device t' = spi_device t \<and> hw_jumped (sim_hw (sl_sim (backend_hw t'))) = v \<and> (v \<or> on_spi t')"
    using spi_answers [OF up _ dev_step_boot, of "[]" rsp] rsp unfolding v
    by (cases "region_valid (dev_flash (spi_device t))") auto
qed

section \<open>The commands\<close>

definition spi_env :: "(string \<Rightarrow> unit + string) \<Rightarrow> (string \<Rightarrow> unit + bytes) \<Rightarrow> (spi_slave, unit) install_os \<Rightarrow>
    (spi_slave, unit, unit, unit) cli_env" where
  "spi_env texts files ios = \<lparr>ce_wires = spi_wires, ce_read_to_string = texts, ce_read = files, ce_install = ios,
     ce_from_cli = (\<lambda>_. False), ce_sub = None\<rparr>"

abbreviation spi_spec :: "cli \<Rightarrow> transport_spec" where
  "spi_spec c \<equiv> SpecSpi (case cli_dev c of None \<Rightarrow> ''/dev/spidev0.0'' | Some d \<Rightarrow> d) (cli_speed_hz c)"

lemma spi_env_wires: "ce_wires (spi_env texts files ios) = spi_wires"
  by (simp add: spi_env_def)

interpretation spi_cli: cli_wire spi_wires spi_device on_spi two_polls "\<lambda>t. hw_jumped (sim_hw (sl_sim (backend_hw t)))"
  "\<lambda>c. cli_transport c = KindSpi \<and> 2 \<le> unat (cli_poll_attempts c)" spi_spec
  slave_up "\<lambda>w. sim_dev (sl_sim w)" "\<lambda>w. hw_jumped (sim_hw (sl_sim w))"
  by unfold_locales
    (auto simp: build_spec_def two_polls_def open_backend_def spidev_open_def spi_wires_def spi_os_def quiet_os_def on_spi_def spi_device_def
      spi_new_def spi_set_poll_budget_def spi_set_poll_def clamp_attempts_def max_def word_le_nat_alt slave_up_def sim_up_def healthy_def sim_dev_def split: backend.splits)

section \<open>Properties\<close>

text \<open>
  C34: the SPI adapter against the SPI pump. Whatever an abandoned earlier response left in
  the queue and the shift register of the device, a request is answered with exactly what
  the abstract device answers, the bus is left with nothing staked or queued, and after an
  accepted BOOT the application has started only with the answer on the wire; provided that
  the one stale byte the host sees is not a sync byte and the budget is at least two bytes.
  With a smaller budget the request fails with \<open>SpiExhausted 1\<close>, since the first byte after
  a request is never the answer.
\<close>

theorem spi_over_pump:
  assumes "sim_up (sl_sim (spi_hw t))" and "link_idle (sim_link (sl_sim (spi_hw t)))" and "slave_at (spi_hw t) x st q"
    and "length pl \<le> 252" and "dev_step sim_port_info (sim_dev (sl_sim (spi_hw t))) c pl = (out, d')"
    and "length out + 3 \<le> length rsp" and "staked_after (length pl + 4) x q \<noteq> SYNC"
  shows "\<exists>d2. if 2 \<le> unat (spi_poll_attempts t)
     then spi_request (spidev_hal spi_wires f) t (wire c pl) rsp =
         (Ok (length out + 3), t\<lparr>spi_hw := d2\<rparr>, wire (c OR RSP_FLAG) out @ drop (length out + 3) rsp)
       \<and> sim_dev (sl_sim d2) = d' \<and> slave_at d2 0 False []
       \<and> hw_jumped (sim_hw (sl_sim d2)) = (c = CMD_BOOT \<and> region_valid (hw_flash (sim_hw (sl_sim (spi_hw t)))))
     else spi_request (spidev_hal spi_wires f) t (wire c pl) rsp = (Err (SpiExhausted 1), t\<lparr>spi_hw := d2\<rparr>, rsp)"
proof (cases "2 \<le> unat (spi_poll_attempts t)")
  case True
  from spi_pump_answers [OF assms True, of f] True show ?thesis
    by (auto simp: sim_up_def healthy_def split: if_splits)
next
  case False
  from slave_cycle [OF assms(1-5)] obtain d1 d2 xs where
    d1: "spi_clock (SYNC # wire c pl) (spi_hw t) = (xs, d1)"
    and d2: "spi_clock (replicate (length out + 5) 0) d1 = (staked_after (length pl + 4) x q # SYNC # wire (c OR RSP_FLAG) out, d2)"
    by (elim exE conjE)
  have "spi_transaction (spidev_hal spi_wires f) [[SYNC], wire c pl] (spi_hw t) = (Ok (), d1)"
    unfolding spi_bus_simps d1 by simp
  moreover obtain d3 where "spi_exchange 0 d1 = (staked_after (length pl + 4) x q, d3)"
    using d2 by (auto simp: numeral_eq_Suc split: prod.splits)
  then have "spi_read (spidev_hal spi_wires f) d1 = (Ok (staked_after (length pl + 4) x q), d3)"
    by (simp add: spi_bus_simps)
  ultimately show ?thesis
    unfolding if_not_P [OF False] using spi_one_poll [OF _ _ assms(7) False] by blast
qed

text \<open>
  A stale sync byte does hide the response: the sync byte of the response is taken for its
  command, and the command, which has its top bit set, for a length that fits no window.
\<close>

lemma stale_sync_hides:
  assumes "3 \<le> length rsp" and "length rsp \<le> 130"
  shows "\<exists>rsp'. feed scanner_new [SYNC, SYNC, c OR RSP_FLAG] rsp = ([Frame, Frame, Dropped], scanner_new, rsp')"
proof -
  have "RSP_FLAG \<le> c OR RSP_FLAG"
    by (subst or.commute) (rule le_word_or2)
  then have big: "128 \<le> unat (c OR RSP_FLAG)"
    by (simp add: RSP_FLAG_def word_le_nat_alt)
  let ?f = "\<lambda>n. \<lparr>sc_n = n, sc_in_frame = True\<rparr>" and ?r1 = "rsp[0 := SYNC]"
  have "push scanner_new SYNC rsp = (Frame, ?f 0, rsp)"
    using assms(1) by (simp add: push_hunting scanner_new_def)
  moreover have "push (?f 0) SYNC rsp = (Frame, ?f 1, ?r1)"
    using assms(1) by (subst push_in_frame) (auto simp: scanner_inv_def Let_def)
  moreover have "push (?f 1) (c OR RSP_FLAG) ?r1 = (Dropped, scanner_new, ?r1[1 := c OR RSP_FLAG])"
    using assms big by (subst push_in_frame) (auto simp: scanner_inv_def scanner_reset_def scanner_new_def Let_def)
  ultimately show ?thesis
    by simp
qed

text \<open>A device that has just come up, with a shift register full of junk.\<close>

definition fresh_slave :: spi_slave where
  "fresh_slave = \<lparr>sl_sim = sim_acquire fresh_sim,
     sl_pump = spi_pump_init shift_ops \<lparr>sr_shift = 0xEE, sr_done = False, sr_mosi = 0\<rparr> (replicate 24 0) 24\<rparr>"

lemma fresh_slave_up: "slave_up fresh_slave"
  using fresh_bus_up link_init_inv [of "replicate 255 0"]
  by (simp add: fresh_slave_def slave_up_def fresh_bus_def link_idle_def sim_acquire_def sim_reset_def fresh_sim_def link_init_def
      slave_at_def spi_pump_init_def shift_ops_def pump_ok_def pending_def SPI_PUMP_IDLE_def)

lemma fresh_slave_device: "sim_dev (sl_sim fresh_slave) = \<lparr>dev_flash = replicate 4096 0xFF, dev_erased = False\<rparr>"
  by (simp add: fresh_slave_def sim_dev_def sim_acquire_def sim_reset_def upd_init_def)

theorem spi_over_pump_witness:
  "\<exists>d2. spi_request (spidev_hal spi_wires ()) (spi_new fresh_slave) (wire CMD_ECHO [0x7E, 5]) (replicate 8 0) =
       (Ok 6, (spi_new fresh_slave)\<lparr>spi_hw := d2\<rparr>, wire (CMD_ECHO OR RSP_FLAG) [ST_OK, 0x7E, 5] @ [0, 0])
     \<and> slave_at d2 0 False [] \<and> \<not> hw_jumped (sim_hw (sl_sim d2))"
proof -
  have up: "sim_up (sl_sim fresh_slave)" "link_idle (sim_link (sl_sim fresh_slave))" "slave_at fresh_slave 0 False []"
    using fresh_slave_up by (simp_all add: slave_up_def)
  have "dev_step sim_port_info (sim_dev (sl_sim fresh_slave)) CMD_ECHO [0x7E, 5] = ([ST_OK, 0x7E, 5], sim_dev (sl_sim fresh_slave))"
    by (simp add: dev_step_def CMD_INFO_def CMD_ERASE_APP_def CMD_WRITE_PAGE_def CMD_VERIFY_def CMD_BOOT_def CMD_ECHO_def)
  with up have "\<exists>d2. if 2 \<le> unat (spi_poll_attempts (spi_new fresh_slave))
     then spi_request (spidev_hal spi_wires ()) (spi_new fresh_slave) (wire CMD_ECHO [0x7E, 5]) (replicate 8 0) =
         (Ok (length [ST_OK, 0x7E, 5] + 3), (spi_new fresh_slave)\<lparr>spi_hw := d2\<rparr>,
          wire (CMD_ECHO OR RSP_FLAG) [ST_OK, 0x7E, 5] @ drop (length [ST_OK, 0x7E, 5] + 3) (replicate 8 0))
       \<and> sim_dev (sl_sim d2) = sim_dev (sl_sim fresh_slave) \<and> slave_at d2 0 False []
       \<and> hw_jumped (sim_hw (sl_sim d2)) = (CMD_ECHO = CMD_BOOT \<and> region_valid (hw_flash (sim_hw (sl_sim (spi_hw (spi_new fresh_slave))))))
     else spi_request (spidev_hal spi_wires ()) (spi_new fresh_slave) (wire CMD_ECHO [0x7E, 5]) (replicate 8 0) =
         (Err (SpiExhausted 1), (spi_new fresh_slave)\<lparr>spi_hw := d2\<rparr>, replicate 8 0)"
    by (intro spi_over_pump [where x = 0 and q = "[]" and st = False])
      (simp_all only: spi_new_def spi_transport.simps staked_after_idle, simp_all add: SYNC_def)
  moreover have "2 \<le> unat (spi_poll_attempts (spi_new fresh_slave))"
    by (simp add: spi_new_def DEFAULT_POLL_ATTEMPTS_def)
  moreover have "drop (length [ST_OK, 0x7E, 5] + 3) (replicate 8 0) = [0, 0 :: u8]" "CMD_ECHO \<noteq> CMD_BOOT"
    by (simp_all add: numeral_2_eq_2 CMD_ECHO_def CMD_BOOT_def)
  ultimately show ?thesis
    by auto
qed

text \<open>
  C7: the command line works over SPI. With the device and its pump on the bus, a poll
  budget of at least two bytes and any image file that fits, \<open>updater-cli flash\<close> succeeds
  and reports length and CRC of the image, and the region holds the bytes of the file,
  \<open>0xFF\<close> padding and the footer; a following \<open>info\<close> reports the device with a valid
  application, \<open>echo\<close> of one to sixteen bytes comes back, and each leaves the bus as it was
  found: the link between two frames and nothing staked or queued. A final \<open>boot\<close> succeeds
  and starts the application; the last three leave the flash alone.
\<close>

theorem cli_flash_spi:
  assumes "cli_transport c = KindSpi" and "2 \<le> unat (cli_poll_attempts c)" and "slave_up w"
    and "load_image (spi_env texts files ios) path = Ok bs" and "from_bin bs 128 32 = Ok img"
    and "parse_hex_bytes data = Ok payload'" and "payload' \<noteq> []" and "length payload' \<le> 16"
  shows "\<exists>prog w1 w2 w3 w4.
       cli_main (spi_env texts files ios) (c\<lparr>cli_cmd := CmdFlash path\<rparr>) w =
         (Ok (OutFlash (img_len img) (img_crc img) (describe (spi_spec c)) prog), w1)
     \<and> hw_flash (sim_hw (sl_sim w1)) = bs @ replicate (4080 - length bs) 0xFF @ footer img
     \<and> cli_main (spi_env texts files ios) (c\<lparr>cli_cmd := CmdInfo\<rparr>) w1 =
         (Ok (OutInfo \<lparr>di_proto = PROTO_VERSION, di_bl_version = pi_bl_version sim_port_info, di_device_id = pi_device_id sim_port_info,
            di_page_size = 128, di_app_pages = 32, di_app_valid = True\<rparr> 4096 4080), w2)
     \<and> cli_main (spi_env texts files ios) (c\<lparr>cli_cmd := CmdEcho data\<rparr>) w2 = (Ok (OutEcho (length payload')), w3)
     \<and> slave_up w1 \<and> slave_up w2 \<and> slave_up w3
     \<and> cli_main (spi_env texts files ios) (c\<lparr>cli_cmd := CmdBoot\<rparr>) w3 = (Ok OutBoot, w4)
     \<and> hw_jumped (sim_hw (sl_sim w4)) \<and> hw_flash (sim_hw (sl_sim w4)) = hw_flash (sim_hw (sl_sim w1))"
  using spi_cli.main_round [OF conjI [OF assms(1,2)] assms(3) spi_env_wires assms(4-8)] by (simp add: sim_dev_def)

definition spi_no_tools :: "(spi_slave, unit) install_os" where
  "spi_no_tools = \<lparr>io_toml = (\<lambda>_. Err ()), io_read_to_string = (\<lambda>_. Err ()), io_metadata = (\<lambda>_. None),
     io_valid_utf8 = (\<lambda>_. True), io_path_var = [], io_spawn = (\<lambda>_ _ w. (Err (), w)),
     io_debug_str = id, io_eprintln = (\<lambda>_ w. w), io_println = (\<lambda>_ w. w)\<rparr>"

lemma load_image_spi: "load_image (spi_env texts files ios) path = load_image (sim_env texts files ios') path"
  by (simp add: load_image_def sim_env_def spi_env_def)

theorem cli_flash_spi_witness:
  "\<exists>prog w1 w2 w3 w4.
       cli_main (spi_env demo_texts demo_files spi_no_tools) ((cli_default (CmdFlash ''app.hex''))\<lparr>cli_transport := KindSpi\<rparr>) fresh_slave =
         (Ok (OutFlash 3 (crc32 [1, 2, 3]) (describe (SpecSpi ''/dev/spidev0.0'' 100000)) prog), w1)
     \<and> hw_flash (sim_hw (sl_sim w1)) = [1, 2, 3] @ replicate 4077 0xFF @ footer blinky
     \<and> cli_main (spi_env demo_texts demo_files spi_no_tools) ((cli_default (CmdEcho ''0a''))\<lparr>cli_transport := KindSpi\<rparr>) w2 = (Ok (OutEcho 1), w3)
     \<and> cli_main (spi_env demo_texts demo_files spi_no_tools) ((cli_default CmdBoot)\<lparr>cli_transport := KindSpi\<rparr>) w3 = (Ok OutBoot, w4)
     \<and> hw_jumped (sim_hw (sl_sim w4))"
proof -
  let ?c = "(cli_default CmdBoot)\<lparr>cli_transport := KindSpi\<rparr>"
  have load: "load_image (spi_env demo_texts demo_files spi_no_tools) ''app.hex'' = Ok [1, 2, 3]"
    by (rule load_image_spi [THEN trans, OF load_demo])
  have hex: "parse_hex_bytes ''0a'' = Ok [10]"
    by (simp add: parse_hex_bytes_def plain_def utf8_pair_def from_str_radix_def to_digit_def Let_def)
  have "2 \<le> unat (cli_poll_attempts ?c)"
    by (simp add: cli_default_def CLI_POLL_ATTEMPTS_def)
  from cli_flash_spi [OF _ this fresh_slave_up load blinky_from_bin hex]
  show ?thesis
    by (auto simp: cli_default_def blinky_def) blast
qed

end
