(* ===== verification/Cli_Spi_Cut.thy ===== *)
theory Cli_Spi_Cut
  imports Cli_Spi Cli_Power_Cut Stream_Campaigns
begin

text \<open>
  The command line over SPI while the device loses power: the register of a device without
  power keeps shifting out the idle byte, which the host takes for a busy device until its
  budget is spent.
\<close>

section \<open>A bus that stays idle\<close>

lemma spi_scan_silent:
  assumes read: "\<And>w. I w \<Longrightarrow> \<exists>w'. spi_read hal w = (Ok 0, w') \<and> I w'" and delay: "\<And>ns w. I w \<Longrightarrow> I (spi_delay_ns hal ns w)"
    and "I w" and sc: "\<not> sc_in_frame sc"
  shows "\<exists>a w'. spi_scan hal poll interval gap sc att rsp w = (Err (SpiExhausted a), rsp, w') \<and> I w'"
  using \<open>I w\<close>
proof (induction "budget_left poll att" arbitrary: att w rule: less_induct)
  case less
  obtain w1 where w1: "spi_read hal w = (Ok 0, w1)" "I w1"
    using read [OF less.prems] by blast
  show ?case
  proof (cases "poll \<le> att + 1")
    case True
    with w1 sc show ?thesis
      by (simp add: spi_scan.simps [of hal poll interval gap sc att] push_hunting SYNC_def Let_def)
  next
    case False
    from less.hyps [OF budget_left_step [OF False] delay [OF w1(2)], of interval] False w1(1) sc show ?thesis
      by (simp add: spi_scan.simps [of hal poll interval gap sc att] push_hunting SYNC_def Let_def)
  qed
qed

section \<open>A device without power\<close>

definition roomy :: "spi_slave \<Rightarrow> bool" where
  "roomy d \<longleftrightarrow> 21 \<le> unat (sp_tx_cap (sl_pump d)) \<and> unat (sp_tx_cap (sl_pump d)) = length (sp_tx_buf (sl_pump d))"

definition silent :: "sim \<Rightarrow> spi_slave \<Rightarrow> bool" where
  "silent s d \<longleftrightarrow> sl_sim d = s \<and> hw_dead (sim_hw s) \<and> sr_shift (sp_ctx (sl_pump d)) = 0 \<and> roomy d"

lemma silent_exchange: "silent s d \<Longrightarrow> \<exists>d'. spi_exchange m d = (0, d') \<and> silent s d'"
  by (auto simp: silent_def roomy_def spi_exchange_def sr_clock_def slave_spin_def)

lemma silent_clock: "silent s d \<Longrightarrow> \<exists>xs d'. spi_clock ms d = (xs, d') \<and> silent s d'"
proof (induction ms arbitrary: d)
  case (Cons m ms)
  obtain d1 where "spi_exchange m d = (0, d1)" "silent s d1"
    using silent_exchange [OF Cons.prems] by blast
  with Cons.IH [of d1] show ?case
    by auto
qed simp

lemma slave_at_roomy: "slave_at d x st q \<Longrightarrow> roomy d"
  by (simp add: slave_at_def roomy_def pump_ok_def)

lemma silent_request:
  assumes "spi_transaction (spidev_hal spi_wires f) [[SYNC], req] (spi_hw t) = (Ok (), d)" and "silent s d"
  shows "\<exists>a d'. spi_request (spidev_hal spi_wires f) t req rsp = (Err (SpiExhausted a), t\<lparr>spi_hw := d'\<rparr>, rsp) \<and> silent s d'"
proof -
  have "\<exists>w'. spi_read (spidev_hal spi_wires f) w = (Ok 0, w') \<and> silent s w'" if "silent s w" for w
    using silent_exchange [OF that, of 0] by (auto simp: spi_bus_simps)
  then have "\<exists>a w'. spi_scan (spidev_hal spi_wires f) (spi_poll_attempts t) (spi_poll_interval_ns t) (spi_byte_interval_ns t)
      scanner_new 0 rsp d = (Err (SpiExhausted a), rsp, w') \<and> silent s w'"
    by (rule spi_scan_silent) (simp_all add: spi_bus_simps assms(2), simp add: scanner_new_def)
  with assms(1) show ?thesis
    by (auto simp: spi_request_def)
qed

section \<open>A device that loses power behind the pump\<close>

definition slave_calm :: "spi_slave \<Rightarrow> bool" where
  "slave_calm d \<longleftrightarrow> link_idle (sim_link (sl_sim d)) \<and> \<not> us_boot_pending (sim_session (sl_sim d))
     \<and> (if hw_dead (sim_hw (sl_sim d)) then silent (sl_sim d) d else slave_at d 0 False [])"

lemma spi_handled:
  assumes calm: "slave_calm (spi_hw t)" and al: "alive (sl_sim (spi_hw t))" and pl: "length pl \<le> 252"
    and budget: "2 \<le> unat (spi_poll_attempts t)"
  shows "\<exists>junk. \<forall>out y. handled (core_of (sl_sim (spi_hw t))) c pl junk out y \<longrightarrow> length out + 3 \<le> length rsp \<longrightarrow>
     (\<exists>r d' rsp'. spi_request (spidev_hal spi_wires f) t (wire c pl) rsp = (r, t\<lparr>spi_hw := d'\<rparr>, rsp')
       \<and> core_of (sl_sim d') = y \<and> slave_calm d'
       \<and> (if hw_dead (snd y) then \<exists>a. r = Err (SpiExhausted a)
          else r = Ok (length out + 3) \<and> rsp' = wire (c OR RSP_FLAG) out @ drop (length out + 3) rsp))"
proof -
  let ?d = "spi_hw t" and ?hal = "spidev_hal spi_wires f"
  let ?s = "sl_sim ?d"
  have at: "slave_at ?d 0 False []" and idle: "link_idle (sim_link ?s)" and np: "\<not> us_boot_pending (sim_session ?s)"
    using calm al by (simp_all add: slave_calm_def)
  obtain l' junk where lp: "link_poll (sim_link ?s) (SYNC # wire c pl) =
      (Some \<lparr>uf_cmd = c, uf_len = word_of_nat (length pl), uf_payload = pl @ junk\<rparr>, l', [])" and idle': "link_idle l'"
    using link_poll_wire [OF idle pl] by blast
  show ?thesis
  proof (intro exI [of _ junk] allI impI)
    fix out y
    assume h: "handled (core_of ?s) c pl junk out y" and fits: "length out + 3 \<le> length rsp"
    obtain ses w where y: "y = (ses, w)" by fastforce
    have ans: "answered (core_of ?s) c pl junk out (ses, w)" and nb: "\<not> us_boot_pending ses" and out: "length out \<le> 17"
      using h by (simp_all add: y handled_iff)
    let ?s1 = "?s\<lparr>sim_link := l', sim_session := ses, sim_hw := w\<rparr>"
    from clock_request [OF at al np lp ans] obtain d1 xs st' where d1: "spi_clock (SYNC # wire c pl) ?d = (xs, d1)"
      "slave_at d1 0 st' (if hw_dead w then [] else SYNC # wire (c OR RSP_FLAG) out)" "sl_sim d1 = ?s1"
      by (auto simp del: spi_clock.simps)
    have tr: "spi_transaction ?hal [[SYNC], wire c pl] ?d = (Ok (), d1)"
      unfolding spi_bus_simps d1(1) by simp
    show "\<exists>r d' rsp'. spi_request ?hal t (wire c pl) rsp = (r, t\<lparr>spi_hw := d'\<rparr>, rsp') \<and> core_of (sl_sim d') = y \<and> slave_calm d'
       \<and> (if hw_dead (snd y) then \<exists>a. r = Err (SpiExhausted a)
          else r = Ok (length out + 3) \<and> rsp' = wire (c OR RSP_FLAG) out @ drop (length out + 3) rsp)"
    proof (cases "hw_dead w")
      case True
      then have "silent ?s1 d1"
        using d1(2,3) slave_at_roomy [OF d1(2)] by (simp add: silent_def slave_at_def)
      from silent_request [OF tr this, of rsp] obtain a d' where d': "silent ?s1 d'"
        "spi_request ?hal t (wire c pl) rsp = (Err (SpiExhausted a), t\<lparr>spi_hw := d'\<rparr>, rsp)"
        by blast
      then have "sl_sim d' = ?s1"
        by (simp add: silent_def)
      then have "core_of (sl_sim d') = y" "slave_calm d'"
        using d'(1) idle' nb True by (simp_all add: y core_of_def slave_calm_def)
      with d'(2) True show ?thesis
        by (auto simp: y)
    next
      case False
      obtain rest where "upd_handle sim_port (sim_session ?s) \<lparr>uf_cmd = c, uf_len = word_of_nat (length pl), uf_payload = pl @ junk\<rparr>
          (replicate 252 0) 252 (sim_hw ?s) = (word_of_nat (length out), out @ rest, ses, w)"
        using ans by (auto simp: answered_def core_of_def)
      from jumps.handle_keeps [OF this, of False] have al1: "alive (sl_sim d1)"
        using False al d1(3) by simp
      have hunting: "\<not> lk_in_frame (sim_link (sl_sim d1))"
        using d1(3) idle' by (simp add: link_idle_def)
      have at1: "slave_at d1 0 st' (SYNC # wire (c OR RSP_FLAG) out)"
        using d1(2) False by simp
      from clock_response [OF at1 al1 hunting] obtain d2 where
        d2: "spi_clock (replicate (Suc (length (SYNC # wire (c OR RSP_FLAG) out))) 0) d1 = (0 # SYNC # wire (c OR RSP_FLAG) out, d2)"
        "slave_at d2 0 False []" "sl_sim d2 = take_gate (sl_sim d1)"
        by blast
      have s2: "sl_sim d2 = ?s1"
        using d2(3) d1(3) nb by (simp add: take_gate_idle)
      have "spi_leads ?hal (\<lambda>w. w = d2) d1 ([0] @ SYNC # wire (c OR RSP_FLAG) out)"
        using spi_clock_leads [OF d2(1)] by simp
      from spi_finds [OF tr this] fits out budget have
        "spi_request ?hal t (wire c pl) rsp = (Ok (length out + 3), t\<lparr>spi_hw := d2\<rparr>, wire (c OR RSP_FLAG) out @ drop (length out + 3) rsp)"
        by (auto simp: SYNC_def)
      moreover have "core_of (sl_sim d2) = y" "slave_calm d2"
        using s2 d2(2) idle' nb False by (simp_all add: y core_of_def slave_calm_def)
      ultimately show ?thesis
        using False by (auto simp: y)
    qed
  qed
qed

section \<open>The wire\<close>

abbreviation spi_core :: "(spi_slave, unit) backend \<Rightarrow> upd_session \<times> sim_hw" where
  "spi_core t \<equiv> core_of (sl_sim (backend_hw t))"

definition spi_calm :: "(spi_slave, unit) backend \<Rightarrow> bool" where
  "spi_calm t \<longleftrightarrow> (case t of BSpi f u \<Rightarrow> slave_calm (spi_hw u) \<and> 2 \<le> unat (spi_poll_attempts u) | _ \<Rightarrow> False)"

lemma silent_bus_request:
  assumes "silent s d"
  shows "\<exists>d1. spi_transaction (spidev_hal spi_wires f) [[SYNC], req] d = (Ok (), d1) \<and> silent s d1"
proof -
  from silent_clock [OF assms, of "SYNC # req"] obtain xs d1 where "spi_clock (SYNC # req) d = (xs, d1)" "silent s d1"
    by (elim exE conjE)
  then show ?thesis
    by (simp only: spi_bus_simps snd_conv) simp
qed

interpretation spi_cut: wire_cut spi_wires spi_core spi_calm two_polls
proof (intro wire_cut.intro poll_cut.intro cut_transport.intro cut_transport_axioms.intro poll_cut_axioms.intro)
  show "transport (backend_request spi_wires)" ..
  show "poll_transport (backend_request spi_wires) backend_set_poll" ..
next
  fix t :: "(spi_slave, unit) backend" and c and pl rsp :: bytes
  assume calm: "spi_calm t" and al: "\<not> hw_dead (snd (spi_core t))" "\<not> hw_jumped (snd (spi_core t))" and pl: "length pl \<le> 252"
  then obtain f u where t: "t = BSpi f u" "slave_calm (spi_hw u)" "2 \<le> unat (spi_poll_attempts u)"
    by (cases t) (auto simp: spi_calm_def)
  have "alive (sl_sim (spi_hw u))"
    using al by (simp add: t(1) core_of_def)
  from spi_handled [OF t(2) this pl t(3), of c rsp f] obtain junk where
    h: "\<forall>out y. handled (core_of (sl_sim (spi_hw u))) c pl junk out y \<longrightarrow> length out + 3 \<le> length rsp \<longrightarrow>
     (\<exists>r d' rsp'. spi_request (spidev_hal spi_wires f) u (wire c pl) rsp = (r, u\<lparr>spi_hw := d'\<rparr>, rsp')
       \<and> core_of (sl_sim d') = y \<and> slave_calm d'
       \<and> (if hw_dead (snd y) then \<exists>a. r = Err (SpiExhausted a)
          else r = Ok (length out + 3) \<and> rsp' = wire (c OR RSP_FLAG) out @ drop (length out + 3) rsp))"
    by (elim exE)
  show "\<exists>junk. \<forall>out y. handled (spi_core t) c pl junk out y \<longrightarrow> length out + 3 \<le> length rsp \<longrightarrow>
      (\<exists>r t' rsp'. backend_request spi_wires t (wire c pl) rsp = (r, t', rsp') \<and> spi_core t' = y \<and> spi_calm t'
        \<and> (if hw_dead (snd y) then rejected r rsp'
           else \<exists>n. r = Ok n \<and> n \<le> length rsp' \<and> decode_padded (take n rsp') = Ok \<lparr>cmd = c OR RSP_FLAG, payload = out\<rparr>))"
  proof (intro exI [of _ junk] allI impI)
    fix out y
    assume hd: "handled (spi_core t) c pl junk out y" and fits: "length out + 3 \<le> length rsp"
    then have out: "length out \<le> 17"
      by (simp add: handled_iff)
    have hd': "handled (core_of (sl_sim (spi_hw u))) c pl junk out y"
      using hd by (simp add: t(1))
    obtain r d' rsp' where r: "spi_request (spidev_hal spi_wires f) u (wire c pl) rsp = (r, u\<lparr>spi_hw := d'\<rparr>, rsp')"
      "core_of (sl_sim d') = y" "slave_calm d'" "if hw_dead (snd y) then \<exists>a. r = Err (SpiExhausted a)
          else r = Ok (length out + 3) \<and> rsp' = wire (c OR RSP_FLAG) out @ drop (length out + 3) rsp"
      using h hd' fits by blast
    have req: "backend_request spi_wires t (wire c pl) rsp = (map_err ESpi r, BSpi f (u\<lparr>spi_hw := d'\<rparr>), rsp')"
      using r(1) by (simp add: t(1) erase_err_def)
    have left: "spi_core (BSpi f (u\<lparr>spi_hw := d'\<rparr>)) = y" "spi_calm (BSpi f (u\<lparr>spi_hw := d'\<rparr>))"
      using r(2,3) t(3) by (simp_all add: spi_calm_def)
    have "if hw_dead (snd y) then rejected (map_err ESpi r) rsp'
        else \<exists>n. map_err ESpi r = Ok n \<and> n \<le> length rsp' \<and> decode_padded (take n rsp') = Ok \<lparr>cmd = c OR RSP_FLAG, payload = out\<rparr>"
      using r(4) fits out by (auto simp: rejected_def)
    with req left show "\<exists>r t' rsp'. backend_request spi_wires t (wire c pl) rsp = (r, t', rsp') \<and> spi_core t' = y \<and> spi_calm t'
        \<and> (if hw_dead (snd y) then rejected r rsp'
           else \<exists>n. r = Ok n \<and> n \<le> length rsp' \<and> decode_padded (take n rsp') = Ok \<lparr>cmd = c OR RSP_FLAG, payload = out\<rparr>)"
      by blast
  qed
next
  fix t t' :: "(spi_slave, unit) backend" and c pl rsp rsp' r
  assume calm: "spi_calm t" and dead: "hw_dead (snd (spi_core t))"
    and req: "backend_request spi_wires t (wire c pl) rsp = (r, t', rsp')"
  then obtain f u where t: "t = BSpi f u" "slave_calm (spi_hw u)" "2 \<le> unat (spi_poll_attempts u)"
    by (cases t) (auto simp: spi_calm_def)
  have sil: "silent (sl_sim (spi_hw u)) (spi_hw u)"
    using t(2) dead by (simp add: t(1) core_of_def slave_calm_def)
  from silent_bus_request [OF this, of f "wire c pl"] obtain d1 where
    "spi_transaction (spidev_hal spi_wires f) [[SYNC], wire c pl] (spi_hw u) = (Ok (), d1)" "silent (sl_sim (spi_hw u)) d1"
    by (elim exE conjE)
  from silent_request [OF this, of rsp] obtain a d' where
    d': "spi_request (spidev_hal spi_wires f) u (wire c pl) rsp = (Err (SpiExhausted a), u\<lparr>spi_hw := d'\<rparr>, rsp)"
    "silent (sl_sim (spi_hw u)) d'"
    by (elim exE conjE)
  have s: "sl_sim d' = sl_sim (spi_hw u)"
    using d'(2) by (simp add: silent_def)
  then have "slave_calm d'"
    using t(2) d'(2) dead by (simp add: slave_calm_def t(1) core_of_def)
  with req d'(1) s t(1,3) show "rejected r rsp' \<and> spi_core t' = spi_core t \<and> spi_calm t'"
    by (auto simp: erase_err_def rejected_def spi_calm_def)
next
  fix t :: "(spi_slave, unit) backend" and b
  assume "spi_calm t" and "two_polls b"
  then show "spi_calm (backend_set_poll b t) \<and> spi_core (backend_set_poll b t) = spi_core t"
    by (cases t) (auto simp: spi_calm_def two_polls_def spi_set_poll_budget_def spi_set_poll_def clamp_attempts_def max_def word_le_nat_alt)
next
  fix b n
  assume "two_polls b" and "pb_attempts b \<le> n"
  then show "two_polls (b\<lparr>pb_attempts := n\<rparr>)"
    by (simp add: two_polls_def word_le_nat_alt)
qed

text \<open>The power comes back: the core starts on the flash it has, the pump on the junk in the register.\<close>

definition spi_repower :: "spi_slave \<Rightarrow> spi_slave" where
  "spi_repower d = \<lparr>sl_sim = sim_reset True (sl_sim d),
     sl_pump = spi_pump_init shift_ops ((sp_ctx (sl_pump d))\<lparr>sr_done := False\<rparr>) (sp_tx_buf (sl_pump d)) (sp_tx_cap (sl_pump d))\<rparr>"

lemma spi_repower_up:
  assumes "roomy d" and "length (lk_buf (sim_link (sl_sim d))) = 255"
    and "\<not> hw_aborted (sim_hw (sl_sim d))" and "length (hw_flash (sim_hw (sl_sim d))) = 4096"
  shows "slave_up (spi_repower d)" "sim_dev (sl_sim (spi_repower d)) = \<lparr>dev_flash = hw_flash (sim_hw (sl_sim d)), dev_erased = False\<rparr>"
  using assms reset_up [OF assms(3,4)] reset_idle [OF assms(2), of True] reset_dev [OF assms(4)]
  by (simp_all add: spi_repower_def slave_up_def roomy_def slave_at_def spi_pump_init_def shift_ops_def pump_ok_def pending_def
      SPI_PUMP_IDLE_def)

interpretation spi_cut_cli: cut_cli spi_wires spi_device on_spi two_polls "\<lambda>t. hw_jumped (sim_hw (sl_sim (backend_hw t)))"
  "\<lambda>c. cli_transport c = KindSpi \<and> 2 \<le> unat (cli_poll_attempts c)" spi_spec
  slave_up "\<lambda>w. sim_dev (sl_sim w)" "\<lambda>w. hw_jumped (sim_hw (sl_sim w))" spi_core spi_calm
  slave_calm "\<lambda>w. core_of (sl_sim w)" spi_repower
proof (unfold_locales, goal_cases)
  case (1 c w)
  then show ?case
    by (auto simp: open_backend_def spidev_open_def spi_wires_def spi_os_def quiet_os_def spi_calm_def spi_new_def DEFAULT_POLL_ATTEMPTS_def)
next
  case (3 t)
  then have "slave_calm (backend_hw t)"
    by (auto simp: spi_calm_def split: backend.splits)
  then have "roomy (backend_hw t)" "length (lk_buf (sim_link (sl_sim (backend_hw t)))) = 255"
    using slave_at_roomy by (auto simp: slave_calm_def silent_def link_idle_def split: if_splits)
  with 3 spi_repower_up [of "backend_hw t"] show ?case
    by (simp add: core_of_def)
qed simp

section \<open>Properties\<close>

text \<open>
  C10: the command line survives a power cut over SPI. Let the device lose power at the
  \<open>n\<close>-th flash operation of \<open>updater-cli flash\<close>. A register without power behind it keeps
  shifting out the idle byte; the command takes it for a busy device until its budget is
  spent and ends with \<open>flash failed\<close>, exactly if the power went before the last page was
  written. The region is the old one with its front erased, or, once pages are being
  written, one that the gate rejects. With the power back, and junk in the
  register, \<open>info\<close> reports what the boot gate would say, \<open>boot\<close> does it, and repeating the
  command succeeds with the complete region.
\<close>

theorem cli_power_cut_spi:
  assumes "cli_transport c = KindSpi" and "2 \<le> unat (cli_poll_attempts c)" and "cli_cmd c = CmdFlash path" and "slave_up w"
    and "load_image (spi_env texts files ios) path = Ok bs" and "from_bin bs 128 32 = Ok img"
    and "hw_ops (sim_hw (sl_sim w)) = 0" and "n \<noteq> 0"
  shows "\<exists>r w1 w2 w3 prog w4.
       cli_main (spi_env texts files ios) c (w\<lparr>sl_sim := sim_powercut_after n (sl_sim w)\<rparr>) = (r, w1)
     \<and> (is_ok r \<or> (\<exists>e prog. r = Err (FlashFailed e prog)))
     \<and> cut_outcome img (unat n) (hw_flash (sim_hw (sl_sim w))) (is_ok r) (sim_hw (sl_sim w1))
     \<and> (let again = spi_repower w1; f = hw_flash (sim_hw (sl_sim w1)); v = region_valid f in
        cli_main (spi_env texts files ios) (c\<lparr>cli_cmd := CmdInfo\<rparr>) again =
          (Ok (OutInfo (reported sim_port_info \<lparr>dev_flash = f, dev_erased = False\<rparr>) 4096 4080), w2)
      \<and> cli_main (spi_env texts files ios) (c\<lparr>cli_cmd := CmdBoot\<rparr>) again =
          (if v then Ok OutBoot else Err (BootRefused (Core (Device ST_NO_APP))), w3)
      \<and> hw_jumped (sim_hw (sl_sim w3)) = v
      \<and> cli_main (spi_env texts files ios) c again =
          (Ok (OutFlash (img_len img) (img_crc img) (describe (spi_spec c)) prog), w4)
      \<and> hw_flash (sim_hw (sl_sim w4)) = bs @ replicate (4080 - length bs) 0xFF @ footer img)"
proof -
  let ?w0 = "w\<lparr>sl_sim := sim_powercut_after n (sl_sim w)\<rparr>"
  have up: "sim_up (sl_sim w)" "link_idle (sim_link (sl_sim w))" "slave_at w 0 False []"
    using assms(4) by (simp_all add: slave_up_def)
  have held: "slave_calm ?w0"
    using up powercut_edge(3) [OF up(1) assms(7,8)]
    by (simp add: slave_calm_def slave_at_def) (simp add: sim_powercut_after_def sim_up_def healthy_def)
  have edge: "on_edge (unat n) (core_of (sl_sim ?w0))" and old: "hw_flash (sim_hw (sl_sim ?w0)) = hw_flash (sim_hw (sl_sim w))"
    using powercut_edge [OF up(1) assms(7,8)] by simp_all
  from spi_cut_cli.main_cut_and_again [OF conjI [OF assms(1,2)] held spi_env_wires assms(3,5,6) edge, unfolded snd_core flash_dev old Let_def]
  show ?thesis
    unfolding Let_def .
qed

theorem cli_power_cut_spi_witness:
  "\<exists>e prog w1 out w4.
       cli_main (spi_env demo_texts demo_files spi_no_tools) ((cli_default (CmdFlash ''app.hex''))\<lparr>cli_transport := KindSpi\<rparr>)
         (fresh_slave\<lparr>sl_sim := sim_powercut_after 7 (sl_sim fresh_slave)\<rparr>) = (Err (FlashFailed e prog), w1)
     \<and> hw_flash (sim_hw (sl_sim w1)) = replicate 832 0xFF @ drop 832 (hw_flash (sim_hw (sl_sim fresh_slave)))
     \<and> cli_main (spi_env demo_texts demo_files spi_no_tools) ((cli_default (CmdFlash ''app.hex''))\<lparr>cli_transport := KindSpi\<rparr>)
         (spi_repower w1) = (Ok out, w4)"
proof -
  let ?c = "(cli_default (CmdFlash ''app.hex''))\<lparr>cli_transport := KindSpi\<rparr>"
  have load: "load_image (spi_env demo_texts demo_files spi_no_tools) ''app.hex'' = Ok [1, 2, 3]"
    by (rule load_image_spi [THEN trans, OF load_demo])
  have c: "cli_transport ?c = KindSpi" "2 \<le> unat (cli_poll_attempts ?c)" "cli_cmd ?c = CmdFlash ''app.hex''"
    by (simp_all add: cli_default_def CLI_POLL_ATTEMPTS_def)
  have "hw_ops (sim_hw (sl_sim fresh_slave)) = 0"
    by (simp add: fresh_slave_def sim_acquire_def sim_reset_def)
  from cli_power_cut_spi [OF c fresh_slave_up load blinky_from_bin this, of 7] show ?thesis
    by (auto simp: cut_outcome_def Let_def)
qed

end
