(* ===== verification/Softuart_Pump.thy ===== *)
theory Softuart_Pump
  imports Spi_Pump Softuart_Transport
begin

text \<open>
  The bit-banged UART of the device side, \<^verbatim>\<open>device/ports/skeletons/softuart_pump.c\<close>, and the
  device's loop on top of it, on the time line of two wires: one that the device samples and
  one that it drives.
\<close>

section \<open>The pump\<close>

text \<open>The pins and the delay of the part, over their state \<open>'x\<close>.\<close>

record 'x softuart_pump_ops =
  pm_pin_tx :: "bool \<Rightarrow> 'x \<Rightarrow> 'x"
  pm_pin_rx :: "'x \<Rightarrow> bool \<times> 'x"
  pm_delay_us :: "u16 \<Rightarrow> 'x \<Rightarrow> 'x"

definition SOFTUART_BIT_US :: u16 where "SOFTUART_BIT_US = 104"

definition SOFTUART_HALF_BIT_US :: u16 where "SOFTUART_HALF_BIT_US = SOFTUART_BIT_US div 2"

fun pump_sample :: "'x softuart_pump_ops \<Rightarrow> nat list \<Rightarrow> u8 \<Rightarrow> 'x \<Rightarrow> u8 \<times> 'x" where
  "pump_sample ops [] v x = (v, x)"
| "pump_sample ops (i # is) v x =
     (let (high, x) = pm_pin_rx ops x
      in pump_sample ops is (if high then v OR push_bit i 1 else v) (pm_delay_us ops SOFTUART_BIT_US x))"

fun pump_rearm :: "'x softuart_pump_ops \<Rightarrow> nat \<Rightarrow> 'x \<Rightarrow> 'x" where
  "pump_rearm ops 0 x = x"
| "pump_rearm ops (Suc n) x =
     (let (high, x) = pm_pin_rx ops x
      in if high then x else pump_rearm ops n (pm_delay_us ops SOFTUART_HALF_BIT_US x))"

definition softuart_pump_get :: "'x softuart_pump_ops \<Rightarrow> 'x \<Rightarrow> u8 option \<times> 'x" where
  "softuart_pump_get ops x =
     (let (high, x) = pm_pin_rx ops x in
      if high then (None, x)
      else
        let (v, x) = pump_sample ops [0..<8] 0 (pm_delay_us ops (SOFTUART_BIT_US + SOFTUART_HALF_BIT_US) x);
            (high, x) = pm_pin_rx ops x
        in if \<not> high then (None, pump_rearm ops 20 x) else (Some v, x))"

fun pump_drive :: "'x softuart_pump_ops \<Rightarrow> u8 \<Rightarrow> nat list \<Rightarrow> 'x \<Rightarrow> 'x" where
  "pump_drive ops b [] x = x"
| "pump_drive ops b (i # is) x =
     pump_drive ops b is (pm_delay_us ops SOFTUART_BIT_US (pm_pin_tx ops (drop_bit i b AND 1 \<noteq> 0) x))"

definition softuart_pump_put :: "'x softuart_pump_ops \<Rightarrow> 'x \<Rightarrow> u8 \<Rightarrow> 'x" where
  "softuart_pump_put ops x b =
     (let x = pm_delay_us ops SOFTUART_BIT_US (pm_pin_tx ops False x);
          x = pump_drive ops b [0..<8] x
      in pm_delay_us ops SOFTUART_BIT_US (pm_pin_tx ops True x))"

definition softuart_pump_init :: "'x softuart_pump_ops \<Rightarrow> 'x \<Rightarrow> 'x" where
  "softuart_pump_init ops x = pm_pin_tx ops True x"

lemma pump_times [simp]:
  "unat SOFTUART_BIT_US = 104" "unat SOFTUART_HALF_BIT_US = 52" "unat (SOFTUART_BIT_US + SOFTUART_HALF_BIT_US) = 156"
  by (simp_all add: SOFTUART_BIT_US_def SOFTUART_HALF_BIT_US_def)

section \<open>A part on two wires\<close>

text \<open>
  The clock of the part, in true nanoseconds, and the line it drives; a microsecond of the
  part lasts \<open>r\<close> nanoseconds. The line \<open>lev\<close> is the one it samples.
\<close>

record line_end =
  le_clock :: nat
  le_out :: "nat \<Rightarrow> bool"

definition line_ops :: "nat \<Rightarrow> (nat \<Rightarrow> bool) \<Rightarrow> line_end softuart_pump_ops" where
  "line_ops r lev = \<lparr>pm_pin_tx = (\<lambda>v x. x\<lparr>le_out := \<lambda>u. if u < le_clock x then le_out x u else v\<rparr>),
     pm_pin_rx = (\<lambda>x. (lev (le_clock x), x)), pm_delay_us = (\<lambda>us x. x\<lparr>le_clock := le_clock x + r * unat us\<rparr>)\<rparr>"

lemma line_ops_simps [simp]:
  "pm_pin_tx (line_ops r lev) v x = x\<lparr>le_out := \<lambda>u. if u < le_clock x then le_out x u else v\<rparr>"
  "pm_pin_rx (line_ops r lev) x = (lev (le_clock x), x)"
  "pm_delay_us (line_ops r lev) us x = x\<lparr>le_clock := le_clock x + r * unat us\<rparr>"
  by (simp_all add: line_ops_def)

text \<open>Time passes and what was driven stays.\<close>

definition later :: "line_end \<Rightarrow> line_end \<Rightarrow> bool" where
  "later x x' \<longleftrightarrow> le_clock x \<le> le_clock x' \<and> (\<forall>u < le_clock x. le_out x' u = le_out x u)"

lemma later_refl [simp]: "later x x"
  by (simp add: later_def)

lemma later_trans: "later x y \<Longrightarrow> later y z \<Longrightarrow> later x z"
  by (auto simp: later_def)

lemma later_delay: "le_clock x \<le> t \<Longrightarrow> later x (x\<lparr>le_clock := t\<rparr>)"
  by (simp add: later_def)

lemma pump_sample_line:
  "pump_sample (line_ops r lev) is v x = (v', x') \<Longrightarrow> x' = x\<lparr>le_clock := le_clock x + 104 * r * length is\<rparr>"
  by (induction "line_ops r lev" "is" v x arbitrary: v' x' rule: pump_sample.induct) (auto simp: algebra_simps)

lemma pump_rearm_later: "later x (pump_rearm (line_ops r lev) n x)"
proof (induction n arbitrary: x)
  case (Suc n)
  then show ?case
    using later_trans [OF later_delay Suc] by (simp add: Let_def)
qed simp

lemma pump_get_later: "softuart_pump_get (line_ops r lev) x = (b, x') \<Longrightarrow> later x x'"
  by (auto simp: softuart_pump_get_def Let_def intro!: later_trans [OF later_delay pump_rearm_later] later_delay
      dest!: pump_sample_line split: prod.splits if_splits)

lemma poll_later:
  assumes "poll_from (softuart_pump_get (line_ops r lev)) l x = Some y"
  shows "later x (snd (snd y))"
proof -
  let ?P = "\<lambda>get l x y. get = softuart_pump_get (line_ops r lev) \<longrightarrow> later x (snd (snd y))"
  have *: "?P get l x y"
    if IH: "\<And>get l x y. poll get l x = Some y \<Longrightarrow> ?P get l x y"
      and step: "(case get x of (None, x) \<Rightarrow> Some (None, l, x)
        | (Some b, x) \<Rightarrow> case link_step l b of (None, l) \<Rightarrow> poll get l x | (Some req, l) \<Rightarrow> Some (Some req, l, x)) = Some y"
    for poll get l x y
  proof
    assume get: "get = softuart_pump_get (line_ops r lev)"
    obtain b x1 where g: "get x = (b, x1)"
      using prod.exhaust by blast
    have "later x x1"
      using pump_get_later g get by blast
    moreover have "later x1 (snd (snd y))"
      using IH [of get _ x1 y] step get g by (auto split: option.splits prod.splits)
    ultimately show "later x (snd (snd y))"
      by (rule later_trans)
  qed
  from assms have "?P (softuart_pump_get (line_ops r lev)) l x y"
    by (rule poll_from.raw_induct [where P = ?P, rotated]) (fact *)
  then show ?thesis by simp
qed

section \<open>What the pump drives\<close>

abbreviation no_env :: "line_end \<Rightarrow> unit" where
  "no_env \<equiv> \<lambda>_. ()"

lemma pump_bit_holds:
  "holds (104 * r) le_clock no_env le_out x [v]
     (pm_delay_us (line_ops r lev) SOFTUART_BIT_US (pm_pin_tx (line_ops r lev) v x))"
  by (rule holds_one) (simp_all add: mult.commute)

lemma pump_drive_holds:
  "0 < r \<Longrightarrow> bits \<noteq> [] \<Longrightarrow> holds (104 * r) le_clock no_env le_out x (map (bit b) bits) (pump_drive (line_ops r lev) b bits x)"
proof (induction bits arbitrary: x)
  case (Cons i bits)
  have i: "(drop_bit i b AND 1 \<noteq> 0) = bit b i"
    by (simp add: bit_iff_odd_drop_bit and_one_eq odd_iff_mod_2_eq_one)
  let ?x = "pm_delay_us (line_ops r lev) SOFTUART_BIT_US (pm_pin_tx (line_ops r lev) (bit b i) x)"
  have d: "pump_drive (line_ops r lev) b (i # bits) x = pump_drive (line_ops r lev) b bits ?x"
    by (simp only: pump_drive.simps i)
  show ?case
  proof (cases "bits = []")
    case True
    then show ?thesis
      unfolding d using pump_bit_holds by simp
  next
    case False
    with Cons show ?thesis
      unfolding d using holds_append [OF _ pump_bit_holds Cons.IH [OF Cons.prems(1) False]] by simp
  qed
qed simp

lemma pump_put_holds:
  assumes "0 < r"
  shows "holds (104 * r) le_clock no_env le_out x (map (frame_level b) [0..<10]) (softuart_pump_put (line_ops r lev) x b)"
proof -
  have "0 < 104 * r"
    using assms by simp
  then show ?thesis
    unfolding softuart_pump_put_def Let_def
    by (rule holds_byte) (rule pump_bit_holds pump_drive_holds | simp add: assms del: line_ops_simps pump_drive.simps)+
qed

lemma pump_puts_carried:
  "0 < r \<Longrightarrow> carried (104 * r) le_clock no_env le_out x bs (foldl (softuart_pump_put (line_ops r lev)) x bs)"
proof (induction bs arbitrary: x)
  case (Cons b bs)
  then show ?case
    using carried_Cons [OF _ pump_put_holds Cons.IH] by simp
qed (simp add: carried_Nil)

lemma later_pin: "later x (pm_pin_tx (line_ops r lev) v x)"
  by (simp add: later_def)

lemma pump_drive_later: "later x (pump_drive (line_ops r lev) b is x)"
proof (induction "is" arbitrary: x)
  case (Cons i js)
  have "later x (pm_delay_us (line_ops r lev) SOFTUART_BIT_US (pm_pin_tx (line_ops r lev) v x))" for v
    by (rule later_trans [OF later_pin]) (simp add: later_def)
  then show ?case
    unfolding pump_drive.simps by (rule later_trans) (rule Cons)
qed simp

lemma pump_puts_later: "later x (foldl (softuart_pump_put (line_ops r lev)) x bs)"
proof (induction bs arbitrary: x)
  case (Cons b bs)
  have bit: "later x (pm_delay_us (line_ops r lev) SOFTUART_BIT_US (pm_pin_tx (line_ops r lev) v x))" for v x
    by (rule later_trans [OF later_pin]) (simp add: later_def)
  have "later x (softuart_pump_put (line_ops r lev) x b)"
    unfolding softuart_pump_put_def Let_def by (rule later_trans [OF later_trans [OF bit pump_drive_later] bit])
  then show ?case
    unfolding foldl_Cons by (rule later_trans) (rule Cons)
qed simp

section \<open>What the pump reads\<close>

text \<open>
  The sampling times of the part, when it looks at most \<open>L\<close> after the start edge: within the
  bits of a sender at 9600 baud, and done early enough to look again before the next edge.
\<close>

definition pump_budget :: "nat \<Rightarrow> nat \<Rightarrow> bool" where
  "pump_budget r L \<longleftrightarrow> 937503 \<le> 988 * r \<and> 988 * r + 2 * L \<le> 1041670 \<and> 156 * r + L \<le> 208334"

text \<open>Two percent of clock error leave the loop sixteen microseconds.\<close>

lemma pump_budget_two_percent: "980 \<le> r \<Longrightarrow> r \<le> 1020 \<Longrightarrow> L \<le> 16955 \<Longrightarrow> pump_budget r L"
  by (simp add: pump_budget_def)

lemma pump_budget_bit:
  assumes "pump_budget r L" and "k \<le> 8" and "s + (156 + 104 * k) * r \<le> c" and "c < s + (156 + 104 * k) * r + L"
  shows "(c - s) div 104167 = Suc k" "c - s < 1041670" "s + (c - s) = c"
proof -
  have k: "k \<in> {0, 1, 2, 3, 4, 5, 6, 7, 8}"
    using assms(2) by auto
  have "104167 * Suc k \<le> c - s \<and> c - s < 104167 * Suc (Suc k)"
    using assms(1,3,4) k by (auto simp: pump_budget_def)
  then show "(c - s) div 104167 = Suc k"
    by (intro div_nat_eqI) (simp_all add: mult.commute)
  show "c - s < 1041670"
    using assms k by (auto simp: pump_budget_def)
  show "s + (c - s) = c"
    using assms(3) by simp
qed

lemma pump_sample_reads:
  assumes lev: "\<forall>u < 1041670. lev (s + u) = frame_level b (u div 104167)" and L: "pump_budget r L"
  shows "\<lbrakk>k \<le> 8; s + (156 + 104 * k) * r \<le> le_clock x; le_clock x < s + (156 + 104 * k) * r + L\<rbrakk>
    \<Longrightarrow> fst (pump_sample (line_ops r lev) [k..<8] v x) = foldl (\<lambda>v i. if bit b i then v OR push_bit i 1 else v) v [k..<8]"
proof (induction "8 - k" arbitrary: k v x)
  case (Suc n)
  then have k: "k < 8" "[k..<8] = k # [Suc k..<8]"
    by (simp_all add: upt_rec)
  have u: "(le_clock x - s) div 104167 = Suc k" "le_clock x - s < 1041670" "s + (le_clock x - s) = le_clock x"
    using pump_budget_bit [OF L, of k s "le_clock x"] Suc.prems(2,3) k(1) by simp_all
  have "lev (le_clock x) = frame_level b ((le_clock x - s) div 104167)"
    using lev [rule_format, OF u(2)] u(3) by simp
  then have high: "lev (le_clock x) = bit b k"
    unfolding u(1) using k(1) by (simp add: frame_level_def)
  let ?x = "x\<lparr>le_clock := le_clock x + r * 104\<rparr>" and ?v = "if bit b k then v OR push_bit k 1 else v"
  have "fst (pump_sample (line_ops r lev) [Suc k..<8] ?v ?x) =
      foldl (\<lambda>v i. if bit b i then v OR push_bit i 1 else v) ?v [Suc k..<8]"
    by (rule Suc.hyps(1)) (use Suc.hyps(2) Suc.prems(2,3) k(1) in \<open>simp_all add: algebra_simps\<close>)
  then show ?case
    unfolding k(2) by (simp add: high Let_def del: upt_Suc)
qed simp

lemma pump_get_byte:
  assumes lev: "\<forall>u < 1041670. lev (s + u) = frame_level b (u div 104167)" and L: "pump_budget r L"
    and x: "s \<le> le_clock x" "le_clock x < s + L"
  shows "softuart_pump_get (line_ops r lev) x = (Some b, x\<lparr>le_clock := le_clock x + 988 * r\<rparr>)"
proof -
  let ?x = "x\<lparr>le_clock := le_clock x + r * 156\<rparr>"
  have "L < 104167"
    using L by (simp add: pump_budget_def)
  then have "\<not> lev (le_clock x)"
    using lev [rule_format, of "le_clock x - s"] x by (simp add: frame_level_def)
  moreover have "pump_sample (line_ops r lev) [0..<8] 0 ?x = (b, x\<lparr>le_clock := le_clock x + 988 * r\<rparr>)"
  proof -
    obtain v x' where p: "pump_sample (line_ops r lev) [0..<8] 0 ?x = (v, x')"
      using prod.exhaust by blast
    from pump_sample_line [OF this] pump_sample_reads [OF lev L, of 0 ?x 0] x p show ?thesis
      by (simp add: sampled_bits del: upt_rec_numeral)
  qed
  moreover have "lev (le_clock x + 988 * r)"
  proof -
    have u: "(le_clock x + 988 * r - s) div 104167 = 9" "le_clock x + 988 * r - s < 1041670"
        "s + (le_clock x + 988 * r - s) = le_clock x + 988 * r"
      using pump_budget_bit [OF L, of 8 s "le_clock x + 988 * r"] x by simp_all
    from lev [rule_format, OF u(2)] show ?thesis
      unfolding u(1,3) by (simp add: frame_level_def)
  qed
  ultimately show ?thesis
    by (simp add: softuart_pump_get_def Let_def del: upt_rec_numeral)
qed

lemma pump_get_idle: "lev (le_clock x) \<Longrightarrow> softuart_pump_get (line_ops r lev) x = (None, x)"
  by (simp add: softuart_pump_get_def)

section \<open>The device on top\<close>

text \<open>
  The device with its two wires: what a microsecond of its clock lasts, what one turn of its
  loop takes beyond the calls (less a nanosecond), and how long it works on a command.
\<close>

record soft_slave =
  so_sim :: sim
  so_line :: line_end
  so_rate :: nat
  so_lag :: nat
  so_work :: "u8 \<Rightarrow> nat"

abbreviation so_clock :: "soft_slave \<Rightarrow> nat" where
  "so_clock d \<equiv> le_clock (so_line d)"

definition soft_serve :: "upd_frame \<Rightarrow> soft_slave \<Rightarrow> soft_slave" where
  "soft_serve req d =
     (let s = so_sim d;
          (plen, pl, ses, w) = upd_handle sim_port (sim_session s) req (replicate 252 0) 252 (sim_hw s);
          (n, fr) = upd_frame_build (replicate 255 0) 255 (uf_cmd req OR RSP_FLAG) pl plen;
          x = (so_line d)\<lparr>le_clock := so_clock d + so_work d (uf_cmd req)\<rparr>
      in d\<lparr>so_sim := s\<lparr>sim_session := ses, sim_hw := w\<rparr>,
           so_line := if hw_dead w then x else foldl (softuart_pump_put (line_ops (so_rate d) (\<lambda>_. True))) x (link_send fr n)\<rparr>)"

definition soft_tick :: "soft_slave \<Rightarrow> soft_slave" where
  "soft_tick d = d\<lparr>so_line := (so_line d)\<lparr>le_clock := so_clock d + Suc (so_lag d)\<rparr>\<rparr>"

definition soft_gate :: "soft_slave \<Rightarrow> soft_slave" where
  "soft_gate d = (if hw_dead (sim_hw (so_sim d)) then d else d\<lparr>so_sim := take_gate (so_sim d)\<rparr>)"

text \<open>One turn of the loop on a line; without power, or once the application runs, only time passes.\<close>

definition soft_poll :: "(nat \<Rightarrow> bool) \<Rightarrow> soft_slave \<Rightarrow> soft_slave" where
  "soft_poll lev d =
     (if \<not> alive (so_sim d) then d
      else
        (case poll_from (softuart_pump_get (line_ops (so_rate d) lev)) (sim_link (so_sim d)) (so_line d) of
           None \<Rightarrow> d
         | Some (q, l, x) \<Rightarrow>
             let d = d\<lparr>so_sim := (so_sim d)\<lparr>sim_link := l\<rparr>, so_line := x\<rparr>
             in soft_gate (case q of None \<Rightarrow> d | Some req \<Rightarrow> soft_serve req d)))"

definition soft_turn :: "(nat \<Rightarrow> bool) \<Rightarrow> soft_slave \<Rightarrow> soft_slave" where
  "soft_turn lev d = soft_tick (soft_poll lev d)"

text \<open>
  What the device drives at a time \<open>u\<close>, given the whole line it samples: every turn takes
  time, so \<open>u + 1\<close> turns reach beyond \<open>u\<close>, and what was driven stays.
\<close>

definition heard :: "(nat \<Rightarrow> bool) \<Rightarrow> soft_slave \<Rightarrow> nat \<Rightarrow> bool" where
  "heard lev d u = le_out (so_line ((soft_turn lev ^^ Suc u) d)) u"

lemma soft_serve_keeps:
  "later (so_line d) (so_line (soft_serve req d))" "so_rate (soft_serve req d) = so_rate d"
  "so_lag (soft_serve req d) = so_lag d" "so_work (soft_serve req d) = so_work d"
  using later_trans [OF later_delay pump_puts_later, of "so_line d"]
  by (simp_all add: soft_serve_def Let_def later_delay split: prod.splits)

lemma soft_gate_keeps [simp]:
  "so_line (soft_gate d) = so_line d" "so_rate (soft_gate d) = so_rate d" "so_lag (soft_gate d) = so_lag d"
  "so_work (soft_gate d) = so_work d"
  by (simp_all add: soft_gate_def)

lemma soft_poll_keeps:
  "later (so_line d) (so_line (soft_poll lev d))" "so_rate (soft_poll lev d) = so_rate d"
  "so_lag (soft_poll lev d) = so_lag d" "so_work (soft_poll lev d) = so_work d"
proof -
  have "later (so_line d) (so_line (soft_poll lev d)) \<and> so_rate (soft_poll lev d) = so_rate d
      \<and> so_lag (soft_poll lev d) = so_lag d \<and> so_work (soft_poll lev d) = so_work d"
  proof (cases "poll_from (softuart_pump_get (line_ops (so_rate d) lev)) (sim_link (so_sim d)) (so_line d)")
    case (Some y)
    obtain q l x where y: "y = (q, l, x)"
      using prod_cases3 by blast
    from poll_later [OF Some] y have x: "later (so_line d) x"
      by simp
    let ?d = "d\<lparr>so_sim := (so_sim d)\<lparr>sim_link := l\<rparr>, so_line := x\<rparr>"
    have "later (so_line d) (so_line (soft_serve req ?d))" for req
      using later_trans [OF x] soft_serve_keeps(1) [of ?d req] by simp
    with x Some y show ?thesis
      by (auto simp: soft_poll_def Let_def soft_serve_keeps split: option.split)
  qed (simp add: soft_poll_def)
  then show "later (so_line d) (so_line (soft_poll lev d))" "so_rate (soft_poll lev d) = so_rate d"
    "so_lag (soft_poll lev d) = so_lag d" "so_work (soft_poll lev d) = so_work d"
    by blast+
qed

lemma soft_turn_keeps:
  "so_clock d < so_clock (soft_turn lev d)" "later (so_line d) (so_line (soft_turn lev d))"
  "so_rate (soft_turn lev d) = so_rate d" "so_lag (soft_turn lev d) = so_lag d" "so_work (soft_turn lev d) = so_work d"
proof -
  show "so_clock d < so_clock (soft_turn lev d)" "later (so_line d) (so_line (soft_turn lev d))"
    using soft_poll_keeps(1) [of d lev] by (auto simp: soft_turn_def soft_tick_def later_def)
qed (simp_all add: soft_turn_def soft_tick_def soft_poll_keeps)

lemma soft_turns_later:
  "n \<le> m \<Longrightarrow> later (so_line ((soft_turn lev ^^ n) d)) (so_line ((soft_turn lev ^^ m) d))"
  by (induction m rule: dec_induct) (auto intro: later_trans soft_turn_keeps(2))

lemma soft_turns_clock: "so_clock d + n \<le> so_clock ((soft_turn lev ^^ n) d)"
proof (induction n)
  case (Suc n)
  then show ?case
    using soft_turn_keeps(1) [of "(soft_turn lev ^^ n) d" lev] by simp
qed simp

lemma heard_after:
  assumes "u < so_clock ((soft_turn lev ^^ n) d)"
  shows "heard lev d u = le_out (so_line ((soft_turn lev ^^ n) d)) u"
proof -
  have "u < so_clock ((soft_turn lev ^^ Suc u) d)"
    using soft_turns_clock [of d "Suc u" lev] by simp
  with assms soft_turns_later [of n "Suc u" lev d] soft_turns_later [of "Suc u" n lev d] show ?thesis
    unfolding heard_def later_def by (metis nle_le)
qed

section \<open>Listening\<close>

abbreviation so_at :: "soft_slave \<Rightarrow> nat \<Rightarrow> soft_slave" where
  "so_at d t \<equiv> d\<lparr>so_line := (so_line d)\<lparr>le_clock := t\<rparr>\<rparr>"

definition listening :: "soft_slave \<Rightarrow> bool" where
  "listening d \<longleftrightarrow> alive (so_sim d) \<and> \<not> us_boot_pending (sim_session (so_sim d)) \<and> pump_budget (so_rate d) (Suc (so_lag d))"

lemma listening_simps [simp]:
  "listening (d\<lparr>so_line := x\<rparr>) = listening d" "listening (d\<lparr>so_sim := (so_sim d)\<lparr>sim_link := l\<rparr>\<rparr>) = listening d"
  by (simp_all add: listening_def)

lemma soft_turn_idle:
  assumes "listening d" and "lev (so_clock d)"
  shows "soft_turn lev d = so_at d (so_clock d + Suc (so_lag d))"
proof -
  have "poll_from (softuart_pump_get (line_ops (so_rate d) lev)) (sim_link (so_sim d)) (so_line d) =
      Some (None, sim_link (so_sim d), so_line d)"
    by (subst poll_from.simps) (simp add: pump_get_idle assms(2))
  with assms(1) show ?thesis
    by (simp add: soft_turn_def soft_poll_def soft_tick_def soft_gate_def listening_def take_gate_idle Let_def)
qed

lemma soft_turns_idle:
  assumes "listening d" and "\<forall>i < n. lev (so_clock d + i * Suc (so_lag d))"
  shows "(soft_turn lev ^^ n) d = so_at d (so_clock d + n * Suc (so_lag d))"
  using assms(2)
proof (induction n)
  case (Suc n)
  have "soft_turn lev (so_at d (so_clock d + n * Suc (so_lag d))) =
      so_at d (so_clock d + n * Suc (so_lag d) + Suc (so_lag d))"
    using soft_turn_idle [of "so_at d (so_clock d + n * Suc (so_lag d))" lev] assms(1) Suc.prems by simp
  with Suc show ?case
    by (simp add: algebra_simps)
qed simp

text \<open>The device looks at the line within one turn of a start edge.\<close>

lemma soft_waits:
  assumes "listening d" and "so_clock d \<le> s"
  shows "\<exists>n t. s \<le> t \<and> t < s + Suc (so_lag d)
     \<and> (\<forall>lev. (\<forall>u. so_clock d \<le> u \<and> u < s \<longrightarrow> lev u) \<longrightarrow> (soft_turn lev ^^ n) d = so_at d t)"
proof -
  let ?L = "Suc (so_lag d)" and ?m = "s - so_clock d"
  define n where "n = (?m + so_lag d) div ?L"
  have n: "?m \<le> n * ?L" "n * ?L < ?m + ?L"
  proof -
    have "n * ?L \<le> ?m + so_lag d" "?m + so_lag d < Suc n * ?L"
      using dividend_less_div_times [of ?L "?m + so_lag d"] div_times_less_eq_dividend [of "?m + so_lag d" ?L]
      by (simp_all add: n_def algebra_simps)
    then show "?m \<le> n * ?L" "n * ?L < ?m + ?L"
      by simp_all
  qed
  have early: "so_clock d + i * ?L < s" if "i < n" for i
  proof -
    have "Suc i * ?L \<le> n * ?L"
      using that by (intro mult_le_mono) simp_all
    then show ?thesis
      using n(2) assms(2) by simp
  qed
  have "(soft_turn lev ^^ n) d = so_at d (so_clock d + n * ?L)" if "\<forall>u. so_clock d \<le> u \<and> u < s \<longrightarrow> lev u" for lev
    by (rule soft_turns_idle [OF assms(1)]) (use early that in auto)
  moreover have "s \<le> so_clock d + n * ?L" "so_clock d + n * ?L < s + ?L"
    using n assms(2) by simp_all
  ultimately show ?thesis by blast
qed

text \<open>A byte that is taken: the loop goes on with the link one step further, or serves the request.\<close>

definition soft_done :: "upd_frame \<Rightarrow> soft_slave \<Rightarrow> soft_slave" where
  "soft_done req d = soft_tick (soft_gate (soft_serve req d))"

lemma soft_turn_byte:
  assumes d: "listening d" and lev: "\<forall>u < 1041670. lev (s + u) = frame_level b (u div 104167)"
    and t: "s \<le> so_clock d" "so_clock d < s + Suc (so_lag d)" and step: "link_step (sim_link (so_sim d)) b = (q, l)"
  shows "soft_turn lev d =
    (let d' = so_at (d\<lparr>so_sim := (so_sim d)\<lparr>sim_link := l\<rparr>\<rparr>) (so_clock d + 988 * so_rate d)
     in case q of None \<Rightarrow> so_at d' (so_clock d' + Suc (so_lag d)) | Some req \<Rightarrow> soft_done req d')"
    "\<forall>u. so_clock d + 988 * so_rate d \<le> u \<and> u < s + 1041670 \<longrightarrow> lev u"
    "so_clock d + 988 * so_rate d + Suc (so_lag d) \<le> s + 1041670"
proof -
  have L: "pump_budget (so_rate d) (Suc (so_lag d))"
    using d by (simp add: listening_def)
  let ?x = "(so_line d)\<lparr>le_clock := so_clock d + 988 * so_rate d\<rparr>"
  note get = pump_get_byte [OF lev L t]
  show last: "so_clock d + 988 * so_rate d + Suc (so_lag d) \<le> s + 1041670"
    using L t by (simp add: pump_budget_def)
  show high: "\<forall>u. so_clock d + 988 * so_rate d \<le> u \<and> u < s + 1041670 \<longrightarrow> lev u"
  proof (intro allI impI)
    fix u
    assume u: "so_clock d + 988 * so_rate d \<le> u \<and> u < s + 1041670"
    then have "(u - s) div 104167 = 9" "u - s < 1041670" "s + (u - s) = u"
      using L t by (auto simp: pump_budget_def intro!: div_nat_eqI)
    with lev [rule_format, of "u - s"] show "lev u"
      by (simp add: frame_level_def)
  qed
  have "poll_from (softuart_pump_get (line_ops (so_rate d) lev)) l ?x = Some (None, l, ?x)"
    using high last by (subst poll_from.simps) (simp add: pump_get_idle)
  then have "poll_from (softuart_pump_get (line_ops (so_rate d) lev)) (sim_link (so_sim d)) (so_line d) = Some (q, l, ?x)"
    using step by (subst poll_from.simps) (simp add: get split: option.split)
  with d show "soft_turn lev d =
    (let d' = so_at (d\<lparr>so_sim := (so_sim d)\<lparr>sim_link := l\<rparr>\<rparr>) (so_clock d + 988 * so_rate d)
     in case q of None \<Rightarrow> so_at d' (so_clock d' + Suc (so_lag d)) | Some req \<Rightarrow> soft_done req d')"
    by (cases q)
      (simp_all add: soft_turn_def soft_poll_def soft_tick_def soft_gate_def soft_done_def listening_def take_gate_idle Let_def)
qed

text \<open>Start edges that leave room for the bytes between them.\<close>

fun spaced :: "nat \<Rightarrow> (nat \<times> u8) list \<Rightarrow> bool" where
  "spaced t [] \<longleftrightarrow> True"
| "spaced t ((s, b) # sched) \<longleftrightarrow> t \<le> s \<and> spaced (s + 1041670) sched"

lemma spaced_earlier: "spaced t sched \<Longrightarrow> t' \<le> t \<Longrightarrow> spaced t' sched"
  by (cases sched) auto

lemma spaced_back_to_back: "t \<le> s \<Longrightarrow> spaced t (back_to_back 104167 s bs)"
  by (induction bs arbitrary: t s) simp_all

text \<open>A request on the line is heard, whatever else the line will be.\<close>

lemma soft_hears:
  assumes "listening d" and "spaced (so_clock d) sched" and "sched \<noteq> []"
    and "link_poll (sim_link (so_sim d)) (map snd sched) = (Some req, l, [])"
  shows "\<exists>n t. fst (last sched) + 988 * so_rate d \<le> t \<and> t < fst (last sched) + 988 * so_rate d + Suc (so_lag d)
     \<and> (\<forall>lev. carries 104167 lev (so_clock d) sched \<longrightarrow>
          (soft_turn lev ^^ n) d = soft_done req (so_at (d\<lparr>so_sim := (so_sim d)\<lparr>sim_link := l\<rparr>\<rparr>) t))"
  using assms
proof (induction sched arbitrary: d)
  case (Cons y sched)
  obtain s b where y: "y = (s, b)"
    by fastforce
  have s: "so_clock d \<le> s" "spaced (s + 1041670) sched"
    using Cons.prems(2) y by simp_all
  from soft_waits [OF Cons.prems(1) s(1)] obtain n t where t: "s \<le> t" "t < s + Suc (so_lag d)"
    and wait: "\<And>lev. \<forall>u. so_clock d \<le> u \<and> u < s \<longrightarrow> lev u \<Longrightarrow> (soft_turn lev ^^ n) d = so_at d t"
    by blast
  obtain q l1 where step: "link_step (sim_link (so_sim d)) b = (q, l1)"
    using prod.exhaust by blast
  let ?t = "t + 988 * so_rate d" and ?d1 = "d\<lparr>so_sim := (so_sim d)\<lparr>sim_link := l1\<rparr>\<rparr>"
  have turn: "soft_turn lev (so_at d t) =
      (case q of None \<Rightarrow> so_at ?d1 (?t + Suc (so_lag d)) | Some req \<Rightarrow> soft_done req (so_at ?d1 ?t))"
    "\<forall>u. ?t \<le> u \<and> u < s + 1041670 \<longrightarrow> lev u"
    if "carries 104167 lev (so_clock d) (y # sched)" for lev
  proof -
    have lev: "\<forall>u < 1041670. lev (s + u) = frame_level b (u div 104167)"
      using that y by simp
    have d: "listening (so_at d t)" "s \<le> so_clock (so_at d t)" "so_clock (so_at d t) < s + Suc (so_lag (so_at d t))"
      "link_step (sim_link (so_sim (so_at d t))) b = (q, l1)"
      using Cons.prems(1) t step by simp_all
    note byte = soft_turn_byte [OF d(1) lev d(2-4)]
    show "soft_turn lev (so_at d t) =
        (case q of None \<Rightarrow> so_at ?d1 (?t + Suc (so_lag d)) | Some req \<Rightarrow> soft_done req (so_at ?d1 ?t))"
      by (subst byte(1)) (cases q; simp add: Let_def)
    show "\<forall>u. ?t \<le> u \<and> u < s + 1041670 \<longrightarrow> lev u"
      using byte(2) by simp
  qed
  have late: "?t + Suc (so_lag d) \<le> s + 1041670"
    using Cons.prems(1) t by (simp add: listening_def pump_budget_def)
  show ?case
  proof (cases q)
    case (Some r)
    then have "sched = []" "r = req" "l1 = l"
      using Cons.prems(4) step y by simp_all
    moreover have "(soft_turn lev ^^ Suc n) d = soft_done r (so_at ?d1 ?t)" if "carries 104167 lev (so_clock d) (y # sched)" for lev
      using turn(1) [OF that] wait [of lev] that Some y by simp
    ultimately have "fst (last (y # sched)) + 988 * so_rate d \<le> ?t \<and> ?t < fst (last (y # sched)) + 988 * so_rate d + Suc (so_lag d)
        \<and> (\<forall>lev. carries 104167 lev (so_clock d) (y # sched) \<longrightarrow>
          (soft_turn lev ^^ Suc n) d = soft_done req (so_at (d\<lparr>so_sim := (so_sim d)\<lparr>sim_link := l\<rparr>\<rparr>) ?t))"
      using t y by (simp del: funpow.simps carries.simps)
    then show ?thesis
      by blast
  next
    case None
    let ?d2 = "so_at ?d1 (?t + Suc (so_lag d))"
    have rest: "link_poll l1 (map snd sched) = (Some req, l, [])"
      using Cons.prems(4) step y None by simp
    then have "sched \<noteq> []"
      by auto
    with Cons.IH [of ?d2] rest spaced_earlier [OF s(2) late] Cons.prems(1) obtain m t' where
      t': "fst (last sched) + 988 * so_rate d \<le> t'" "t' < fst (last sched) + 988 * so_rate d + Suc (so_lag d)"
      and run: "\<And>lev. carries 104167 lev (so_clock ?d2) sched \<Longrightarrow>
          (soft_turn lev ^^ m) ?d2 = soft_done req (so_at (d\<lparr>so_sim := (so_sim d)\<lparr>sim_link := l\<rparr>\<rparr>) t')"
      by auto
    have "(soft_turn lev ^^ (m + Suc n)) d = soft_done req (so_at (d\<lparr>so_sim := (so_sim d)\<lparr>sim_link := l\<rparr>\<rparr>) t')"
      if car: "carries 104167 lev (so_clock d) (y # sched)" for lev
    proof -
      have "(soft_turn lev ^^ Suc n) d = ?d2"
        using turn(1) [OF car] wait [of lev] car None y by simp
      moreover have "carries 104167 lev (so_clock ?d2) sched"
        by (rule carries_earlier [of _ _ "s + 1041670"]) (use car turn(2) [OF car] late y in auto)
      ultimately show ?thesis
        using run [of lev] by (simp only: funpow_add o_apply)
    qed
    moreover have "last (y # sched) = last sched"
      using \<open>sched \<noteq> []\<close> by simp
    ultimately show ?thesis
      using t' by metis
  qed
qed simp

section \<open>A request and its answer\<close>

text \<open>The device between two requests, its own line at mark.\<close>

definition soft_up :: "soft_slave \<Rightarrow> bool" where
  "soft_up d \<longleftrightarrow> sim_up (so_sim d) \<and> link_idle (sim_link (so_sim d)) \<and> pump_budget (so_rate d) (Suc (so_lag d))
     \<and> (\<forall>u \<ge> so_clock d. le_out (so_line d) u)"

lemma soft_up_listening: "soft_up d \<Longrightarrow> listening d"
  by (simp add: soft_up_def listening_def sim_up_def healthy_def)

lemma soft_up_at: "soft_up d \<Longrightarrow> so_clock d \<le> t \<Longrightarrow> soft_up (so_at d t)"
  by (simp add: soft_up_def)

text \<open>Serving a request: the work, and the answer on the line.\<close>

lemma soft_answers:
  assumes "answered (core_of (so_sim d)) c pl junk out (ses, w)" and "0 < so_rate d" and "\<not> hw_dead w"
  shows "\<exists>x. soft_done \<lparr>uf_cmd = c, uf_len = word_of_nat (length pl), uf_payload = pl @ junk\<rparr> d =
       d\<lparr>so_sim := take_gate ((so_sim d)\<lparr>sim_session := ses, sim_hw := w\<rparr>),
         so_line := x\<lparr>le_clock := le_clock x + Suc (so_lag d)\<rparr>\<rparr>
     \<and> carried (104 * so_rate d) le_clock no_env le_out ((so_line d)\<lparr>le_clock := so_clock d + so_work d c\<rparr>)
         (SYNC # wire (c OR RSP_FLAG) out) x"
proof -
  let ?x = "(so_line d)\<lparr>le_clock := so_clock d + so_work d c\<rparr>"
  obtain rest where h: "upd_handle sim_port (sim_session (so_sim d))
      \<lparr>uf_cmd = c, uf_len = word_of_nat (length pl), uf_payload = pl @ junk\<rparr> (replicate 252 0) 252 (sim_hw (so_sim d)) =
      (word_of_nat (length out), out @ rest, ses, w)" and out: "1 \<le> length out" "length out \<le> 17"
    using assms(1) by (auto simp: answered_def core_of_def)
  have build: "upd_frame_build (replicate 255 0) 255 (c OR RSP_FLAG) (out @ rest) (word_of_nat (length out)) =
      (word_of_nat (length out + 3), wire (c OR RSP_FLAG) out @ drop (length out + 3) (replicate 255 0))"
    by (rule upd_frame_build_wire [where junk = rest]) (use out in simp_all)
  have n: "unat (word_of_nat (length out + 3) :: u8) = length out + 3"
    using out(2) by (simp add: unat_of_nat del: of_nat_add)
  have send: "link_send (wire (c OR RSP_FLAG) out @ more) (word_of_nat (length out + 3)) = SYNC # wire (c OR RSP_FLAG) out" for more
    by (simp add: link_send_def n UPD_LINK_SYNC_def SYNC_def del: of_nat_add)
  let ?y = "foldl (softuart_pump_put (line_ops (so_rate d) (\<lambda>_. True))) ?x (SYNC # wire (c OR RSP_FLAG) out)"
  have "soft_serve \<lparr>uf_cmd = c, uf_len = word_of_nat (length pl), uf_payload = pl @ junk\<rparr> d =
      d\<lparr>so_sim := (so_sim d)\<lparr>sim_session := ses, sim_hw := w\<rparr>, so_line := ?y\<rparr>"
    using assms(3) by (simp add: soft_serve_def h build send Let_def del: of_nat_add foldl_Cons)
  then have "soft_done \<lparr>uf_cmd = c, uf_len = word_of_nat (length pl), uf_payload = pl @ junk\<rparr> d =
      d\<lparr>so_sim := take_gate ((so_sim d)\<lparr>sim_session := ses, sim_hw := w\<rparr>),
        so_line := ?y\<lparr>le_clock := le_clock ?y + Suc (so_lag d)\<rparr>\<rparr>"
    using assms(3) by (simp add: soft_done_def soft_gate_def soft_tick_def del: foldl_Cons)
  with pump_puts_carried [OF assms(2), of ?x] show ?thesis
    by blast
qed

text \<open>
  A whole cycle: a request from the line, and the answer on the other one, which starts
  between 988 microseconds of the part after the last start edge of the request, plus the
  work, and a turn later. The run of the device does not depend on what the line does after
  the request.
\<close>

lemma soft_cycle:
  assumes up: "soft_up d" and pl: "length pl \<le> 252" and step: "dev_step sim_port_info (sim_dev (so_sim d)) c pl = (out, d')"
    and s: "so_clock d \<le> s"
  shows "\<exists>n d2 t. (\<forall>lev. carries 104167 lev (so_clock d) (back_to_back 104167 s (SYNC # wire c pl)) \<longrightarrow> (soft_turn lev ^^ n) d = d2)
     \<and> s + 1041670 * (length pl + 3) + 988 * so_rate d + so_work d c \<le> t
     \<and> t < s + 1041670 * (length pl + 3) + 988 * so_rate d + so_work d c + Suc (so_lag d)
     \<and> carries (104 * so_rate d) (le_out (so_line d2)) (so_clock d) (back_to_back (104 * so_rate d) t (SYNC # wire (c OR RSP_FLAG) out))
     \<and> so_clock d2 = t + 1040 * so_rate d * (length out + 4) + Suc (so_lag d) \<and> (\<forall>u \<ge> so_clock d2. le_out (so_line d2) u)
     \<and> later (so_line d) (so_line d2) \<and> so_rate d2 = so_rate d \<and> so_lag d2 = so_lag d \<and> so_work d2 = so_work d
     \<and> sim_dev (so_sim d2) = d' \<and> link_idle (sim_link (so_sim d2)) \<and> 1 \<le> length out \<and> length out \<le> 17
     \<and> (if c = CMD_BOOT \<and> region_valid (hw_flash (sim_hw (so_sim d))) then hw_jumped (sim_hw (so_sim d2)) else sim_up (so_sim d2))"
proof -
  let ?s = "so_sim d" and ?r = "so_rate d" and ?L = "Suc (so_lag d)" and ?bs = "SYNC # wire c pl"
  have sim: "sim_up ?s" and idle: "link_idle (sim_link ?s)" and L: "pump_budget ?r ?L"
    and mark: "\<forall>u \<ge> so_clock d. le_out (so_line d) u"
    using up by (simp_all add: soft_up_def)
  obtain l' junk where lp: "link_poll (sim_link ?s) ?bs =
      (Some \<lparr>uf_cmd = c, uf_len = word_of_nat (length pl), uf_payload = pl @ junk\<rparr>, l', [])" and idle': "link_idle l'"
    using link_poll_wire [OF idle pl] by blast
  obtain rsp' ses w where h: "upd_handle sim_port (sim_session ?s)
       \<lparr>uf_cmd = c, uf_len = word_of_nat (length pl), uf_payload = pl @ junk\<rparr> (replicate 252 0) 252 (sim_hw ?s)
       = (word_of_nat (length out), rsp', ses, w)"
    and out: "rsp' = out @ drop (length out) rsp'" "1 \<le> length out" "length out \<le> 17"
    and w: "healthy w" "hw_flash w = dev_flash d'" "us_erased ses = dev_erased d'" "us_info ses = sim_port_info"
      "us_boot_pending ses = (c = CMD_BOOT \<and> region_valid (hw_flash (sim_hw ?s)))"
    using sim_handle [OF sim pl step, of junk] by blast
  have ans: "answered (core_of ?s) c pl junk out (ses, w)"
    unfolding answered_def core_of_def fst_conv snd_conv h using out by blast
  have last: "fst (last (back_to_back 104167 s ?bs)) = s + 1041670 * (length pl + 3)"
    by (subst back_to_back_last) simp_all
  have "back_to_back 104167 s ?bs \<noteq> []" and poll: "link_poll (sim_link ?s) (map snd (back_to_back 104167 s ?bs)) =
      (Some \<lparr>uf_cmd = c, uf_len = word_of_nat (length pl), uf_payload = pl @ junk\<rparr>, l', [])"
    by (simp, simp only: map_snd_back_to_back lp)
  from soft_hears [OF soft_up_listening [OF up] spaced_back_to_back [OF s, of ?bs] this]
  obtain n t where t: "s + 1041670 * (length pl + 3) + 988 * ?r \<le> t" "t < s + 1041670 * (length pl + 3) + 988 * ?r + ?L"
    and run: "\<And>lev. carries 104167 lev (so_clock d) (back_to_back 104167 s ?bs) \<Longrightarrow> (soft_turn lev ^^ n) d =
      soft_done \<lparr>uf_cmd = c, uf_len = word_of_nat (length pl), uf_payload = pl @ junk\<rparr> (so_at (d\<lparr>so_sim := ?s\<lparr>sim_link := l'\<rparr>\<rparr>) t)"
    unfolding last by blast
  define s1 where "s1 = ?s\<lparr>sim_link := l', sim_session := ses, sim_hw := w\<rparr>"
  have s1: "healthy (sim_hw s1)" "us_info (sim_session s1) = sim_port_info" "sim_link s1 = l'"
    "sim_dev s1 = d'" "us_boot_pending (sim_session s1) = us_boot_pending ses"
    using w by (simp_all add: s1_def sim_dev_def)
  have flash: "c = CMD_BOOT \<Longrightarrow> hw_flash (sim_hw s1) = hw_flash (sim_hw ?s)"
    using step s1(4) by (auto simp: dev_step_boot sim_dev_def)
  have r: "0 < ?r"
    using L by (simp add: pump_budget_def)
  let ?d1 = "so_at (d\<lparr>so_sim := ?s\<lparr>sim_link := l'\<rparr>\<rparr>) t" and ?t = "t + so_work d c"
  have ans1: "answered (core_of (so_sim ?d1)) c pl junk out (ses, w)" and r1: "0 < so_rate ?d1" and alive: "\<not> hw_dead w"
    using ans r w(1) by (simp_all add: core_of_def healthy_def)
  from soft_answers [OF ans1 r1 alive] obtain x where
    x: "soft_done \<lparr>uf_cmd = c, uf_len = word_of_nat (length pl), uf_payload = pl @ junk\<rparr> ?d1 =
      d\<lparr>so_sim := take_gate s1, so_line := x\<lparr>le_clock := le_clock x + ?L\<rparr>\<rparr>"
    and car: "carried (104 * ?r) le_clock no_env le_out ((so_line d)\<lparr>le_clock := ?t\<rparr>) (SYNC # wire (c OR RSP_FLAG) out) x"
    by (auto simp: s1_def)
  let ?d2 = "d\<lparr>so_sim := take_gate s1, so_line := x\<lparr>le_clock := le_clock x + ?L\<rparr>\<rparr>"
  have late: "so_clock d \<le> ?t"
    using s t(1) by simp
  have c: "le_clock x = ?t + 1040 * ?r * (length out + 4)" "\<forall>u < ?t. le_out x u = le_out (so_line d) u"
    "carries (104 * ?r) (le_out x) ?t (back_to_back (104 * ?r) ?t (SYNC # wire (c OR RSP_FLAG) out))" "\<forall>u \<ge> le_clock x. le_out x u"
    using car unfolding carried_def by (simp_all del: back_to_back.simps carries.simps add: algebra_simps)
  have "carries (104 * ?r) (le_out x) (so_clock d) (back_to_back (104 * ?r) ?t (SYNC # wire (c OR RSP_FLAG) out))"
    by (rule carries_earlier [OF c(3) late]) (use c(2) mark in simp)
  moreover have "later (so_line d) (so_line ?d2)"
    using c(1,2) late by (simp add: later_def)
  moreover have "\<forall>lev. carries 104167 lev (so_clock d) (back_to_back 104167 s ?bs) \<longrightarrow> (soft_turn lev ^^ n) d = ?d2"
    using run x by simp
  moreover have "sim_dev (so_sim ?d2) = d'" "link_idle (sim_link (so_sim ?d2))"
    "if c = CMD_BOOT \<and> region_valid (hw_flash (sim_hw ?s)) then hw_jumped (sim_hw (so_sim ?d2)) else sim_up (so_sim ?d2)"
    using after_gate [OF s1(1,2)] s1(3-5) w(5) idle' flash by auto
  moreover have "so_clock ?d2 = ?t + 1040 * ?r * (length out + 4) + ?L" "\<forall>u \<ge> so_clock ?d2. le_out (so_line ?d2) u"
    "so_rate ?d2 = ?r" "so_lag ?d2 = so_lag d" "so_work ?d2 = so_work d" "le_out (so_line ?d2) = le_out x"
    using c(1,4) by simp_all
  moreover have "s + 1041670 * (length pl + 3) + 988 * ?r + so_work d c \<le> ?t"
    "?t < s + 1041670 * (length pl + 3) + 988 * ?r + so_work d c + ?L"
    using t by simp_all
  ultimately show ?thesis
    using out(2,3) by metis
qed

text \<open>
  A device that is quick with its answer starts it while the host is still sending the stop
  bit of its request, and does not look at its line: the last sample of the device is half a
  bit before the end of the byte.
\<close>

lemma answers_early:
  assumes "soft_up d" and "length pl \<le> 252" and "dev_step sim_port_info (sim_dev (so_sim d)) c pl = (out, d')" and "so_clock d \<le> s"
    and quick: "988 * so_rate d + so_work d c + Suc (so_lag d) \<le> 1041670"
  shows "\<exists>n d2 u. (\<forall>lev. carries 104167 lev (so_clock d) (back_to_back 104167 s (SYNC # wire c pl)) \<longrightarrow> (soft_turn lev ^^ n) d = d2)
     \<and> s + 1041670 * (length pl + 3) < u \<and> u < s + 1041670 * (length pl + 4) \<and> \<not> le_out (so_line d2) u"
proof -
  have r: "0 < so_rate d"
    using assms(1) by (simp add: soft_up_def pump_budget_def)
  from soft_cycle [OF assms(1-4)] obtain n d2 t where
    "\<forall>lev. carries 104167 lev (so_clock d) (back_to_back 104167 s (SYNC # wire c pl)) \<longrightarrow> (soft_turn lev ^^ n) d = d2"
    and t: "s + 1041670 * (length pl + 3) + 988 * so_rate d + so_work d c \<le> t"
      "t < s + 1041670 * (length pl + 3) + 988 * so_rate d + so_work d c + Suc (so_lag d)"
    and car: "carries (104 * so_rate d) (le_out (so_line d2)) (so_clock d) (back_to_back (104 * so_rate d) t (SYNC # wire (c OR RSP_FLAG) out))"
    by blast
  moreover have "\<not> le_out (so_line d2) t"
  proof -
    have "\<forall>u < 10 * (104 * so_rate d). le_out (so_line d2) (t + u) = frame_level SYNC (u div (104 * so_rate d))"
      using car by simp
    from this [rule_format, of 0] r show ?thesis
      by (simp add: frame_level_def)
  qed
  moreover have "s + 1041670 * (length pl + 3) < t" "t < s + 1041670 * (length pl + 4)"
    using t quick r by simp_all
  ultimately show ?thesis
    by blast
qed

end
