(* ===== verification/Cli_Gpio.thy ===== *)
theory Cli_Gpio
  imports Cli_End_To_End Softuart_Pump
begin

text \<open>
  The command line over two GPIO lines: the bit-banged adapter and the character device of
  the host on one end, the bit-banged pump with the device core behind it on the other. Both
  ends are on one time line; all they share are the levels of the two wires.
\<close>

section \<open>Two wires\<close>

lemma carries_cong:
  "carries T lev t (back_to_back T s bs) \<Longrightarrow> \<forall>u < s + 10 * T * length bs. lev' u = lev u \<Longrightarrow>
     carries T lev' t (back_to_back T s bs)"
proof (induction bs arbitrary: t s)
  case (Cons b bs)
  have "carries T lev' (s + 10 * T) (back_to_back T (s + 10 * T) bs)"
    by (rule Cons.IH) (use Cons.prems in \<open>simp_all add: algebra_simps\<close>)
  then show ?case
    using Cons.prems by simp
qed simp

lemma carries_from:
  assumes "carries T lev t (back_to_back T s bs)" and "t \<le> t'" and "t' \<le> s"
  shows "carries T lev t' (back_to_back T s bs)"
  using assms by (cases bs) auto

text \<open>
  The host's clock, the line it has driven (and will, if it leaves it alone), and the device
  as it was powered up; what the device does since follows from that line.
\<close>

record gpio_bus =
  gb_clock :: nat
  gb_tx :: "nat \<Rightarrow> bool"
  gb_dev :: soft_slave

definition gb_drive :: "bool \<Rightarrow> gpio_bus \<Rightarrow> gpio_bus" where
  "gb_drive v w = w\<lparr>gb_tx := \<lambda>u. if u < gb_clock w then gb_tx w u else v\<rparr>"

definition gb_rx :: "gpio_bus \<Rightarrow> bool" where
  "gb_rx w = heard (gb_tx w) (gb_dev w) (gb_clock w)"

definition gpio_os :: "(gpio_bus, unit, unit, unit) host_os" where
  "gpio_os = quiet_os\<lparr>
     os_line_request := (\<lambda>_ _ dir v w. (Ok (), if dir = LineOutput then gb_drive (v \<noteq> 0) w else w)),
     os_set_value := (\<lambda>_ v w. (Ok (), gb_drive (v \<noteq> 0) w)),
     os_get_value := (\<lambda>_ w. (Ok (if gb_rx w then 1 else 0), w))\<rparr>"

definition gpio_wires :: "(gpio_bus, unit, unit, unit) wires" where
  "gpio_wires = \<lparr>wr_os = gpio_os,
     wr_uart = (\<lambda>_. \<lparr>uart_write_all = (\<lambda>_ w. (Ok (), w)), uart_flush = (\<lambda>w. (Ok (), w)), uart_read = (\<lambda>_ w. (Ok 0, [], w)),
       uart_delay_ns = (\<lambda>_ w. w)\<rparr>), wr_delay_ns = (\<lambda>ns w. w\<lparr>gb_clock := gb_clock w + unat ns\<rparr>)\<rparr>"

lemma gpio_drives: "drives (gpio_hal gpio_wires f g) gb_clock gb_dev gb_tx"
  by (simp add: drives_def gpio_hal_def gpio_wires_def gpio_os_def gpio_set_high_def gpio_set_low_def gb_drive_def)

lemma gpio_paced:
  "paced (gpio_hal gpio_wires f g) gb_clock (\<lambda>w. (gb_tx w, gb_dev w)) (\<lambda>(tx, d). heard tx d) 0"
  by (simp add: paced_def gpio_hal_def gpio_wires_def gpio_os_def gpio_is_high_def gpio_is_low_def gb_rx_def)

section \<open>The device as the host finds it\<close>

text \<open>
  The clocks of the two ends match: the answers come at a rate the host can read, the device
  looks at its line again in time, and it does not answer while the host is still sending
  its last stop bit.
\<close>

definition line_budget :: "soft_slave \<Rightarrow> bool" where
  "line_budget d \<longleftrightarrow> in_budget (104 * so_rate d) 2000 \<and> 1040 * so_rate d + Suc (so_lag d) \<le> 1093753
     \<and> (\<forall>c. 1041670 \<le> 988 * so_rate d + so_work d c)"

lemma line_budget_two_percent:
  assumes "980 \<le> so_rate d" and "so_rate d \<le> 1020" and "so_lag d < 16955" and "\<forall>c. 73430 \<le> so_work d c"
  shows "pump_budget (so_rate d) (Suc (so_lag d)) \<and> line_budget d"
proof -
  have "1041670 \<le> 988 * so_rate d + so_work d c" for c
    using assms(1) assms(4) [rule_format, of c] by linarith
  then show ?thesis
    using assms(1-3) by (simp add: pump_budget_def line_budget_def in_budget_def)
qed

text \<open>
  The device has come to a turn of its loop from which on the line is at mark, and it has
  come there whatever the host does next.
\<close>

definition gpio_at :: "gpio_bus \<Rightarrow> soft_slave \<Rightarrow> bool" where
  "gpio_at w d \<longleftrightarrow> (\<exists>n. \<forall>lev. (\<forall>u < gb_clock w. lev u = gb_tx w u) \<longrightarrow> (soft_turn lev ^^ n) (gb_dev w) = d)
     \<and> so_clock d \<le> gb_clock w + 104167 \<and> (\<forall>u \<ge> min (so_clock d) (gb_clock w). gb_tx w u)"

definition gpio_up :: "nat \<Rightarrow> gpio_bus \<Rightarrow> bool" where
  "gpio_up W w \<longleftrightarrow> (\<exists>d. gpio_at w d \<and> soft_up d \<and> line_budget d \<and> (\<forall>c. so_work d c \<le> W))"

text \<open>What becomes of the device when the host leaves the line alone.\<close>

definition gpio_settled :: "gpio_bus \<Rightarrow> sim" where
  "gpio_settled w = so_sim ((soft_turn (gb_tx w) ^^ (gb_clock w + 104167)) (gb_dev w))"

lemma soft_turns_off: "\<not> alive (so_sim d) \<Longrightarrow> so_sim ((soft_turn lev ^^ n) d) = so_sim d"
  by (induction n) (simp_all add: soft_turn_def soft_poll_def soft_tick_def)

lemma gpio_settled_at:
  assumes "gpio_at w d" and "listening d \<or> \<not> alive (so_sim d)"
  shows "gpio_settled w = so_sim d"
proof -
  obtain n where n: "(soft_turn (gb_tx w) ^^ n) (gb_dev w) = d" "so_clock d \<le> gb_clock w + 104167"
    and mark: "\<forall>u \<ge> so_clock d. gb_tx w u"
    using assms(1) by (auto simp: gpio_at_def)
  have "n \<le> gb_clock w + 104167"
    using soft_turns_clock [of "gb_dev w" n "gb_tx w"] n by simp
  then obtain m where m: "gb_clock w + 104167 = m + n"
    using le_Suc_ex by (metis add.commute)
  have "so_sim ((soft_turn (gb_tx w) ^^ m) d) = so_sim d"
    using assms(2) soft_turns_idle [of d m "gb_tx w"] mark soft_turns_off [of d m "gb_tx w"] by auto
  then show ?thesis
    by (simp add: gpio_settled_def m funpow_add n(1))
qed

section \<open>A request over the wires\<close>

lemma softuart_request_parts:
  assumes "softuart_send hal req (su_hw t) = (Ok (), w1)"
    and "softuart_loop hal (su_poll_attempts t) (su_poll_interval_ns t) (su_scan_limit t) scanner_new 0 0 rsp w1 = (r, rsp', w2)"
  shows "softuart_request hal t req rsp = (r, t\<lparr>su_hw := w2\<rparr>, rsp')"
  using assms by (simp add: softuart_request_def)

lemma gpio_request:
  assumes at: "gpio_at (su_hw t) d" and up: "soft_up d" and bud: "line_budget d" and W: "so_work d c \<le> W"
    and pl: "length pl \<le> 252" and step: "dev_step sim_port_info (sim_dev (so_sim d)) c pl = (out, d')" and rsp: "length out + 3 \<le> length rsp"
    and i: "unat (su_poll_interval_ns t) = 2000" and window: "W + 22000000 \<le> (unat (su_poll_attempts t) - 1) * 2000"
    and limit: "0 < unat (su_scan_limit t)"
  shows "\<exists>w2 d2. softuart_request (gpio_hal gpio_wires f g) t (wire c pl) rsp =
       (Ok (length out + 3), t\<lparr>su_hw := w2\<rparr>, wire (c OR RSP_FLAG) out @ drop (length out + 3) rsp)
     \<and> gpio_at w2 d2 \<and> line_budget d2 \<and> so_work d2 = so_work d \<and> sim_dev (so_sim d2) = d' \<and> length out \<le> 17
     \<and> (if c = CMD_BOOT \<and> region_valid (hw_flash (sim_hw (so_sim d))) then hw_jumped (sim_hw (so_sim d2)) else soft_up d2)"
proof -
  let ?w = "su_hw t" and ?r = "so_rate d" and ?L = "Suc (so_lag d)" and ?hal = "gpio_hal gpio_wires f g"
  let ?s = "gb_clock ?w + 104167" and ?bs = "SYNC # wire c pl" and ?rs = "SYNC # wire (c OR RSP_FLAG) out"
  have L: "pump_budget ?r ?L" and match: "in_budget (104 * ?r) 2000" "1040 * ?r + ?L \<le> 1093753" "1041670 \<le> 988 * ?r + so_work d c"
    using up bud by (simp_all add: soft_up_def line_budget_def)
  obtain n where run: "\<And>lev. \<forall>u < gb_clock ?w. lev u = gb_tx ?w u \<Longrightarrow> (soft_turn lev ^^ n) (gb_dev ?w) = d"
    and early: "so_clock d \<le> ?s" and mark: "\<forall>u \<ge> min (so_clock d) (gb_clock ?w). gb_tx ?w u"
    using at by (auto simp: gpio_at_def)
  text \<open>The host sends.\<close>
  obtain w1 where send: "softuart_send ?hal (wire c pl) ?w = (Ok (), w1)"
    and w1: "gb_clock w1 = ?s + 1041670 * (length pl + 4)" "gb_dev w1 = gb_dev ?w" "\<forall>u < gb_clock ?w. gb_tx w1 u = gb_tx ?w u"
      "\<forall>u \<ge> gb_clock w1. gb_tx w1 u" "carries 104167 (gb_tx w1) (gb_clock ?w) (back_to_back 104167 ?s ?bs)"
    using softuart_sends [OF gpio_drives [of f g], of "wire c pl" ?w] by auto
  have car: "carries 104167 (gb_tx w1) (so_clock d) (back_to_back 104167 ?s ?bs)"
  proof (cases "so_clock d \<le> gb_clock ?w")
    case True
    then show ?thesis
      by (rule carries_earlier [OF w1(5)]) (use mark w1(3) True in simp)
  next
    case False
    then show ?thesis
      by (intro carries_from [OF w1(5)]) (use early in simp_all)
  qed
  text \<open>The device hears it, works, and answers.\<close>
  from soft_cycle [OF up pl step early] obtain m d2 s2 where
    turns: "\<And>lev. carries 104167 lev (so_clock d) (back_to_back 104167 ?s ?bs) \<Longrightarrow> (soft_turn lev ^^ m) d = d2"
    and s2: "?s + 1041670 * (length pl + 3) + 988 * ?r + so_work d c \<le> s2"
      "s2 < ?s + 1041670 * (length pl + 3) + 988 * ?r + so_work d c + ?L"
    and d2: "carries (104 * ?r) (le_out (so_line d2)) (so_clock d) (back_to_back (104 * ?r) s2 ?rs)"
      "so_clock d2 = s2 + 1040 * ?r * (length out + 4) + ?L" "\<forall>u \<ge> so_clock d2. le_out (so_line d2) u"
      "so_rate d2 = ?r" "so_lag d2 = so_lag d" "so_work d2 = so_work d"
      "sim_dev (so_sim d2) = d'" "link_idle (sim_link (so_sim d2))" "1 \<le> length out" "length out \<le> 17"
      "if c = CMD_BOOT \<and> region_valid (hw_flash (sim_hw (so_sim d))) then hw_jumped (sim_hw (so_sim d2)) else sim_up (so_sim d2)"
    by (elim exE conjE) blast
  have run2: "(soft_turn lev ^^ (m + n)) (gb_dev ?w) = d2" if "\<forall>u < gb_clock w1. lev u = gb_tx w1 u" for lev
  proof -
    have "(soft_turn lev ^^ n) (gb_dev ?w) = d"
      by (rule run) (use that w1(1,3) in simp)
    moreover have "carries 104167 lev (so_clock d) (back_to_back 104167 ?s ?bs)"
      by (rule carries_cong [OF car]) (use that w1(1) in simp)
    ultimately show ?thesis
      using turns [of lev] by (simp only: funpow_add o_apply)
  qed
  text \<open>The host reads the answer.\<close>
  let ?x = "(gb_tx w1, gb_dev w1)"
  have heard: "heard (gb_tx w1) (gb_dev w1) u = le_out (so_line d2) u" if "u < so_clock d2" for u
    using heard_after [where lev = "gb_tx w1" and n = "m + n" and d = "gb_dev ?w"] run2 [of "gb_tx w1"] that w1(2) by simp
  have "carries (104 * ?r) (heard (gb_tx w1) (gb_dev w1)) (so_clock d) (back_to_back (104 * ?r) s2 ?rs)"
    by (rule carries_cong [OF d2(1)]) (use heard d2(2) in \<open>simp add: algebra_simps\<close>)
  then have answer: "carries (104 * ?r) (heard (gb_tx w1) (gb_dev w1)) (gb_clock w1) (back_to_back (104 * ?r) s2 ?rs)"
    by (rule carries_from) (use early w1(1) s2(1) match(3) in simp_all)
  have first: "gb_clock w1 \<le> s2" "s2 \<le> gb_clock w1 + so_work d c"
    using s2 w1(1) match(3) L by (simp_all add: pump_budget_def)
  have starts: "fst y \<le> gb_clock w1 + (unat (su_poll_attempts t) - 1) * unat (su_poll_interval_ns t)"
    if "y \<in> set (back_to_back (104 * ?r) s2 ?rs)" for y
  proof -
    have "fst y \<le> s2 + 10 * (104 * ?r) * (length out + 3)"
      using back_to_back_starts [OF that] by (simp add: add.commute [of 3])
    also have "10 * (104 * ?r) * (length out + 3) \<le> 10 * (104 * ?r) * 20"
      using d2(10) by (intro mult_le_mono) simp_all
    finally show ?thesis
      using first(2) L W window i by (simp add: pump_budget_def)
  qed
  have last: "fst (last (back_to_back (104 * ?r) s2 ?rs)) = s2 + 1040 * ?r * (length out + 3)"
    by (subst back_to_back_last) simp_all
  obtain w2 where loop: "softuart_loop ?hal (su_poll_attempts t) (su_poll_interval_ns t) (su_scan_limit t) scanner_new 0 0 rsp w1 =
       (Ok (length out + 3), wire (c OR RSP_FLAG) out @ drop (length out + 3) rsp, w2)"
    and w2: "gb_tx w2 = gb_tx w1" "gb_dev w2 = gb_dev w1" "s2 + 1040 * ?r * (length out + 3) + 989586 \<le> gb_clock w2"
  proof -
    have "\<exists>w2. softuart_loop ?hal (su_poll_attempts t) (su_poll_interval_ns t) (su_scan_limit t) scanner_new 0 0 rsp w1 =
         (Ok (length out + 3), wire (c OR RSP_FLAG) out @ drop (length out + 3) rsp, w2) \<and> (gb_tx w2, gb_dev w2) = ?x
       \<and> fst (last (back_to_back (104 * ?r) s2 ?rs)) + 989586 \<le> gb_clock w2
       \<and> gb_clock w2 < fst (last (back_to_back (104 * ?r) s2 ?rs)) + 989586 + unat (su_poll_interval_ns t) + 10 * 0"
    proof (rule softuart_reads_response [OF gpio_paced])
      show "carries (104 * ?r) ((\<lambda>(tx, d). heard tx d) ?x) (gb_clock w1) (back_to_back (104 * ?r) s2 ?rs)"
        using answer by simp
      show "map snd (back_to_back (104 * ?r) s2 ?rs) = [] @ ?rs"
        by (simp only: map_snd_back_to_back append_Nil)
    qed (use i match(1) starts limit rsp d2(10) in simp_all)
    then show ?thesis
      using that unfolding last by blast
  qed
  have "gpio_at w2 d2"
  proof -
    have c: "gb_clock w1 \<le> gb_clock w2" "gb_clock w1 \<le> so_clock d2" "so_clock d2 \<le> gb_clock w2 + 104167"
      using first(1) w2(3) d2(2) match(2) by (simp_all add: algebra_simps)
    have "(soft_turn lev ^^ (m + n)) (gb_dev w2) = d2" if "\<forall>u < gb_clock w2. lev u = gb_tx w2 u" for lev
      using run2 [of lev] that c(1) by (simp add: w1(2) w2(1,2))
    moreover have "gb_tx w2 u" if "min (so_clock d2) (gb_clock w2) \<le> u" for u
      using w1(4) c(1,2) that by (simp add: w2(1))
    ultimately show ?thesis
      using c(3) unfolding gpio_at_def by blast
  qed
  moreover have "line_budget d2"
    using bud d2(4-6) by (simp add: line_budget_def)
  moreover have "if c = CMD_BOOT \<and> region_valid (hw_flash (sim_hw (so_sim d))) then hw_jumped (sim_hw (so_sim d2)) else soft_up d2"
    using d2(3-5,8,11) L by (simp add: soft_up_def)
  ultimately show ?thesis
    using softuart_request_parts [OF send loop] d2(6,7,10) by blast
qed

section \<open>The wire\<close>

text \<open>
  The budgets that cover a device which works at most \<open>W\<close> nanoseconds on a command: the work,
  the answer of at most 21 bytes, and one sample. The counter of the samples ends at \<open>2\<^sup>3\<^sup>2 - 1\<close>.
\<close>

definition gpio_fits :: "nat \<Rightarrow> poll_budget \<Rightarrow> bool" where
  "gpio_fits W b \<longleftrightarrow> W + 22002000 \<le> min (budget_ms b * 1000000) 8589934590000"

lemma u64_saturating_mul_min: "unat (u64_saturating_mul a b) = min (unat a * unat b) (2 ^ 64 - 1)"
proof (cases "unat a * unat b < 2 ^ 64")
  case True
  then show ?thesis
    using unat_mult_lem [of a b] by (simp add: u64_saturating_mul_def)
next
  case False
  have "unat (- 1 :: u64) = 2 ^ 64 - 1"
    by (simp add: unsigned_minus_1_eq_mask mask_eq_exp_minus_1)
  with False show ?thesis
    by (simp add: u64_saturating_mul_def min_def)
qed

lemma gpio_samples:
  "min (budget_ms b * 500) 4294967295 \<le> unat (su_poll_attempts (softuart_set_poll_budget b t))"
  "unat (su_poll_interval_ns (softuart_set_poll_budget b t)) = 2000"
proof -
  have up: "unat (ucast w :: u64) = unat w" for w :: u32
    using unat_u32_lt [of w] by (simp add: unsigned_ucast_eq take_bit_nat_eq_self)
  have n: "unat (max (pb_attempts b) 1) = max (unat (pb_attempts b)) 1"
    by (auto simp: max_def word_le_nat_alt)
  let ?t = "u64_saturating_mul (u64_saturating_mul (ucast (max (pb_attempts b) 1)) (ucast (pb_delay_ms b))) 1000000"
  let ?q = "?t div ucast (max DEFAULT_SOFTUART_POLL_INTERVAL_NS 1)"
  have "unat (u64_saturating_mul (ucast (max (pb_attempts b) 1)) (ucast (pb_delay_ms b))) = min (budget_ms b) (2 ^ 64 - 1)"
    by (simp add: u64_saturating_mul_min up n budget_ms_def)
  then have t: "unat ?t = min (budget_ms b * 1000000) (2 ^ 64 - 1)"
    unfolding u64_saturating_mul_min [of _ 1000000] by (simp add: min_def)
  have q: "unat ?q = unat ?t div 2000"
    by (simp add: unat_div DEFAULT_SOFTUART_POLL_INTERVAL_NS_def up)
  let ?samples = "if ?q < 2 ^ 32 then ucast ?q else - 1 :: u32"
  have "min (unat ?q) 4294967295 \<le> unat ?samples"
  proof (cases "?q < 2 ^ 32")
    case True
    then have "unat ?q < 2 ^ 32"
      by (simp add: word_less_nat_alt)
    then have "unat (ucast ?q :: u32) = unat ?q"
      by (simp add: unsigned_ucast_eq take_bit_nat_eq_self)
    with True show ?thesis by simp
  next
    case False
    have "unat (- 1 :: u32) = 4294967295"
      by (simp add: unsigned_minus_1_eq_mask mask_eq_exp_minus_1)
    with False show ?thesis by simp
  qed
  moreover have "min (budget_ms b * 500) 4294967295 \<le> min (unat ?q) 4294967295"
    unfolding q t by (simp add: min_def)
  moreover have "unat ?samples \<le> unat (su_poll_attempts (softuart_set_poll_budget b t))"
    by (simp add: softuart_set_poll_budget_def softuart_set_poll_def Let_def clamp_attempts_def max_def word_le_nat_alt)
  ultimately show "min (budget_ms b * 500) 4294967295 \<le> unat (su_poll_attempts (softuart_set_poll_budget b t))"
    by linarith
  show "unat (su_poll_interval_ns (softuart_set_poll_budget b t)) = 2000"
    by (simp add: softuart_set_poll_budget_def softuart_set_poll_def Let_def DEFAULT_SOFTUART_POLL_INTERVAL_NS_def)
qed

lemma gpio_window:
  "gpio_fits W b \<Longrightarrow> W + 22000000 \<le> (unat (su_poll_attempts (softuart_set_poll_budget b t)) - 1) * 2000"
  using gpio_samples(1) [of b t] by (auto simp: gpio_fits_def min_def split: if_splits)

definition on_gpio :: "nat \<Rightarrow> (gpio_bus, unit) backend \<Rightarrow> bool" where
  "on_gpio W t \<longleftrightarrow> (case t of
       BGpio f g u \<Rightarrow> gpio_up W (su_hw u) \<and> unat (su_poll_interval_ns u) = 2000 \<and> 0 < unat (su_scan_limit u)
         \<and> W + 22000000 \<le> (unat (su_poll_attempts u) - 1) * 2000
     | _ \<Rightarrow> False)"

definition gpio_device :: "(gpio_bus, unit) backend \<Rightarrow> device" where
  "gpio_device t = sim_dev (gpio_settled (backend_hw t))"

lemma gpio_device_at: "gpio_at w d \<Longrightarrow> soft_up d \<Longrightarrow> gpio_settled w = so_sim d"
  by (intro gpio_settled_at disjI1 soft_up_listening)

lemma gpio_answers:
  assumes "on_gpio W t" and "length pl \<le> 252" and "dev_step sim_port_info (gpio_device t) c pl = (out, d')"
    and "length out + 3 \<le> length rsp"
  shows "\<exists>n t' rsp'. backend_request gpio_wires t (wire c pl) rsp = (Ok n, t', rsp') \<and> n \<le> length rsp'
     \<and> decode_padded (take n rsp') = Ok \<lparr>cmd = c OR RSP_FLAG, payload = out\<rparr> \<and> gpio_device t' = d'
     \<and> (if c = CMD_BOOT \<and> region_valid (dev_flash (gpio_device t))
        then hw_jumped (sim_hw (gpio_settled (backend_hw t'))) else on_gpio W t')"
proof -
  obtain f g u d where t: "t = BGpio f g u" "gpio_at (su_hw u) d" "soft_up d" "line_budget d" "\<forall>c. so_work d c \<le> W"
    and i: "unat (su_poll_interval_ns u) = 2000" "0 < unat (su_scan_limit u)" "W + 22000000 \<le> (unat (su_poll_attempts u) - 1) * 2000"
    using assms(1) by (cases t) (auto simp: on_gpio_def gpio_up_def)
  have dev: "gpio_device t = sim_dev (so_sim d)"
    using gpio_device_at [OF t(2,3)] by (simp add: gpio_device_def t(1))
  from gpio_request [OF t(2-4) t(5) [rule_format] assms(2) assms(3) [unfolded dev] assms(4) i(1,3,2), of f g] obtain w2 d2 where r:
    "softuart_request (gpio_hal gpio_wires f g) u (wire c pl) rsp =
       (Ok (length out + 3), u\<lparr>su_hw := w2\<rparr>, wire (c OR RSP_FLAG) out @ drop (length out + 3) rsp)"
    "gpio_at w2 d2" "line_budget d2" "so_work d2 = so_work d" "sim_dev (so_sim d2) = d'" "length out \<le> 17"
    "if c = CMD_BOOT \<and> region_valid (hw_flash (sim_hw (so_sim d))) then hw_jumped (sim_hw (so_sim d2)) else soft_up d2"
    by blast
  have settled: "gpio_settled w2 = so_sim d2"
    using r(7) soft_up_listening [of d2] by (intro gpio_settled_at [OF r(2)]) (auto split: if_splits)
  have "backend_request gpio_wires t (wire c pl) rsp =
      (Ok (length out + 3), BGpio f g (u\<lparr>su_hw := w2\<rparr>), wire (c OR RSP_FLAG) out @ drop (length out + 3) rsp)"
    using r(1) by (simp add: t(1) erase_err_def)
  moreover have "on_gpio W (BGpio f g (u\<lparr>su_hw := w2\<rparr>))" if "soft_up d2"
    using r(2-4) t(5) i that by (auto simp: on_gpio_def gpio_up_def)
  ultimately show ?thesis
    using r(5-7) assms(4) settled dev by (auto simp: gpio_device_def sim_dev_def)
qed

lemma gpio_serves:
  assumes "on_gpio W t" and "length pl \<le> 252" and "dev_step sim_port_info (gpio_device t) c pl = (out, d')"
    and "length out + 3 \<le> length rsp" and "c \<noteq> CMD_BOOT"
  shows "\<exists>n t' rsp'. backend_request gpio_wires t (wire c pl) rsp = (Ok n, t', rsp') \<and> n \<le> length rsp'
     \<and> decode_padded (take n rsp') = Ok \<lparr>cmd = c OR RSP_FLAG, payload = out\<rparr> \<and> on_gpio W t' \<and> gpio_device t' = d'"
  using gpio_answers [OF assms(1-4)] assms(5) by auto

interpretation gpio_wire: wire_device gpio_wires gpio_device "on_gpio W" sim_port_info "gpio_fits W" for W
proof (intro wire_device.intro poll_device.intro device_transport.intro device_transport_axioms.intro poll_device_axioms.intro)
  show "transport (backend_request gpio_wires)" ..
  show "poll_transport (backend_request gpio_wires) backend_set_poll" ..
  show "length (pi_device_id sim_port_info) = 4"
    by (simp add: sim_port_info_def)
next
  fix t :: "(gpio_bus, unit) backend" and b
  assume t: "on_gpio W t" and b: "gpio_fits W b"
  then obtain f g u where u: "t = BGpio f g u"
    by (cases t) (auto simp: on_gpio_def)
  have keeps: "su_hw (softuart_set_poll_budget b u) = su_hw u" "su_scan_limit (softuart_set_poll_budget b u) = su_scan_limit u"
    by (simp_all add: softuart_set_poll_budget_def softuart_set_poll_def Let_def)
  show "on_gpio W (backend_set_poll b t) \<and> gpio_device (backend_set_poll b t) = gpio_device t"
    using t gpio_window [OF b, of u] gpio_samples(2) [of b u] by (simp add: u on_gpio_def gpio_device_def keeps)
next
  fix b n
  assume "gpio_fits W b" and n: "pb_attempts b \<le> n"
  moreover have "budget_ms b \<le> budget_ms (b\<lparr>pb_attempts := n\<rparr>)"
    using n unfolding budget_ms_def by (intro mult_le_mono max.mono) (simp_all add: word_le_nat_alt)
  ultimately show "gpio_fits W (b\<lparr>pb_attempts := n\<rparr>)"
    by (simp add: gpio_fits_def)
qed (use gpio_serves in blast)

interpretation gpio_boot: boot_wire gpio_wires gpio_device "on_gpio W" sim_port_info "gpio_fits W"
  "\<lambda>t. hw_jumped (sim_hw (gpio_settled (backend_hw t)))" for W
proof unfold_locales
  fix t :: "(gpio_bus, unit) backend" and v and rsp :: bytes
  assume up: "on_gpio W t" and v: "v = region_valid (dev_flash (gpio_device t))" and rsp: "4 \<le> length rsp"
  have "\<not> hw_jumped (sim_hw (gpio_settled (backend_hw t')))" if t': "on_gpio W t'" for t'
  proof -
    obtain d where "gpio_at (backend_hw t') d" "soft_up d"
      using t' by (cases t') (auto simp: on_gpio_def gpio_up_def)
    then show ?thesis
      using gpio_device_at by (simp add: soft_up_def sim_up_def healthy_def)
  qed
  then show "\<exists>n t' rsp'. backend_request gpio_wires t (wire CMD_BOOT []) rsp = (Ok n, t', rsp') \<and> n \<le> length rsp'
      \<and> decode_padded (take n rsp') = Ok \<lparr>cmd = CMD_BOOT OR RSP_FLAG, payload = [if v then ST_OK else ST_NO_APP]\<rparr>
      \<and> gpio_device t' = gpio_device t \<and> hw_jumped (sim_hw (gpio_settled (backend_hw t'))) = v \<and> (v \<or> on_gpio W t')"
    using gpio_answers [OF up _ dev_step_boot, of "[]" rsp] rsp unfolding v
    by (cases "region_valid (dev_flash (gpio_device t))") auto
qed

section \<open>The commands\<close>

definition gpio_env :: "(string \<Rightarrow> unit + string) \<Rightarrow> (string \<Rightarrow> unit + bytes) \<Rightarrow> (gpio_bus, unit) install_os \<Rightarrow>
    (gpio_bus, unit, unit, unit) cli_env" where
  "gpio_env texts files ios = \<lparr>ce_wires = gpio_wires, ce_read_to_string = texts, ce_read = files, ce_install = ios,
     ce_from_cli = (\<lambda>_. False), ce_sub = None\<rparr>"

abbreviation gpio_spec :: "cli \<Rightarrow> transport_spec" where
  "gpio_spec c \<equiv> SpecGpio (cli_chip c) (the (cli_pin_tx c)) (the (cli_pin_rx c))"

definition gpio_chosen :: "nat \<Rightarrow> cli \<Rightarrow> bool" where
  "gpio_chosen W c \<longleftrightarrow> cli_transport c = KindGpio \<and> cli_pin_tx c \<noteq> None \<and> cli_pin_rx c \<noteq> None \<and> cli_pin_tx c \<noteq> cli_pin_rx c
     \<and> gpio_fits W (poll_of c)"

lemma gpio_env_wires: "ce_wires (gpio_env texts files ios) = gpio_wires"
  by (simp add: gpio_env_def)

text \<open>A line that is at mark stays as it is when it is driven to mark, or opened.\<close>

lemma gb_drive_mark: "gpio_at w d \<Longrightarrow> gb_drive True w = w"
  unfolding gpio_at_def gb_drive_def
  by (cases w) (auto simp: fun_eq_iff min_le_iff_disj)

lemma gpio_opens:
  assumes "gpio_up W w" and b: "gpio_fits W b"
  shows "\<exists>t w'. open_backend gpio_wires (SpecGpio chip p q) w = (Ok t, w')
     \<and> on_gpio W (backend_set_poll b t) \<and> gpio_device (backend_set_poll b t) = sim_dev (gpio_settled w)"
proof -
  have "gb_drive True w = w"
    using assms(1) gb_drive_mark by (auto simp: gpio_up_def)
  then have "open_backend gpio_wires (SpecGpio chip p q) w = (Ok (BGpio () () (softuart_new w)), w)"
    by (simp add: open_backend_def gpio_open_def gpio_wires_def gpio_os_def quiet_os_def)
  moreover have "su_hw (softuart_set_poll_budget b (softuart_new w)) = w"
    "0 < unat (su_scan_limit (softuart_set_poll_budget b (softuart_new w)))"
    by (simp_all add: softuart_set_poll_budget_def softuart_set_poll_def softuart_new_def DEFAULT_SCAN_LIMIT_def Let_def)
  ultimately show ?thesis
    using assms(1) gpio_window [OF b, of "softuart_new w"] gpio_samples(2) [of b "softuart_new w"]
    by (simp add: on_gpio_def gpio_device_def)
qed

interpretation gpio_cli: cli_wire gpio_wires gpio_device "on_gpio W" "gpio_fits W"
  "\<lambda>t. hw_jumped (sim_hw (gpio_settled (backend_hw t)))" "gpio_chosen W" gpio_spec
  "gpio_up W" "\<lambda>w. sim_dev (gpio_settled w)" "\<lambda>w. hw_jumped (sim_hw (gpio_settled w))" for W
proof (unfold_locales, goal_cases)
  case (4 c w b)
  then show ?case
    using gpio_opens by blast
next
  case (8 w)
  then obtain d where "gpio_at w d" "soft_up d"
    by (auto simp: gpio_up_def)
  then show ?case
    using gpio_device_at [of w d] by (simp add: soft_up_def sim_up_def healthy_def sim_dev_def)
qed (auto simp: gpio_chosen_def build_spec_def gpio_device_def on_gpio_def split: backend.splits)

section \<open>Properties\<close>

text \<open>
  C35: the bit-banged adapter against the bit-banged pump. With the clock of the device off
  by up to two percent, a loop that looks at the line every seventeen microseconds, and at
  least 73.43 microseconds between the last sample of a request and the answer (without
  them the device may answer before the host has finished its last stop bit), every request
  is answered with exactly what the abstract device answers, if the poll budget covers the
  work of the device and 22 milliseconds for the answer. Both ends are then ready for the
  next request, whatever the host does to the line from now on; after an accepted BOOT the
  application has started, with the answer on the wire.
\<close>

theorem gpio_over_pump:
  assumes "gpio_at (su_hw t) d" and "sim_up (so_sim d)" and "link_idle (sim_link (so_sim d))" and "\<forall>u \<ge> so_clock d. le_out (so_line d) u"
    and "980 \<le> so_rate d" and "so_rate d \<le> 1020" and "so_lag d < 16955" and "\<forall>c. 73430 \<le> so_work d c"
    and "length pl \<le> 252" and "dev_step sim_port_info (sim_dev (so_sim d)) c pl = (out, d')" and "length out + 3 \<le> length rsp"
    and "unat (su_poll_interval_ns t) = 2000" and "so_work d c + 22000000 \<le> (unat (su_poll_attempts t) - 1) * 2000"
    and "0 < unat (su_scan_limit t)"
  shows "\<exists>w2 d2. softuart_request (gpio_hal gpio_wires f g) t (wire c pl) rsp =
       (Ok (length out + 3), t\<lparr>su_hw := w2\<rparr>, wire (c OR RSP_FLAG) out @ drop (length out + 3) rsp)
     \<and> gpio_at w2 d2 \<and> sim_dev (so_sim d2) = d'
     \<and> (if c = CMD_BOOT \<and> region_valid (hw_flash (sim_hw (so_sim d))) then hw_jumped (sim_hw (so_sim d2)) else soft_up d2)"
proof -
  have bud: "pump_budget (so_rate d) (Suc (so_lag d))" "line_budget d"
    using line_budget_two_percent [OF assms(5-8)] by simp_all
  then have "soft_up d"
    using assms(2-4) by (simp add: soft_up_def)
  from gpio_request [OF assms(1) this bud(2) order_refl assms(9-14), of f g] show ?thesis
    by blast
qed

text \<open>A device a percent slow that takes 2 ms for a command, and 320 ms to erase.\<close>

definition fresh_soft :: soft_slave where
  "fresh_soft = \<lparr>so_sim = sim_acquire fresh_sim, so_line = softuart_pump_init (line_ops 1010 (\<lambda>_. True)) \<lparr>le_clock = 0, le_out = \<lambda>_. False\<rparr>,
     so_rate = 1010, so_lag = 9999, so_work = (\<lambda>c. if c = CMD_ERASE_APP then 320000000 else 2000000)\<rparr>"

definition fresh_gpio :: gpio_bus where
  "fresh_gpio = \<lparr>gb_clock = 0, gb_tx = \<lambda>_. True, gb_dev = fresh_soft\<rparr>"

lemma fresh_soft_up: "soft_up fresh_soft" "line_budget fresh_soft" "\<forall>c. so_work fresh_soft c \<le> 320000000" "\<forall>c. 73430 \<le> so_work fresh_soft c"
proof -
  show work: "\<forall>c. 73430 \<le> so_work fresh_soft c" "\<forall>c. so_work fresh_soft c \<le> 320000000"
    by (simp_all add: fresh_soft_def)
  have "pump_budget (so_rate fresh_soft) (Suc (so_lag fresh_soft)) \<and> line_budget fresh_soft"
    by (rule line_budget_two_percent [OF _ _ _ work(1)]) (simp_all add: fresh_soft_def)
  moreover have "sim_up (so_sim fresh_soft)" "link_idle (sim_link (so_sim fresh_soft))"
    using fresh_bus_up link_init_inv [of "replicate 255 0"]
    by (simp_all add: fresh_soft_def fresh_bus_def link_idle_def sim_acquire_def sim_reset_def fresh_sim_def link_init_def)
  moreover have "\<forall>u \<ge> so_clock fresh_soft. le_out (so_line fresh_soft) u"
    by (simp add: fresh_soft_def softuart_pump_init_def)
  ultimately show "soft_up fresh_soft" "line_budget fresh_soft"
    by (simp_all add: soft_up_def)
qed

lemma fresh_gpio_at: "gpio_at fresh_gpio fresh_soft"
proof -
  have "so_clock fresh_soft = 0"
    by (simp add: fresh_soft_def softuart_pump_init_def)
  then show ?thesis
    unfolding gpio_at_def by (auto simp: fresh_gpio_def intro: exI [of _ 0])
qed

lemma fresh_gpio_up: "gpio_up 320000000 fresh_gpio"
  using fresh_gpio_at fresh_soft_up by (auto simp: gpio_up_def)

theorem gpio_over_pump_witness:
  "\<exists>w2 d2. softuart_request (gpio_hal gpio_wires () ()) (softuart_new fresh_gpio) (wire CMD_ECHO [0x7E, 5]) (replicate 8 0) =
       (Ok 6, (softuart_new fresh_gpio)\<lparr>su_hw := w2\<rparr>, wire (CMD_ECHO OR RSP_FLAG) [ST_OK, 0x7E, 5] @ [0, 0])
     \<and> gpio_at w2 d2 \<and> soft_up d2"
proof -
  let ?t = "softuart_new fresh_gpio"
  have d: "sim_up (so_sim fresh_soft)" "link_idle (sim_link (so_sim fresh_soft))" "\<forall>u \<ge> so_clock fresh_soft. le_out (so_line fresh_soft) u"
    using fresh_soft_up(1) by (simp_all add: soft_up_def)
  have step: "dev_step sim_port_info (sim_dev (so_sim fresh_soft)) CMD_ECHO [0x7E, 5] = ([ST_OK, 0x7E, 5], sim_dev (so_sim fresh_soft))"
    by (simp add: dev_step_def CMD_INFO_def CMD_ERASE_APP_def CMD_WRITE_PAGE_def CMD_VERIFY_def CMD_BOOT_def CMD_ECHO_def)
  have at: "gpio_at (su_hw ?t) fresh_soft"
    using fresh_gpio_at by (simp add: softuart_new_def)
  have "\<exists>w2 d2. softuart_request (gpio_hal gpio_wires () ()) ?t (wire CMD_ECHO [0x7E, 5]) (replicate 8 0) =
         (Ok (length [ST_OK, 0x7E, 5] + 3), ?t\<lparr>su_hw := w2\<rparr>,
          wire (CMD_ECHO OR RSP_FLAG) [ST_OK, 0x7E, 5] @ drop (length [ST_OK, 0x7E, 5] + 3) (replicate 8 0))
     \<and> gpio_at w2 d2 \<and> sim_dev (so_sim d2) = sim_dev (so_sim fresh_soft)
     \<and> (if CMD_ECHO = CMD_BOOT \<and> region_valid (hw_flash (sim_hw (so_sim fresh_soft))) then hw_jumped (sim_hw (so_sim d2)) else soft_up d2)"
    by (rule gpio_over_pump [OF at d _ _ _ fresh_soft_up(4) _ step])
      (simp_all add: fresh_soft_def softuart_new_def DEFAULT_SOFTUART_POLL_ATTEMPTS_def DEFAULT_SOFTUART_POLL_INTERVAL_NS_def
        DEFAULT_SCAN_LIMIT_def CMD_ECHO_def CMD_ERASE_APP_def)
  moreover have "drop (length [ST_OK, 0x7E, 5] + 3) (replicate 8 0) = [0, 0 :: u8]" "CMD_ECHO \<noteq> CMD_BOOT"
    by (simp_all add: numeral_2_eq_2 CMD_ECHO_def CMD_BOOT_def)
  ultimately show ?thesis
    by auto
qed

text \<open>
  C8: the command line works over two GPIO lines. With the device and its bit-banged pump on
  the other end of the lines, the clocks within their budget, a poll budget that covers the
  longest work \<open>W\<close> of the device and any image file that fits, \<open>updater-cli flash\<close> succeeds and
  reports length and CRC of the image, and the region holds the bytes of the file, \<open>0xFF\<close>
  padding and the footer; a following \<open>info\<close> reports the device with a valid application,
  \<open>echo\<close> of one to sixteen bytes comes back, and each leaves both lines at mark and the device
  listening. A final \<open>boot\<close> succeeds and starts the application; the last three leave the
  flash alone.
\<close>

theorem cli_flash_gpio:
  assumes "gpio_chosen W c" and "gpio_up W w"
    and "load_image (gpio_env texts files ios) path = Ok bs" and "from_bin bs 128 32 = Ok img"
    and "parse_hex_bytes data = Ok payload'" and "payload' \<noteq> []" and "length payload' \<le> 16"
  shows "\<exists>prog w1 w2 w3 w4.
       cli_main (gpio_env texts files ios) (c\<lparr>cli_cmd := CmdFlash path\<rparr>) w =
         (Ok (OutFlash (img_len img) (img_crc img) (describe (gpio_spec c)) prog), w1)
     \<and> hw_flash (sim_hw (gpio_settled w1)) = bs @ replicate (4080 - length bs) 0xFF @ footer img
     \<and> cli_main (gpio_env texts files ios) (c\<lparr>cli_cmd := CmdInfo\<rparr>) w1 =
         (Ok (OutInfo \<lparr>di_proto = PROTO_VERSION, di_bl_version = pi_bl_version sim_port_info, di_device_id = pi_device_id sim_port_info,
            di_page_size = 128, di_app_pages = 32, di_app_valid = True\<rparr> 4096 4080), w2)
     \<and> cli_main (gpio_env texts files ios) (c\<lparr>cli_cmd := CmdEcho data\<rparr>) w2 = (Ok (OutEcho (length payload')), w3)
     \<and> gpio_up W w1 \<and> gpio_up W w2 \<and> gpio_up W w3
     \<and> cli_main (gpio_env texts files ios) (c\<lparr>cli_cmd := CmdBoot\<rparr>) w3 = (Ok OutBoot, w4)
     \<and> hw_jumped (sim_hw (gpio_settled w4)) \<and> hw_flash (sim_hw (gpio_settled w4)) = hw_flash (sim_hw (gpio_settled w1))"
  using gpio_cli.main_round [OF assms(1,2) gpio_env_wires assms(3-7)] by (simp add: sim_dev_def)

definition gpio_no_tools :: "(gpio_bus, unit) install_os" where
  "gpio_no_tools = \<lparr>io_toml = (\<lambda>_. Err ()), io_read_to_string = (\<lambda>_. Err ()), io_metadata = (\<lambda>_. None),
     io_valid_utf8 = (\<lambda>_. True), io_path_var = [], io_spawn = (\<lambda>_ _ w. (Err (), w)),
     io_debug_str = id, io_eprintln = (\<lambda>_ w. w), io_println = (\<lambda>_ w. w)\<rparr>"

lemma load_image_gpio: "load_image (gpio_env texts files ios) path = load_image (sim_env texts files ios') path"
  by (simp add: load_image_def sim_env_def gpio_env_def)

theorem cli_flash_gpio_witness:
  "\<exists>prog w1 w2 w3 w4.
       cli_main (gpio_env demo_texts demo_files gpio_no_tools)
         ((cli_default (CmdFlash ''app.hex''))\<lparr>cli_transport := KindGpio, cli_pin_tx := Some 17, cli_pin_rx := Some 27\<rparr>) fresh_gpio =
         (Ok (OutFlash 3 (crc32 [1, 2, 3]) (describe (SpecGpio ''/dev/gpiochip0'' 17 27)) prog), w1)
     \<and> hw_flash (sim_hw (gpio_settled w1)) = [1, 2, 3] @ replicate 4077 0xFF @ footer blinky
     \<and> cli_main (gpio_env demo_texts demo_files gpio_no_tools)
         ((cli_default (CmdEcho ''0a''))\<lparr>cli_transport := KindGpio, cli_pin_tx := Some 17, cli_pin_rx := Some 27\<rparr>) w2 = (Ok (OutEcho 1), w3)
     \<and> cli_main (gpio_env demo_texts demo_files gpio_no_tools)
         ((cli_default CmdBoot)\<lparr>cli_transport := KindGpio, cli_pin_tx := Some 17, cli_pin_rx := Some 27\<rparr>) w3 = (Ok OutBoot, w4)
     \<and> hw_jumped (sim_hw (gpio_settled w4))"
proof -
  let ?c = "(cli_default CmdBoot)\<lparr>cli_transport := KindGpio, cli_pin_tx := Some 17, cli_pin_rx := Some 27\<rparr>"
  have load: "load_image (gpio_env demo_texts demo_files gpio_no_tools) ''app.hex'' = Ok [1, 2, 3]"
    by (rule load_image_gpio [THEN trans, OF load_demo])
  have hex: "parse_hex_bytes ''0a'' = Ok [10]"
    by (simp add: parse_hex_bytes_def plain_def utf8_pair_def from_str_radix_def to_digit_def Let_def)
  have "gpio_chosen 320000000 ?c"
    by (simp add: gpio_chosen_def gpio_fits_def budget_ms_def cli_default_def CLI_POLL_ATTEMPTS_def CLI_POLL_DELAY_MS_def)
  from cli_flash_gpio [OF this fresh_gpio_up load blinky_from_bin hex]
  show ?thesis
    by (auto simp: cli_default_def blinky_def) blast
qed

end
