(* ===== verification/Lossy_Wire.thy ===== *)
theory Lossy_Wire
  imports Power_Cut
begin

text \<open>
  Why the session may retry: each request of an update does to the device what it did when
  it is sent once more, so a wire that loses requests and responses delays an update and
  does nothing else, as long as it does not lose four in a row.
\<close>

section \<open>Repeated requests\<close>

lemma put_at_again: "a + length ys \<le> length s \<Longrightarrow> put_at a ys (put_at a ys s) = put_at a ys s"
  by (rule nth_equalityI) (auto simp: nth_put_at)

definition whole :: "port_info \<Rightarrow> device \<Rightarrow> bool" where
  "whole i d \<longleftrightarrow> length (dev_flash d) = unat (pi_page_size i) * unat (pi_app_pages i)"

lemma dev_step_again:
  assumes "dev_step i d c pl = (out, d')" and "whole i d"
  shows "dev_step i d' c pl = (out, d')" "whole i d'"
proof -
  have page: "k * unat (pi_page_size i) + unat (pi_page_size i) \<le> length (dev_flash d)" if "k < unat (pi_app_pages i)" for k
  proof -
    have "Suc k * unat (pi_page_size i) \<le> unat (pi_app_pages i) * unat (pi_page_size i)"
      using that by (intro mult_le_mono) simp_all
    then show ?thesis
      using assms(2) by (simp add: whole_def mult.commute add.commute)
  qed
  have *: "dev_step i d' c pl = (out, d') \<and> whole i d'"
  proof (cases "c = CMD_WRITE_PAGE")
    case True
    then show ?thesis
      using assms page put_at_again [of _ "drop 2 pl" "dev_flash d"]
      by (auto simp: dev_step_def CMD_WRITE_PAGE_def CMD_INFO_def CMD_ERASE_APP_def whole_def Let_def not_le split: if_splits)
  next
    case False
    with assms show ?thesis
      by (auto simp: dev_step_def whole_def Let_def CMD_INFO_def CMD_ERASE_APP_def CMD_VERIFY_def CMD_BOOT_def CMD_ECHO_def split: if_splits)
  qed
  then show "dev_step i d' c pl = (out, d')" "whole i d'"
    by blast+
qed

section \<open>A wire with losses\<close>

text \<open>
  The fate of a request: carried; lost on the way out; or executed, but the response lost.
  What the host then hears is a result of its transport and some bytes in its buffer, which
  are no valid frame: an error, or filler, or noise.
\<close>

type_synonym 'e hearing = "('e + usize) \<times> bytes"

datatype 'e fate = Carried | Request_lost "'e hearing" | Response_lost "'e hearing"

record ('t, 'e) lossy =
  lw_wire :: 't
  lw_fate :: "nat \<Rightarrow> 'e fate"
  lw_sent :: nat

definition noisy :: "bytes \<Rightarrow> bytes \<Rightarrow> bytes" where
  "noisy noise rsp = take (length rsp) noise @ drop (length noise) rsp"

definition lossy_request :: "('t, 'e) request_fn \<Rightarrow> (('t, 'e) lossy, 'e) request_fn" where
  "lossy_request request l req rsp =
     (let l' = l\<lparr>lw_sent := Suc (lw_sent l)\<rparr> in
      case lw_fate l (lw_sent l) of
        Carried \<Rightarrow> (case request (lw_wire l) req rsp of (r, t, rsp) \<Rightarrow> (r, l'\<lparr>lw_wire := t\<rparr>, rsp))
      | Request_lost (r, noise) \<Rightarrow> (r, l', noisy noise rsp)
      | Response_lost (r, noise) \<Rightarrow>
          (case request (lw_wire l) req rsp of (_, t, rsp) \<Rightarrow> (r, l'\<lparr>lw_wire := t\<rparr>, noisy noise rsp)))"

definition unheard :: "'e hearing \<Rightarrow> bool" where
  "unheard h \<longleftrightarrow> (\<forall>rsp. rejected (fst h) (noisy (snd h) rsp))"

text \<open>At most three losses in a row.\<close>

definition tolerable :: "(nat \<Rightarrow> 'e fate) \<Rightarrow> bool" where
  "tolerable f \<longleftrightarrow> (\<forall>i. \<exists>k < 4. f (i + k) = Carried)
     \<and> (\<forall>i h. f i = Request_lost h \<or> f i = Response_lost h \<longrightarrow> unheard h)"

lemma length_noisy [simp]: "length (noisy noise rsp) = length rsp"
  by (simp add: noisy_def)

text \<open>An error, and the idle level of a bus.\<close>

lemma unheard_error: "unheard (Err e, noise)"
  by (simp add: unheard_def rejected_def)

lemma unheard_filler: "unheard (Ok n, replicate n 0xFF)"
proof -
  have "take n (noisy (replicate n 0xFF) rsp) = replicate (min n (length rsp)) 0xFF" for rsp
    by (simp add: noisy_def min_def)
  then show ?thesis
    using decode_padded_filler by (simp add: unheard_def rejected_def)
qed

lemma lossy_transport: "transport request \<Longrightarrow> transport (lossy_request request)"
  by (auto simp: transport_def lossy_request_def Let_def split: fate.splits prod.splits)

context device_transport
begin

abbreviation lossy_up :: "('t, 'e) lossy \<Rightarrow> bool" where
  "lossy_up l \<equiv> up (lw_wire l) \<and> whole pinfo (dev (lw_wire l)) \<and> tolerable (lw_fate l)"

text \<open>One attempt over the wire.\<close>

lemma lossy_attempt:
  assumes up: "lossy_up l" and pl: "length pl \<le> 252" and step: "dev_step pinfo (dev (lw_wire l)) c pl = (st # rest, d')"
    and fits: "length rest + 4 \<le> length rx" and c: "c \<noteq> CMD_BOOT"
  shows "\<exists>r l' rx'. lossy_request request l (wire c pl) rx = (r, l', rx') \<and> lossy_up l' \<and> lw_sent l' = Suc (lw_sent l)
     \<and> lw_fate l' = lw_fate l \<and> length rx' = length rx \<and> dev_step pinfo (dev (lw_wire l')) c pl = (st # rest, d')
     \<and> (if lw_fate l (lw_sent l) = Carried
        then dev (lw_wire l') = d' \<and> (\<exists>n. r = Ok n \<and> n \<le> length rx' \<and> decode_padded (take n rx') = Ok \<lparr>cmd = c OR RSP_FLAG, payload = st # rest\<rparr>)
        else rejected r rx')"
proof -
  have "length (st # rest) + 3 \<le> length rx"
    using fits by simp
  from serves [OF conjunct1 [OF up] pl step this c] obtain n t' rx' where r: "request (lw_wire l) (wire c pl) rx = (Ok n, t', rx')"
    "n \<le> length rx'" "decode_padded (take n rx') = Ok \<lparr>cmd = c OR RSP_FLAG, payload = st # rest\<rparr>" "up t'" "dev t' = d'"
    by blast
  note len = rsp_length [OF r(1)]
  have again: "dev_step pinfo d' c pl = (st # rest, d')" "whole pinfo d'"
    using dev_step_again [OF step] up by simp_all
  show ?thesis
  proof (cases "lw_fate l (lw_sent l)")
    case Carried
    with r len again up show ?thesis
      by (simp add: lossy_request_def)
  next
    case (Request_lost h)
    with up have "unheard h"
      unfolding tolerable_def by blast
    with Request_lost up step show ?thesis
      by (cases h) (simp add: lossy_request_def unheard_def)
  next
    case (Response_lost h)
    with up have "unheard h"
      unfolding tolerable_def by blast
    with Response_lost up r(1,4,5) again len show ?thesis
      by (cases h) (simp add: lossy_request_def unheard_def)
  qed
qed

lemma lossy_exchange:
  assumes "lossy_up l" and pl: "length pl \<le> 252" and "dev_step pinfo (dev (lw_wire l)) c pl = (st # rest, d')"
    and "length rest + 4 \<le> length rx" and c: "c \<noteq> CMD_BOOT" and st: "st \<noteq> ST_BAD_FRAME"
    and "lw_fate l (lw_sent l + k) = Carried" and "k < left"
  shows "\<exists>n l' rx'. exchange_loop (lossy_request request) left e l (wire c pl) rx (c OR RSP_FLAG) =
       (if st = ST_OK then Ok n else Err (Core (Device st)), l', rx')
     \<and> decode_padded (take n rx') = Ok \<lparr>cmd = c OR RSP_FLAG, payload = st # rest\<rparr> \<and> lossy_up l' \<and> dev (lw_wire l') = d'"
  using assms(1,3,4,7,8)
proof (induction left arbitrary: e l rx k)
  case (Suc left)
  from lossy_attempt [OF Suc.prems(1) pl Suc.prems(2,3) c] obtain r l' rx' where a:
    "lossy_request request l (wire c pl) rx = (r, l', rx')" "lossy_up l'" "lw_sent l' = Suc (lw_sent l)" "lw_fate l' = lw_fate l"
    "length rx' = length rx" "dev_step pinfo (dev (lw_wire l')) c pl = (st # rest, d')"
    "if lw_fate l (lw_sent l) = Carried
     then dev (lw_wire l') = d' \<and> (\<exists>n. r = Ok n \<and> n \<le> length rx' \<and> decode_padded (take n rx') = Ok \<lparr>cmd = c OR RSP_FLAG, payload = st # rest\<rparr>)
     else rejected r rx'"
    by blast
  show ?case
  proof (cases "lw_fate l (lw_sent l) = Carried")
    case True
    with a(7) obtain n where n: "r = Ok n" "n \<le> length rx'" "dev (lw_wire l') = d'"
      "decode_padded (take n rx') = Ok \<lparr>cmd = c OR RSP_FLAG, payload = st # rest\<rparr>"
      by auto
    have "verdict r rx' (c OR RSP_FLAG) = Inr (if st = ST_OK then Ok n else Err (Core (Device st)))"
      unfolding n(1) by (rule verdict_served [OF n(2,4) st])
    with a(1,2) n(3,4) show ?thesis
      by (simp add: exchange_loop_Suc) blast
  next
    case False
    with Suc.prems(4,5) obtain k' where k: "k = Suc k'" "k' < left"
      by (cases k) auto
    obtain e' where "verdict r rx' (c OR RSP_FLAG) = Inl e'"
      using a(7) False rejected_verdict by fastforce
    moreover have "lw_fate l' (lw_sent l' + k') = Carried"
      using Suc.prems(4) by (simp add: a(3,4) k(1))
    ultimately show ?thesis
      using Suc.IH [OF a(2,6) _ _ k(2), of rx' e'] Suc.prems(3) a(1,5) by (simp add: exchange_loop_Suc)
  qed
qed simp

end

text \<open>So the session sees the same device, and all its commands work.\<close>

sublocale device_transport \<subseteq> lossy: session_device "lossy_request request" "\<lambda>l. dev (lw_wire l)" lossy_up pinfo
proof (intro session_device.intro session_device_axioms.intro lossy_transport transport_axioms)
  fix l c and pl rest rx :: bytes and st d'
  assume a: "lossy_up l" "length pl \<le> 252" "dev_step pinfo (dev (lw_wire l)) c pl = (st # rest, d')" "length rest + 4 \<le> length rx"
    "c \<noteq> CMD_BOOT" "st \<noteq> ST_BAD_FRAME"
  obtain k where "k < 4" "lw_fate l (lw_sent l + k) = Carried"
    using a(1) unfolding tolerable_def by blast
  with lossy_exchange [OF a _, of k 4] show
    "\<exists>n t' rx'. exchange (lossy_request request) l (wire c pl) rx (c OR RSP_FLAG) =
         (if st = ST_OK then Ok n else Err (Core (Device st)), t', rx')
       \<and> decode_padded (take n rx') = Ok \<lparr>cmd = c OR RSP_FLAG, payload = st # rest\<rparr> \<and> lossy_up t' \<and> dev (lw_wire t') = d'"
    unfolding exchange_unfold by blast
qed (rule id_length)

section \<open>An update over a lossy wire\<close>

abbreviation losing :: "'t \<Rightarrow> (nat \<Rightarrow> 'e fate) \<Rightarrow> ('t, 'e) lossy" where
  "losing t fate \<equiv> \<lparr>lw_wire = t, lw_fate = fate, lw_sent = 0\<rparr>"

lemma acquired_whole:
  assumes "\<not> hw_aborted (sim_hw s)"
  shows "sim_up (sim_acquire s)" "length (dev_flash (sim_dev (sim_acquire s))) = 4096" "whole sim_port_info (sim_dev (sim_acquire s))"
  using assms
  by (simp_all add: sim_acquire_def sim_reset_def sim_up_def healthy_def upd_init_def sim_dev_def whole_def sim_port_info_def)

text \<open>
  C11: an update survives the wire. Requests may be lost on the way to the device, and
  responses on the way back after the device has executed the request, with an error, filler
  or noise in their place; as long as no four losses follow each other, \<open>flash\<close> of a
  fitting binary succeeds over either loopback, byte stream included, and the app region
  holds the binary, padding and footer. The retries repeat erases, page writes and verifies
  that the device has already done, and change nothing by it.
\<close>

theorem flash_survives_loss:
  assumes "from_bin bs 128 32 = Ok img" and "137 \<le> length buf" and "\<not> hw_aborted (sim_hw s0)"
    and "length (lk_buf (sim_link s0)) = 255" and "tolerable link_fate" and "tolerable stream_fate"
  shows "(\<exists>s' prog. flash (lossy_request sim_transport_request) (session_new (losing (sim_acquire s0) link_fate) buf) img =
         ((Ok () :: 'e error + unit), s', prog)
       \<and> hw_flash (sim_hw (lw_wire (into_transport s'))) = bs @ replicate (4080 - length bs) 0xFF @ footer img
       \<and> \<not> hw_aborted (sim_hw (lw_wire (into_transport s'))))
     \<and> (\<exists>s' prog. flash (lossy_request sim_stream_request)
           (session_new (losing \<lparr>st_sim = sim_acquire s0, st_lag = lag\<rparr> stream_fate) buf) img = (Ok (), s', prog)
       \<and> hw_flash (sim_hw (st_sim (lw_wire (into_transport s')))) = bs @ replicate (4080 - length bs) 0xFF @ footer img
       \<and> \<not> hw_aborted (sim_hw (st_sim (lw_wire (into_transport s')))))"
    (is "?link \<and> ?stream")
proof
  have v: "valid_image img" "img_data img = bs" "img_ps img = 128" "img_ap img = 32" "matches img sim_port_info"
    using from_bin_valid [OF assms(1)] by (simp_all add: img_ps_def img_ap_def matches_def sim_port_info_def)
  note up = acquired_whole [OF assms(3)]
  show ?link
    using sim_link_if.lossy.flash_succeeds [OF v(1,5), of "session_new (losing (sim_acquire s0) link_fate) buf"] up v assms(2,5)
    by (fastforce simp: session_new_def into_transport_def sim_up_def healthy_def sim_dev_def region_image_def)
  have "link_idle (sim_link (sim_acquire s0))"
    using link_init_inv [of "lk_buf (sim_link s0)"] assms(4)
    by (simp add: sim_acquire_def sim_reset_def link_idle_def, simp add: link_init_def)
  then show ?stream
    using sim_stream_if.lossy.flash_succeeds [OF v(1,5), of "session_new (losing \<lparr>st_sim = sim_acquire s0, st_lag = lag\<rparr> stream_fate) buf"]
      up v assms(2,6)
    by (fastforce simp: session_new_def into_transport_def sim_up_def healthy_def sim_dev_def region_image_def)
qed

text \<open>Three losses for every request that gets through, of all kinds.\<close>

definition one_in_four :: "'e \<Rightarrow> nat \<Rightarrow> 'e fate" where
  "one_in_four e i = (if i mod 4 = 3 then Carried else if i mod 4 = 2 then Request_lost (Err e, [])
     else if i mod 4 = 1 then Response_lost (Ok 8, replicate 8 0xFF) else Response_lost (Err e, [1, 2, 3]))"

lemma one_in_four_tolerable: "tolerable (one_in_four e)"
proof -
  have "\<exists>k < 4. one_in_four e (i + k) = Carried" for i
  proof -
    have "\<exists>k < 4. (i + k) mod 4 = 3"
      by presburger
    moreover have "one_in_four e j = Carried" if "j mod 4 = 3" for j
      using that by (simp add: one_in_four_def)
    ultimately show ?thesis by blast
  qed
  moreover have "unheard h" if "one_in_four e i = Request_lost h \<or> one_in_four e i = Response_lost h" for i h
    using that unheard_error unheard_filler [of 8] by (auto simp: one_in_four_def split: if_splits)
  ultimately show ?thesis
    unfolding tolerable_def by blast
qed

theorem flash_survives_loss_witness:
  "(\<exists>s' prog. flash (lossy_request sim_transport_request)
         (session_new (losing (sim_acquire fresh_sim) (one_in_four ())) (replicate 137 0)) blinky = ((Ok () :: unit error + unit), s', prog)
       \<and> hw_flash (sim_hw (lw_wire (into_transport s'))) = [1, 2, 3] @ replicate 4077 0xFF @ footer blinky)
     \<and> (\<exists>s' prog. flash (lossy_request sim_stream_request)
         (session_new (losing \<lparr>st_sim = sim_acquire fresh_sim, st_lag = 5\<rparr> (one_in_four StreamError)) (replicate 137 0)) blinky =
           (Ok (), s', prog)
       \<and> hw_flash (sim_hw (st_sim (lw_wire (into_transport s')))) = [1, 2, 3] @ replicate 4077 0xFF @ footer blinky)
     \<and> one_in_four () 0 = Response_lost (Err (), [1, 2, 3])"
proof -
  have "length (lk_buf (sim_link fresh_sim)) = 255"
    by (simp add: fresh_sim_def link_init_def)
  from flash_survives_loss [OF blinky_from_bin _ fresh_sim_alive this one_in_four_tolerable [of "()"]
      one_in_four_tolerable [of StreamError], of "replicate 137 0" 5]
  show ?thesis
    by (simp add: one_in_four_def) blast
qed

end
