(* ===== verification/Spec2Isabelle.thy ===== *)
theory Spec2Isabelle
  imports Session Stream_Scanner I2c_Transport Spi_Transport Uart_Transport Softuart_Transport End_To_End Power_Cut
    Cli_End_To_End Cli_Serial Cli_Power_Cut Cli_Reports Unit_Tests Kani_Harnesses Session_Types
    Campaigns Stream_Campaigns Cli_Spi Cli_Spi_Cut Cli_Gpio Lossy_Wire
begin

text \<open>
  A verification development for the updater SDK: the host side in Rust
  (\<^verbatim>\<open>src/host\<close>), the device core it talks to and the conformance
  harness that joins them.

  \<^bold>\<open>The program.\<close> A host flashes an application image into a device over
  a wire. The crate \<^verbatim>\<open>updater-core\<close> has the frame codec, the image
  layer, a receive scanner for byte streams and the session engine with its retried
  exchange, all over a \<open>Transport\<close> trait. The crate
  \<^verbatim>\<open>updater-eh\<close> implements that trait over
  \<open>embedded-hal\<close>: I2C, SPI, UART and a bit-banged UART. The crate
  \<^verbatim>\<open>updater-cli\<close> adds the Linux backends, the poll budget policy,
  the Intel HEX reader, the installer of the bootloader and the command line. The device
  core (C) answers one request per frame, and the harness runs it on a simulated flash with
  power cuts.

  \<^bold>\<open>Theories and sources.\<close>
  \<^item> \<open>Prelude\<close>: words, slices, results as sums (\<open>Err\<close>, \<open>Ok\<close>, \<open>try_bind\<close>, \<open>st_bind\<close>) and the
    lemma collections; \<open>Rust_Str\<close>: what the source uses of the string functions of the
    standard library (trimming, lines, number parsing, formatting), on strings as the lists
    of their UTF-8 bytes.
  \<^item> \<open>Errors\<close>, \<open>Frame\<close>, \<open>Image\<close>, \<open>Stream_Scanner\<close>, \<open>Transport_If\<close>, \<open>Session\<close>:
    \<^verbatim>\<open>updater-core/src\<close> (\<^verbatim>\<open>error.rs\<close>, \<^verbatim>\<open>frame.rs\<close>, \<^verbatim>\<open>image.rs\<close>, \<^verbatim>\<open>stream.rs\<close>,
    \<^verbatim>\<open>transport.rs\<close>, \<^verbatim>\<open>session.rs\<close>); \<open>Session_Types\<close>: the error signatures of the
    session's operations.
  \<^item> \<open>Polling\<close>, \<open>I2c_Transport\<close>, \<open>Spi_Transport\<close>, \<open>Uart_Transport\<close>, \<open>Softuart_Transport\<close>:
    \<^verbatim>\<open>updater-eh/src\<close> (\<^verbatim>\<open>lib.rs\<close>, \<^verbatim>\<open>i2c.rs\<close>, \<^verbatim>\<open>spi.rs\<close>, \<^verbatim>\<open>uart.rs\<close>, \<^verbatim>\<open>softuart.rs\<close>).
  \<^item> \<open>Device_Core\<close>, \<open>Link_Stream\<close>: \<^verbatim>\<open>src/device/core\<close>; \<open>Device_Spec\<close>: the abstract device
    and the refinement; \<open>Sim_Device\<close>: \<^verbatim>\<open>src/conformance\<close> (the simulated port, the request
    cycles, the Rust wrappers); \<open>Spi_Pump\<close>: \<^verbatim>\<open>device/ports/skeletons/spi_pump.c\<close>, the response
    queue behind the shift register of an SPI client, with the link and the core on top;
    \<open>Softuart_Pump\<close>: \<^verbatim>\<open>softuart_pump.c\<close> beside it, the bit-banged UART, with link and core
    on top, on the time line of the two wires.
  \<^item> \<open>Ihex\<close>: \<^verbatim>\<open>updater-cli/src/ihex.rs\<close>; \<open>Cli_Transport\<close> (backends) and \<open>Cli_Dyn\<close> (budget
    policy, erasure, \<open>open\<close>): \<^verbatim>\<open>transport.rs\<close>; \<open>Cli_Install\<close>: \<^verbatim>\<open>install.rs\<close>; \<open>Cli_Main\<close>:
    \<^verbatim>\<open>main.rs\<close>.
  \<^item> \<open>Cli_Texts\<close>: the \<open>Display\<close> implementations of all crates and what \<^verbatim>\<open>main.rs\<close> prints;
    \<open>Cli_Reports\<close>: the messages of \<^verbatim>\<open>ihex.rs\<close>, \<^verbatim>\<open>install.rs\<close>, \<^verbatim>\<open>transport.rs\<close> and
    \<^verbatim>\<open>main.rs\<close> when a run fails, as the chain that \<open>anyhow\<close> keeps.
  \<^item> \<open>End_To_End\<close>, \<open>Power_Cut\<close>, \<open>Cli_End_To_End\<close> (any wire, and I2C), \<open>Cli_Serial\<close> (UART),
    \<open>Cli_Spi\<close>, \<open>Cli_Gpio\<close>, \<open>Cli_Power_Cut\<close> (any wire, I2C and UART), \<open>Cli_Spi_Cut\<close>: the composition with the
    device; \<open>Lossy_Wire\<close>: the same over a wire that loses requests and responses.
  \<^item> \<open>Unit_Tests\<close>: the unit tests of \<^verbatim>\<open>updater-cli/src\<close> as propositions, which the model
    satisfies; those about the output of \<open>clap\<close>, the positions of TOML syntax errors and files
    made for the test are left out.
  \<^item> \<open>Campaigns\<close>: the enumeration of the protocol's alphabet and the campaigns on page order
    and tampering in \<^verbatim>\<open>src/conformance/tests\<close>, for every input instead of the ones they pick;
    \<open>Stream_Campaigns\<close>: those on the byte stream, for every way to cut it into pieces.
  \<^item> \<open>Kani_Harnesses\<close>: the model-checking harnesses in \<^verbatim>\<open>updater-core/src\<close>, as functions of
    their symbolic values; the bounds of their arrays become the lengths of lists.

  \<^bold>\<open>State and operations.\<close> Structs are records with the names of their
  fields prefixed, enums are datatypes, integers keep their width (\<open>u8\<close>,
  \<open>u16\<close>, \<open>u32\<close>, \<open>u64\<close>); a \<open>usize\<close> is a
  natural number with the wrap-around and saturation of a 32-bit target written out where
  the code uses it. A method with \<open>&mut self\<close> takes and returns the record; the
  frame buffer of a session is a list of bytes, and what is written through its windows is
  written back. A transport is a function from a state, a request and a response buffer to a
  result, a new state and the buffer. Everything outside the sources (buses, pins, clocks,
  the operating system, \<open>clap\<close>, \<open>toml\<close>) is a parameter: a record
  of functions over a state \<open>'w\<close>.

  \<^bold>\<open>Interfaces.\<close> \<open>transport\<close> (a request keeps the length of
  the response buffer) and its extension \<open>stream_transport\<close>, interpreted for
  every adapter; \<open>flash_reader\<close> and \<open>flash_port\<close> (the laws of
  \<^verbatim>\<open>port.h\<close>), interpreted for the simulated port while it is healthy
  and, for reading, while a power cut is armed; \<open>session_device\<close> (an exchange, however many
  requests it takes, is one step of the abstract device), where the session's commands and
  \<open>flash\<close> are proved; \<open>device_transport\<close> (a transport that carries each request to the
  abstract device and its answer back), which gives \<open>session_device\<close> twice, by itself and
  behind losses, interpreted for both loopbacks of the harness and, through
  \<open>poll_device\<close> and \<open>wire_device\<close>, for the Linux I2C, serial, spidev and GPIO backends
  under \<open>DynTransport\<close>, with the poll budgets a medium can work with as a parameter;
  \<open>boot_wire\<close> adds BOOT and its gate, and \<open>cli_wire\<close> the command lines that choose a wire:
  what \<open>main\<close> does over a wire that opens is proved there once and holds for all four;
  \<open>cut_transport\<close> (a device that may lose power: an answer or silence, and silence for
  good), with \<open>power_cycle\<close>, \<open>poll_cut\<close> and \<open>wire_cut\<close>, interpreted for both loopbacks and
  the three backends, and \<open>cut_cli\<close> for what \<open>main\<close> does while the power goes and when it is
  back; \<open>link_source\<close> (\<open>get_byte\<close> takes the front of what has arrived), interpreted for the
  SPI pump over its register;
  \<open>port_reads\<close> and \<open>port_keeps\<close> (what the core leaves alone), interpreted for the
  simulated port; \<open>poll_transport\<close> (a budget set stays in force) and
  \<open>invariant_transport\<close> (a request keeps an invariant of the transport), both
  interpreted for \<open>DynTransport\<close> over the erased backends of the command line.

  \<^bold>\<open>What is shown.\<close> The codec and the images: round trips, acceptance
  sets, detection of single-byte errors, page rendering, and that the pages written rebuild
  the region. The scanner: soundness, completeness behind noise, and that it never wedges.
  The session: bounded identical retries, the trace of an update, the buffer it needs, the
  errors of each operation. The adapters: budgets, and that each finds the response in its
  medium; for the bit-banged line down to sampling times with jitter. The device core
  refines the abstract device for every request. The update succeeds end to end over both
  framings and over the command line and is safe under a power cut at any flash operation,
  over I2C, the serial line and SPI; pages may be written in any order, a tampered image is
  not booted, the protocol table holds for every command byte, and the byte stream can be
  cut anywhere. Repeating a request changes nothing on the device, so a wire that never loses
  four attempts in a row only delays an update. The SPI pump is a queue with one byte of lag:
  the host sees one stale byte and then the response, whatever an abandoned exchange left
  behind. The two bit-banged ends understand each other with two percent of clock error, if
  the device looks at its line often enough and does not answer too early. The command line: local mistakes never reach the wire, the poll budget policy is an
  invariant of \<open>DynTransport\<close>, the erase budget covers the worst case for every delay but
  zero, HEX files are read back, templates expand exactly, no programmer
  runs before everything was resolved, an error text tells which failure it was, and a bad
  HEX file is reported by its first bad line. The harnesses that the crate hands to a
  bounded model checker pass at every size.

  \<^bold>\<open>Bounds and fuel.\<close> Loops that the code bounds by counters are
  functions with a termination proof: poll loops by \<open>budget_left\<close>, scan loops
  by \<open>scan_budget\<close> (what the scanner can still take inside a frame plus the
  budget for bytes outside), the CRC loops and page loops by their counts. Four loops have
  no bound in the code: the spin of \<open>SpinDelay\<close>, the two calls repeated after a signal and
  \<open>link_poll\<close> over an arbitrary \<open>get_byte\<close>; they are partial functions into \<open>option\<close>. The
  spin is shown to end for every clock that moves, the poll for every \<open>link_source\<close>.

  \<^bold>\<open>Not modelled.\<close> The argument parser and its help texts, the TOML
  parser, the quoting of \<open>{:?}\<close> and the texts of errors of the operating
  system (parameters); how \<open>anyhow\<close> lays out the chain of an error that
  \<open>main\<close> returns; the crate root; the process-wide lock of the harness; the
  entry-window stub, the hardware ports of the device and, of the skeletons of its ports,
  the pump for a register UART; the timing of the SPI clock (a device gets its turn between
  any two exchanges, as its header demands). The GPIO lines are ideal but for the clock of
  the device: levels without ramps, delays of the host that are exact.

  \<^bold>\<open>Environment and specifications.\<close> Some definitions are no translations of
  code. The main loop of a device is its vendor's: \<open>slave_serve\<close> (SPI) and \<open>soft_serve\<close> (two
  lines) run the translated pumps and \<open>link_poll\<close> the way the contracts in the headers of the
  pumps ask for, with rate, lag and work of the device as parameters, and \<open>gpio_wires\<close> is
  the pair of lines between it and the host, whose delays advance its clock by exactly what
  was asked (\<open>spin_delay\<close> models the code of the delay itself). \<open>page_image\<close> and
  \<open>write_pages\<close> specify what a page holds and what programming pages gives; \<open>page_into\<close>
  renders exactly the former (\<open>page_into_spec\<close>). \<open>region_image\<close> and the abstract device
  \<open>dev_step\<close> are specifications as well.

  \<^bold>\<open>Plan.\<close> Every component of the host is modelled, and all four wires end at the
  device. What could be added is the loss of power behind the GPIO lines, and the unit tests
  of \<^verbatim>\<open>updater-core\<close> and \<^verbatim>\<open>updater-eh\<close> as evaluated lemmas.
\<close>

end
